(* ===== verification/LdbPrelude.thy ===== *)
theory LdbPrelude
  imports Main "HOL-Library.Word"
begin

text \<open>
  Shared vocabulary of the development: the width of the program's integers, the
  faults a C++ execution can run into, executions that may not return, the contract
  of a three-way comparator, and generic lemmas on lists.

  \<^item> \<open>outcome\<close> is a terminating piece of code: \<open>Inl\<close> a fault (a failed \<open>assert\<close> or
    undefined behaviour), \<open>Inr\<close> the value it returns.
  \<^item> \<open>run\<close> is a piece of code that may loop: \<open>None\<close> when it does not return.
\<close>

section \<open>Integers, faults, executions\<close>

type_synonym u32 = "32 word"
type_synonym u64 = "64 word"

datatype fault = AssertFailed | NullDeref | BadAddress | OutOfBounds | Uninitialised | NoReturnValue

type_synonym 'a outcome = "fault + 'a"
type_synonym 'a run = "(fault + 'a) option"

definition obind :: "'a outcome \<Rightarrow> ('a \<Rightarrow> 'b outcome) \<Rightarrow> 'b outcome" where
  "obind m f = (case m of Inl e \<Rightarrow> Inl e | Inr v \<Rightarrow> f v)"

definition rbind :: "'a run \<Rightarrow> ('a \<Rightarrow> 'b run) \<Rightarrow> 'b run" where
  "rbind m f = (case m of None \<Rightarrow> None | Some (Inl e) \<Rightarrow> Some (Inl e) | Some (Inr v) \<Rightarrow> f v)"

definition cpp_assert :: "bool \<Rightarrow> unit outcome" where
  "cpp_assert b = (if b then Inr () else Inl AssertFailed)"

text \<open>A \<open>for\<close> loop over a sequence whose body may fault.\<close>

fun ofold :: "('a \<Rightarrow> 's \<Rightarrow> 's outcome) \<Rightarrow> 'a list \<Rightarrow> 's \<Rightarrow> 's outcome" where
  "ofold f [] s = Inr s"
| "ofold f (x # xs) s = obind (f x s) (ofold f xs)"

lemma obind_simps [simp]:
  "obind (Inl e) f = Inl e"
  "obind (Inr v) f = f v"
  by (simp_all add: obind_def)

lemma obind_eq_Inr: "obind m f = Inr w \<longleftrightarrow> (\<exists>v. m = Inr v \<and> f v = Inr w)"
  by (cases m) auto

lemma rbind_simps [simp]:
  "rbind None f = None"
  "rbind (Some (Inl e)) f = Some (Inl e)"
  "rbind (Some (Inr v)) f = f v"
  by (simp_all add: rbind_def)

lemma obind_assoc: "obind (obind m f) g = obind m (\<lambda>v. obind (f v) g)"
  by (cases m) simp_all

lemma ofold_append: "ofold f (xs @ ys) s = obind (ofold f xs s) (ofold f ys)"
  by (induction xs arbitrary: s) (simp_all add: obind_def split: sum.splits)

text \<open>The invariant rule of such a loop.\<close>

lemma ofold_invariant:
  assumes "ofold f xs s = Inr t" and "I s"
    and "\<And>x u v. x \<in> set xs \<Longrightarrow> I u \<Longrightarrow> f x u = Inr v \<Longrightarrow> I v"
  shows "I t"
  using assms
proof (induction xs arbitrary: s)
  case (Cons x xs)
  then obtain u where "f x s = Inr u" "ofold f xs u = Inr t" by (auto simp: obind_eq_Inr)
  with Cons show ?case by (metis list.set_intros)
qed simp

lemma cpp_assert_simps [simp]:
  "b \<Longrightarrow> cpp_assert b = Inr ()"
  "\<not> b \<Longrightarrow> cpp_assert b = Inl AssertFailed"
  by (simp_all add: cpp_assert_def)

section \<open>Comparators\<close>

text \<open>
  The contract of a three-way comparator (\<open>Comparator::Compare\<close>, the template argument
  \<open>Comparator\<close> of \<open>SkipList\<close>): the sign of the result is a total preorder.
\<close>

locale comparator =
  fixes cmp :: "'k \<Rightarrow> 'k \<Rightarrow> int"
  assumes cmp_flip: "cmp a b < 0 \<longleftrightarrow> 0 < cmp b a"
    and cmp_le_trans: "cmp a b \<le> 0 \<Longrightarrow> cmp b c \<le> 0 \<Longrightarrow> cmp a c \<le> 0"
begin

lemma cmp_refl [simp]: "cmp a a = 0"
  using cmp_flip [of a a] by linarith

lemma cmp_flip0: "cmp a b = 0 \<longleftrightarrow> cmp b a = 0"
  using cmp_flip [of a b] cmp_flip [of b a] by linarith

lemma cmp_flip_le: "cmp a b \<le> 0 \<longleftrightarrow> 0 \<le> cmp b a"
  using cmp_flip [of b a] by linarith

lemma cmp_total: "cmp a b \<le> 0 \<or> cmp b a \<le> 0"
  using cmp_flip [of b a] by linarith

lemma cmp_le_less_trans: "cmp a b \<le> 0 \<Longrightarrow> cmp b c < 0 \<Longrightarrow> cmp a c < 0"
  using cmp_le_trans [of a b c] cmp_le_trans [of c a b] cmp_flip [of b c] cmp_flip0 [of a c]
  by force

lemma cmp_less_le_trans: "cmp a b < 0 \<Longrightarrow> cmp b c \<le> 0 \<Longrightarrow> cmp a c < 0"
  using cmp_le_trans [of a b c] cmp_le_trans [of b c a] cmp_flip [of a b] cmp_flip0 [of a c]
  by force

lemma cmp_less_trans: "cmp a b < 0 \<Longrightarrow> cmp b c < 0 \<Longrightarrow> cmp a c < 0"
  by (erule cmp_less_le_trans) simp

end

text \<open>
  The requirement C++ puts on the ordering of a \<open>std::set\<close> or the predicate of
  \<open>std::upper_bound\<close>: a strict weak order.
\<close>

locale weak_order =
  fixes less :: "'a \<Rightarrow> 'a \<Rightarrow> bool"
  assumes less_irrefl: "\<not> less a a"
    and less_trans: "less a b \<Longrightarrow> less b c \<Longrightarrow> less a c"
    and incomp_trans: "\<not> less a b \<Longrightarrow> \<not> less b c \<Longrightarrow> \<not> less a c"
begin

lemma less_asym: "less a b \<Longrightarrow> \<not> less b a"
  using less_irrefl less_trans by blast

end

text \<open>
  \<open>std::set\<close>, kept as the list of its elements in order: \<open>insert\<close> leaves the set alone
  when it holds an equivalent element.
\<close>

fun set_insert :: "('a \<Rightarrow> 'a \<Rightarrow> bool) \<Rightarrow> 'a \<Rightarrow> 'a list \<Rightarrow> 'a list" where
  "set_insert lt x [] = [x]"
| "set_insert lt x (y # ys) =
     (if lt x y then x # y # ys
      else if lt y x then y # set_insert lt x ys
      else y # ys)"

lemma set_set_insert_subset: "set (set_insert lt x xs) \<subseteq> insert x (set xs)"
  by (induction xs) auto

lemma set_insert_keeps: "set xs \<subseteq> set (set_insert lt x xs)"
  by (induction xs) auto

lemma set_insert_has:
  "x \<in> set (set_insert lt x xs) \<or> (\<exists>y \<in> set xs. \<not> lt x y \<and> \<not> lt y x)"
  by (induction xs) auto

text \<open>
  Walking two ordered sequences at once: before each element of the first, all elements of
  the second up to \<open>std::upper_bound\<close>.
\<close>

definition upper_bound :: "('a \<Rightarrow> 'a \<Rightarrow> bool) \<Rightarrow> 'a \<Rightarrow> 'a list \<Rightarrow> nat" where
  "upper_bound lt x xs = length (takeWhile (\<lambda>y. \<not> lt x y) xs)"

fun merge_after :: "('a \<Rightarrow> 'a \<Rightarrow> bool) \<Rightarrow> 'a list \<Rightarrow> 'a list \<Rightarrow> 'a list" where
  "merge_after lt [] ys = ys"
| "merge_after lt (x # xs) ys =
     take (upper_bound lt x ys) ys @ x # merge_after lt xs (drop (upper_bound lt x ys) ys)"

lemma set_merge_after [simp]: "set (merge_after lt xs ys) = set xs \<union> set ys"
proof (induction xs arbitrary: ys)
  case (Cons x xs)
  have "set ys = set (take (upper_bound lt x ys) ys) \<union> set (drop (upper_bound lt x ys) ys)"
    by (metis append_take_drop_id set_append)
  with Cons show ?case by auto
qed simp

lemma length_merge_after [simp]: "length (merge_after lt xs ys) = length xs + length ys"
proof (induction xs arbitrary: ys)
  case (Cons x xs)
  then show ?case by (cases "upper_bound lt x ys \<le> length ys") (auto simp: min_def)
qed simp

context weak_order
begin

lemma sorted_set_insert:
  "sorted_wrt less xs \<Longrightarrow> sorted_wrt less (set_insert less x xs)"
proof (induction xs)
  case (Cons y ys)
  then show ?case
    using less_trans [of x y] set_set_insert_subset [of less x ys] by (auto split: if_splits)
qed simp

lemma less_not_less_trans: "less a b \<Longrightarrow> \<not> less c b \<Longrightarrow> less a c"
  using incomp_trans [of a c b] by blast

lemma sorted_merge_after:
  assumes "sorted_wrt less xs" and "sorted_wrt (\<lambda>a b. \<not> less b a) ys"
  shows "sorted_wrt (\<lambda>a b. \<not> less b a) (merge_after less xs ys)"
  using assms
proof (induction xs arbitrary: ys)
  case (Cons x xs)
  let ?tw = "takeWhile (\<lambda>y. \<not> less x y) ys" and ?dw = "dropWhile (\<lambda>y. \<not> less x y) ys"
  have split: "take (upper_bound less x ys) ys = ?tw" "drop (upper_bound less x ys) ys = ?dw"
    unfolding upper_bound_def by (metis takeWhile_eq_take, metis dropWhile_eq_drop)
  have srt: "sorted_wrt (\<lambda>a b. \<not> less b a) (?tw @ ?dw)" using Cons.prems(2) by simp
  have tw: "\<not> less x a" if "a \<in> set ?tw" for a using set_takeWhileD [OF that] by simp
  have dw: "less x b" if b: "b \<in> set ?dw" for b
  proof (cases ?dw)
    case (Cons c cs)
    then have "less x c" by (simp add: dropWhile_eq_Cons_conv)
    moreover have "b = c \<or> \<not> less b c" using srt b Cons by (auto simp: sorted_wrt_append)
    ultimately show ?thesis using less_not_less_trans by blast
  next
    case Nil
    from b show ?thesis unfolding Nil by simp
  qed
  have xs: "less x c" if "c \<in> set xs" for c using Cons.prems(1) that by simp
  have "sorted_wrt (\<lambda>a b. \<not> less b a) ?dw" using srt by (simp only: sorted_wrt_append)
  then have IH: "sorted_wrt (\<lambda>a b. \<not> less b a) (merge_after less xs ?dw)"
    using Cons.IH Cons.prems(1) by simp
  have above: "b = x \<or> less x b" if "b \<in> insert x (set xs \<union> set ?dw)" for b
    using that xs dw by blast
  have cross: "\<not> less b a" if a: "a \<in> set ?tw" and b: "b \<in> insert x (set xs \<union> set ?dw)" for a b
    using above [OF b] tw [OF a] less_trans [of x b a] by blast
  have "sorted_wrt (\<lambda>a b. \<not> less b a) ?tw" using srt by (simp only: sorted_wrt_append)
  moreover have "\<forall>b \<in> set xs \<union> set ?dw. \<not> less b x" using xs dw less_asym by blast
  ultimately show ?case
    unfolding merge_after.simps split sorted_wrt_append sorted_wrt.simps set_simps set_merge_after
    using IH cross by blast
qed simp

end

sublocale comparator \<subseteq> key_order: weak_order "\<lambda>a b. cmp a b < 0"
proof unfold_locales
  show "\<not> cmp a a < 0" for a by simp
  show "cmp a b < 0 \<Longrightarrow> cmp b c < 0 \<Longrightarrow> cmp a c < 0" for a b c
    by (rule cmp_less_trans)
  show "\<not> cmp a b < 0 \<Longrightarrow> \<not> cmp b c < 0 \<Longrightarrow> \<not> cmp a c < 0" for a b c
    using cmp_le_trans [of c b a] cmp_flip_le [of c b] cmp_flip_le [of b a] cmp_flip_le [of c a]
    by linarith
qed

text \<open>
  Comparison of byte strings the way \<open>memcmp\<close> orders them, a proper prefix first: the
  order of user keys under LevelDB's default comparator.
\<close>

fun bytes_compare :: "8 word list \<Rightarrow> 8 word list \<Rightarrow> int" where
  "bytes_compare [] [] = 0"
| "bytes_compare [] (b # bs) = -1"
| "bytes_compare (a # as) [] = 1"
| "bytes_compare (a # as) (b # bs) =
     (if a < b then -1 else if b < a then 1 else bytes_compare as bs)"

lemma bytes_compare_flip: "bytes_compare a b < 0 \<longleftrightarrow> 0 < bytes_compare b a"
  by (induction a b rule: bytes_compare.induct) auto

lemma bytes_compare_trans:
  "bytes_compare a b \<le> 0 \<Longrightarrow> bytes_compare b c \<le> 0 \<Longrightarrow> bytes_compare a c \<le> 0"
proof (induction a b arbitrary: c rule: bytes_compare.induct)
  case (1 c)
  then show ?case by simp
next
  case (2 b bs c)
  then show ?case by (cases c) auto
next
  case (3 a as c)
  then show ?case by simp
next
  case (4 a as b bs c)
  then show ?case by (cases c) (auto split: if_splits)
qed

interpretation bytes: comparator bytes_compare
  by unfold_locales (rule bytes_compare_flip, erule (1) bytes_compare_trans)

section \<open>Lists\<close>

text \<open>The first element as a pointer-like value: \<open>None\<close> for an empty list.\<close>

definition head_opt :: "'a list \<Rightarrow> 'a option" where
  "head_opt xs = (case xs of [] \<Rightarrow> None | x # _ \<Rightarrow> Some x)"

lemma head_opt_simps [simp]:
  "head_opt [] = None"
  "head_opt (x # xs) = Some x"
  by (simp_all add: head_opt_def)

lemma head_opt_eq_None [simp]: "head_opt xs = None \<longleftrightarrow> xs = []"
  by (cases xs) auto

lemma head_opt_SomeD: "head_opt xs = Some x \<Longrightarrow> x \<in> set xs"
  by (cases xs) auto

lemma takeWhile_append_hit:
  "(\<And>a. a \<in> set as \<Longrightarrow> P a) \<Longrightarrow> P x \<Longrightarrow>
   takeWhile P (as @ x # bs) = as @ x # takeWhile P bs"
  by (induction as) auto

lemma dropWhile_append_hit:
  "(\<And>a. a \<in> set as \<Longrightarrow> P a) \<Longrightarrow> P x \<Longrightarrow>
   dropWhile P (as @ x # bs) = dropWhile P bs"
  by (induction as) auto

lemma split_last_takeWhile:
  "\<exists>as. h # takeWhile P xs = as @ [last (h # takeWhile P xs)]"
  by (metis append_butlast_last_id list.distinct(1))

lemma sorted_wrt_takeWhile_all:
  assumes "sorted_wrt R xs" and "x \<in> set (dropWhile P xs)"
    and "\<And>a b. R a b \<Longrightarrow> P b \<Longrightarrow> P a"
  shows "\<not> P x"
  using assms(1,2)
proof (induction xs)
  case (Cons y ys)
  then show ?case using assms(3) by (auto split: if_splits)
qed simp

end
