(* ===== verification/SkipList.thy ===== *)
theory SkipList
  imports LdbPrelude
begin

text \<open>
  The skip list of \<open>db/skiplist.h\<close>: its nodes in an arena, its links, and every operation
  of the class and of its iterator.

  The arena only grows: \<open>NewNode\<close> appends, and an address is the position of a node in it.
  A \<open>Node*\<close> is an \<open>addr option\<close> with \<open>None\<close> for \<open>nullptr\<close>. The variable-length array
  \<open>node_next\<close> has as many slots as the height the node was allocated with; a slot nobody has
  stored to yet is \<open>None\<close>, and reading it is a fault, as is an access past the
  allocated slots. \<open>compare_\<close>, \<open>Random::Next\<close> and the key given to the head node are
  arguments, since \<open>util/random.h\<close>, \<open>util/arena.h\<close> and the comparator are not in the
  repository. \<open>nd\<close> says whether the code is compiled with \<open>NDEBUG\<close>, that is without
  its asserts.
\<close>

section \<open>Nodes and links\<close>

type_synonym addr = nat
type_synonym ptr = "addr option"

record 'k node =
  node_key :: 'k
  node_next :: "ptr option list"

record ('k, 'r) skiplist =
  sl_arena :: "'k node list"
  sl_head :: addr
  sl_max_height :: int
  sl_rnd :: 'r

definition kMaxHeight :: int where
  "kMaxHeight = 12"

definition GetMaxHeight :: "('k, 'r) skiplist \<Rightarrow> int" where
  "GetMaxHeight sl = sl_max_height sl"

definition node_at :: "('k, 'r) skiplist \<Rightarrow> ptr \<Rightarrow> 'k node outcome" where
  "node_at sl x =
     (case x of None \<Rightarrow> Inl NullDeref
      | Some a \<Rightarrow> if a < length (sl_arena sl) then Inr (sl_arena sl ! a) else Inl BadAddress)"

definition Node_key :: "('k, 'r) skiplist \<Rightarrow> ptr \<Rightarrow> 'k outcome" where
  "Node_key sl x = obind (node_at sl x) (\<lambda>nd. Inr (node_key nd))"

definition Node_Next :: "('k, 'r) skiplist \<Rightarrow> ptr \<Rightarrow> int \<Rightarrow> ptr outcome" where
  "Node_Next sl x n =
     (if n < 0 then Inl AssertFailed
      else obind (node_at sl x) (\<lambda>nd.
        if nat n < length (node_next nd)
        then (case node_next nd ! nat n of None \<Rightarrow> Inl Uninitialised | Some p \<Rightarrow> Inr p)
        else Inl OutOfBounds))"

definition Node_SetNext ::
  "('k, 'r) skiplist \<Rightarrow> ptr \<Rightarrow> int \<Rightarrow> ptr \<Rightarrow> ('k, 'r) skiplist outcome" where
  "Node_SetNext sl x n p =
     (if n < 0 then Inl AssertFailed
      else obind (node_at sl x) (\<lambda>nd.
        if nat n < length (node_next nd)
        then Inr (sl\<lparr>sl_arena := (sl_arena sl)[the x := nd\<lparr>node_next := (node_next nd)[nat n := Some p]\<rparr>]\<rparr>)
        else Inl OutOfBounds))"

text \<open>
  The \<open>NoBarrier\<close> accessors differ in the memory order only; the model's stores are
  atomic and take effect in program order, so they act as the others do.
\<close>

definition Node_NoBarrier_Next :: "('k, 'r) skiplist \<Rightarrow> ptr \<Rightarrow> int \<Rightarrow> ptr outcome" where
  "Node_NoBarrier_Next sl x n = Node_Next sl x n"

definition Node_NoBarrier_SetNext ::
  "('k, 'r) skiplist \<Rightarrow> ptr \<Rightarrow> int \<Rightarrow> ptr \<Rightarrow> ('k, 'r) skiplist outcome" where
  "Node_NoBarrier_SetNext sl x n p = Node_SetNext sl x n p"

definition NewNode :: "('k, 'r) skiplist \<Rightarrow> 'k \<Rightarrow> int \<Rightarrow> ptr \<times> ('k, 'r) skiplist" where
  "NewNode sl k height =
     (Some (length (sl_arena sl)),
      sl\<lparr>sl_arena := sl_arena sl @ [\<lparr>node_key = k, node_next = replicate (nat height) None\<rparr>]\<rparr>)"

section \<open>Searching\<close>

definition Equal :: "('k \<Rightarrow> 'k \<Rightarrow> int) \<Rightarrow> 'k \<Rightarrow> 'k \<Rightarrow> bool" where
  "Equal compare a b = (compare a b = 0)"

definition KeyIsAfterNode ::
  "('k \<Rightarrow> 'k \<Rightarrow> int) \<Rightarrow> ('k, 'r) skiplist \<Rightarrow> 'k \<Rightarrow> ptr \<Rightarrow> bool outcome" where
  "KeyIsAfterNode compare sl k n =
     (if n = None then Inr False
      else obind (Node_key sl n) (\<lambda>nk. Inr (compare nk k < 0)))"

text \<open>The caller's array \<open>prev\<close>: \<open>None\<close> when the caller passes \<open>nullptr\<close>.\<close>

type_synonym prev_array = "ptr option list option"

definition store_prev :: "prev_array \<Rightarrow> int \<Rightarrow> ptr \<Rightarrow> prev_array outcome" where
  "store_prev prev level x =
     (case prev of None \<Rightarrow> Inr None
      | Some arr \<Rightarrow> if 0 \<le> level \<and> nat level < length arr then Inr (Some (arr[nat level := Some x]))
                 else Inl OutOfBounds)"

definition load_prev :: "prev_array \<Rightarrow> int \<Rightarrow> ptr outcome" where
  "load_prev prev level =
     (case prev of None \<Rightarrow> Inl NullDeref
      | Some arr \<Rightarrow> if 0 \<le> level \<and> nat level < length arr
                 then (case arr ! nat level of None \<Rightarrow> Inl Uninitialised | Some p \<Rightarrow> Inr p)
                 else Inl OutOfBounds)"

partial_function (option) FindGreaterOrEqual_loop ::
  "('k \<Rightarrow> 'k \<Rightarrow> int) \<Rightarrow> ('k, 'r) skiplist \<Rightarrow> 'k \<Rightarrow> ptr \<Rightarrow> int \<Rightarrow> prev_array
   \<Rightarrow> (ptr \<times> prev_array) run" where
  "FindGreaterOrEqual_loop compare sl k x level prev =
     (case Node_Next sl x level of Inl e \<Rightarrow> Some (Inl e)
      | Inr nxt \<Rightarrow>
        (case KeyIsAfterNode compare sl k nxt of Inl e \<Rightarrow> Some (Inl e)
         | Inr after \<Rightarrow>
           if after then FindGreaterOrEqual_loop compare sl k nxt level prev
           else (case store_prev prev level x of Inl e \<Rightarrow> Some (Inl e)
                 | Inr prev' \<Rightarrow>
                   if level = 0 then Some (Inr (nxt, prev'))
                   else FindGreaterOrEqual_loop compare sl k x (level - 1) prev')))"

definition FindGreaterOrEqual ::
  "('k \<Rightarrow> 'k \<Rightarrow> int) \<Rightarrow> ('k, 'r) skiplist \<Rightarrow> 'k \<Rightarrow> prev_array \<Rightarrow> (ptr \<times> prev_array) run" where
  "FindGreaterOrEqual compare sl k prev =
     FindGreaterOrEqual_loop compare sl k (Some (sl_head sl)) (GetMaxHeight sl - 1) prev"

definition FindLessThan_assert ::
  "bool \<Rightarrow> ('k \<Rightarrow> 'k \<Rightarrow> int) \<Rightarrow> ('k, 'r) skiplist \<Rightarrow> 'k \<Rightarrow> ptr \<Rightarrow> unit outcome" where
  "FindLessThan_assert nd compare sl k x =
     (if nd \<or> x = Some (sl_head sl) then Inr ()
      else obind (Node_key sl x) (\<lambda>xk. cpp_assert (compare xk k < 0)))"

definition FindLessThan_stop ::
  "('k \<Rightarrow> 'k \<Rightarrow> int) \<Rightarrow> ('k, 'r) skiplist \<Rightarrow> 'k \<Rightarrow> ptr \<Rightarrow> bool outcome" where
  "FindLessThan_stop compare sl k nxt =
     (if nxt = None then Inr True
      else obind (Node_key sl nxt) (\<lambda>nk. Inr (compare nk k > 0)))"

partial_function (option) FindLessThan_loop ::
  "bool \<Rightarrow> ('k \<Rightarrow> 'k \<Rightarrow> int) \<Rightarrow> ('k, 'r) skiplist \<Rightarrow> 'k \<Rightarrow> ptr \<Rightarrow> int \<Rightarrow> ptr run" where
  "FindLessThan_loop nd compare sl k x level =
     (case FindLessThan_assert nd compare sl k x of Inl e \<Rightarrow> Some (Inl e)
      | Inr u \<Rightarrow>
        (case Node_Next sl x level of Inl e \<Rightarrow> Some (Inl e)
         | Inr nxt \<Rightarrow>
           (case FindLessThan_stop compare sl k nxt of Inl e \<Rightarrow> Some (Inl e)
            | Inr stop \<Rightarrow>
              if stop
              then (if level = 0 then Some (Inr x)
                    else FindLessThan_loop nd compare sl k x (level - 1))
              else FindLessThan_loop nd compare sl k nxt level)))"

definition FindLessThan ::
  "bool \<Rightarrow> ('k \<Rightarrow> 'k \<Rightarrow> int) \<Rightarrow> ('k, 'r) skiplist \<Rightarrow> 'k \<Rightarrow> ptr run" where
  "FindLessThan nd compare sl k =
     FindLessThan_loop nd compare sl k (Some (sl_head sl)) (GetMaxHeight sl - 1)"

partial_function (option) FindLast_loop :: "('k, 'r) skiplist \<Rightarrow> ptr \<Rightarrow> int \<Rightarrow> ptr run" where
  "FindLast_loop sl x level =
     (case Node_Next sl x level of Inl e \<Rightarrow> Some (Inl e)
      | Inr nxt \<Rightarrow>
        if nxt = None
        then (if level = 0 then Some (Inr x) else FindLast_loop sl x (level - 1))
        else FindLast_loop sl nxt level)"

definition FindLast :: "('k, 'r) skiplist \<Rightarrow> ptr run" where
  "FindLast sl = FindLast_loop sl (Some (sl_head sl)) (GetMaxHeight sl - 1)"

definition Contains :: "('k \<Rightarrow> 'k \<Rightarrow> int) \<Rightarrow> ('k, 'r) skiplist \<Rightarrow> 'k \<Rightarrow> bool run" where
  "Contains compare sl k =
     rbind (FindGreaterOrEqual compare sl k None) (\<lambda>(x, _).
       if x = None then Some (Inr False)
       else Some (obind (Node_key sl x) (\<lambda>xk. Inr (Equal compare k xk))))"

section \<open>Construction and insertion\<close>

definition kBranching :: u32 where
  "kBranching = 4"

function RandomHeight_loop :: "('r \<Rightarrow> u32 \<times> 'r) \<Rightarrow> int \<Rightarrow> 'r \<Rightarrow> int \<times> 'r" where
  "RandomHeight_loop rnd_Next height r =
     (if height < kMaxHeight
      then (case rnd_Next r of (v, r') \<Rightarrow>
              if v mod kBranching = 0 then RandomHeight_loop rnd_Next (height + 1) r'
              else (height, r'))
      else (height, r))"
  by pat_completeness auto
termination
  by (relation "measure (\<lambda>(f, height, r). nat (kMaxHeight - height))") auto

declare RandomHeight_loop.simps [simp del]

definition RandomHeight :: "('r \<Rightarrow> u32 \<times> 'r) \<Rightarrow> ('k, 'r) skiplist \<Rightarrow> (int \<times> ('k, 'r) skiplist) outcome"
where
  "RandomHeight rnd_Next sl =
     (case RandomHeight_loop rnd_Next 1 (sl_rnd sl) of (height, r) \<Rightarrow>
        obind (cpp_assert (height > 0)) (\<lambda>_.
        obind (cpp_assert (height \<le> kMaxHeight)) (\<lambda>_.
          Inr (height, sl\<lparr>sl_rnd := r\<rparr>))))"

fun SkipList_clear_head :: "nat \<Rightarrow> int \<Rightarrow> ('k, 'r) skiplist \<Rightarrow> ('k, 'r) skiplist outcome" where
  "SkipList_clear_head 0 i sl = Inr sl"
| "SkipList_clear_head (Suc n) i sl =
     obind (Node_SetNext sl (Some (sl_head sl)) i None) (SkipList_clear_head n (i + 1))"

definition SkipList :: "'k \<Rightarrow> 'r \<Rightarrow> ('k, 'r) skiplist outcome" where
  "SkipList any_key seed =
     (let sl = \<lparr>sl_arena = [], sl_head = 0, sl_max_height = 1, sl_rnd = seed\<rparr>;
          (p, sl1) = NewNode sl any_key kMaxHeight
      in SkipList_clear_head (nat kMaxHeight) 0 (sl1\<lparr>sl_head := the p\<rparr>))"

fun Insert_raise :: "nat \<Rightarrow> int \<Rightarrow> ptr \<Rightarrow> prev_array \<Rightarrow> prev_array outcome" where
  "Insert_raise 0 i h prev = Inr prev"
| "Insert_raise (Suc n) i h prev = obind (store_prev prev i h) (Insert_raise n (i + 1) h)"

text \<open>
  One round of the linking loop is two stores: the new node's own link first, then the
  link that publishes it at that level.
\<close>

definition Insert_prepare ::
  "('k, 'r) skiplist \<Rightarrow> ptr \<Rightarrow> prev_array \<Rightarrow> int \<Rightarrow> ('k, 'r) skiplist outcome" where
  "Insert_prepare sl x prev i =
     obind (load_prev prev i) (\<lambda>p.
     obind (Node_NoBarrier_Next sl p i) (\<lambda>q.
       Node_NoBarrier_SetNext sl x i q))"

definition Insert_publish ::
  "('k, 'r) skiplist \<Rightarrow> ptr \<Rightarrow> prev_array \<Rightarrow> int \<Rightarrow> ('k, 'r) skiplist outcome" where
  "Insert_publish sl x prev i = obind (load_prev prev i) (\<lambda>p. Node_SetNext sl p i x)"

fun Insert_link ::
  "nat \<Rightarrow> int \<Rightarrow> ('k, 'r) skiplist \<Rightarrow> ptr \<Rightarrow> prev_array \<Rightarrow> ('k, 'r) skiplist outcome" where
  "Insert_link 0 i sl x prev = Inr sl"
| "Insert_link (Suc n) i sl x prev =
     obind (Insert_prepare sl x prev i) (\<lambda>sl1.
     obind (Insert_publish sl1 x prev i) (\<lambda>sl2.
       Insert_link n (i + 1) sl2 x prev))"

definition Insert_assert ::
  "bool \<Rightarrow> ('k \<Rightarrow> 'k \<Rightarrow> int) \<Rightarrow> ('k, 'r) skiplist \<Rightarrow> 'k \<Rightarrow> ptr \<Rightarrow> unit outcome" where
  "Insert_assert nd compare sl k x =
     (if nd \<or> x = None then Inr ()
      else obind (Node_key sl x) (\<lambda>xk. cpp_assert (\<not> Equal compare k xk)))"

text \<open>
  \<open>Insert\<close> up to its linking loop: the node, the array of predecessors and the height
  the loop runs with.
\<close>

definition Insert_begin ::
  "bool \<Rightarrow> ('k \<Rightarrow> 'k \<Rightarrow> int) \<Rightarrow> ('r \<Rightarrow> u32 \<times> 'r) \<Rightarrow> ('k, 'r) skiplist \<Rightarrow> 'k
   \<Rightarrow> (ptr \<times> prev_array \<times> int \<times> ('k, 'r) skiplist) run" where
  "Insert_begin nd compare rnd_Next sl k =
     rbind (FindGreaterOrEqual compare sl k (Some (replicate (nat kMaxHeight) None)))
       (\<lambda>(x, prev). Some (
         obind (Insert_assert nd compare sl k x) (\<lambda>_.
         obind (RandomHeight rnd_Next sl) (\<lambda>(height, sl1).
         obind (if height > GetMaxHeight sl1
                then obind (Insert_raise (nat (height - GetMaxHeight sl1)) (GetMaxHeight sl1)
                              (Some (sl_head sl1)) prev)
                       (\<lambda>prev'. Inr (prev', sl1\<lparr>sl_max_height := height\<rparr>))
                else Inr (prev, sl1)) (\<lambda>(prev', sl2).
         case NewNode sl2 k height of (x', sl3) \<Rightarrow> Inr (x', prev', height, sl3))))))"

definition Insert ::
  "bool \<Rightarrow> ('k \<Rightarrow> 'k \<Rightarrow> int) \<Rightarrow> ('r \<Rightarrow> u32 \<times> 'r) \<Rightarrow> ('k, 'r) skiplist \<Rightarrow> 'k
   \<Rightarrow> ('k, 'r) skiplist run" where
  "Insert nd compare rnd_Next sl k =
     rbind (Insert_begin nd compare rnd_Next sl k) (\<lambda>(x, prev, height, sl').
       Some (Insert_link (nat height) 0 sl' x prev))"

section \<open>The iterator\<close>

text \<open>An iterator over a list is its \<open>node_\<close>.\<close>

definition Iterator :: ptr where
  "Iterator = None"

definition Iterator_Valid :: "ptr \<Rightarrow> bool" where
  "Iterator_Valid node \<longleftrightarrow> node \<noteq> None"

definition Iterator_key :: "('k, 'r) skiplist \<Rightarrow> ptr \<Rightarrow> 'k outcome" where
  "Iterator_key sl node = obind (cpp_assert (Iterator_Valid node)) (\<lambda>_. Node_key sl node)"

definition Iterator_Next :: "('k, 'r) skiplist \<Rightarrow> ptr \<Rightarrow> ptr outcome" where
  "Iterator_Next sl node = obind (cpp_assert (Iterator_Valid node)) (\<lambda>_. Node_Next sl node 0)"

definition null_if_head :: "('k, 'r) skiplist \<Rightarrow> ptr \<Rightarrow> ptr" where
  "null_if_head sl node = (if node = Some (sl_head sl) then None else node)"

definition Iterator_Prev ::
  "bool \<Rightarrow> ('k \<Rightarrow> 'k \<Rightarrow> int) \<Rightarrow> ('k, 'r) skiplist \<Rightarrow> ptr \<Rightarrow> ptr run" where
  "Iterator_Prev nd compare sl node =
     rbind (Some (Iterator_key sl node)) (\<lambda>k.
     rbind (FindLessThan nd compare sl k) (\<lambda>p. Some (Inr (null_if_head sl p))))"

definition Iterator_Seek :: "('k \<Rightarrow> 'k \<Rightarrow> int) \<Rightarrow> ('k, 'r) skiplist \<Rightarrow> 'k \<Rightarrow> ptr run" where
  "Iterator_Seek compare sl target =
     rbind (FindGreaterOrEqual compare sl target None) (\<lambda>(x, _). Some (Inr x))"

definition Iterator_SeekToFirst :: "('k, 'r) skiplist \<Rightarrow> ptr outcome" where
  "Iterator_SeekToFirst sl = Node_Next sl (Some (sl_head sl)) 0"

definition Iterator_SeekToLast :: "('k, 'r) skiplist \<Rightarrow> ptr run" where
  "Iterator_SeekToLast sl = rbind (FindLast sl) (\<lambda>p. Some (Inr (null_if_head sl p)))"

end
