(* ===== verification/SkipListSearch.thy ===== *)
theory SkipListSearch
  imports SkipList
begin

text \<open>
  The invariant of the skip list and its searches. \<open>sl_ok cmp sl L\<close> says that
  \<open>L i\<close> is the list of the nodes linked at level \<open>i\<close>: every level is a null-terminated
  chain from the head, strictly sorted by key, each level a part of the one below it,
  nothing linked at or above \<open>max_height\<close>. \<open>sl_rep cmp sl ks\<close> says that the list
  represents the sorted list of keys \<open>ks\<close>. The searches are proved to return, with the
  node the documentation of each promises, in every state with the invariant.
\<close>

section \<open>Chains of links\<close>

definition link_at :: "('k, 'r) skiplist \<Rightarrow> nat \<Rightarrow> addr \<Rightarrow> ptr option" where
  "link_at sl i a =
     (if a < length (sl_arena sl) \<and> i < length (node_next (sl_arena sl ! a))
      then node_next (sl_arena sl ! a) ! i else None)"

definition key_at :: "('k, 'r) skiplist \<Rightarrow> addr \<Rightarrow> 'k" where
  "key_at sl a = node_key (sl_arena sl ! a)"

primrec lpath :: "('k, 'r) skiplist \<Rightarrow> nat \<Rightarrow> ptr \<Rightarrow> addr list \<Rightarrow> ptr \<Rightarrow> bool" where
  "lpath sl i p [] q \<longleftrightarrow> p = q"
| "lpath sl i p (a # as) q \<longleftrightarrow>
     p = Some a \<and> (\<exists>r. link_at sl i a = Some r \<and> lpath sl i r as q)"

lemma lpath_append:
  "lpath sl i p (as @ bs) q \<longleftrightarrow> (\<exists>r. lpath sl i p as r \<and> lpath sl i r bs q)"
  by (induction as arbitrary: p) auto

lemma lpath_in_arena: "lpath sl i p as q \<Longrightarrow> a \<in> set as \<Longrightarrow> a < length (sl_arena sl)"
  by (induction as arbitrary: p) (auto simp: link_at_def split: if_splits)

lemma lpath_start: "lpath sl i p as None \<Longrightarrow> p = head_opt as"
  by (cases as) auto

lemma lpath_cong:
  "(\<And>a. a \<in> set as \<Longrightarrow> link_at sl' i a = link_at sl i a) \<Longrightarrow>
   lpath sl' i p as q = lpath sl i p as q"
  by (induction as arbitrary: p) auto

lemma Node_Next_link_at:
  "link_at sl i a = Some q \<Longrightarrow> Node_Next sl (Some a) (int i) = Inr q"
  by (auto simp: link_at_def Node_Next_def node_at_def split: if_splits option.splits)

lemma Node_key_at: "a < length (sl_arena sl) \<Longrightarrow> Node_key sl (Some a) = Inr (key_at sl a)"
  by (simp add: Node_key_def node_at_def key_at_def)

section \<open>The invariant\<close>

abbreviation key_less :: "('k \<Rightarrow> 'k \<Rightarrow> int) \<Rightarrow> ('k, 'r) skiplist \<Rightarrow> addr \<Rightarrow> addr \<Rightarrow> bool" where
  "key_less cmp sl a b \<equiv> cmp (key_at sl a) (key_at sl b) < 0"

abbreviation levels :: nat where
  "levels \<equiv> nat kMaxHeight"

lemma levels_pos [simp]: "0 < levels"
  by (simp add: kMaxHeight_def)

definition sl_ok ::
  "('k \<Rightarrow> 'k \<Rightarrow> int) \<Rightarrow> ('k, 'r) skiplist \<Rightarrow> (nat \<Rightarrow> addr list) \<Rightarrow> bool" where
  "sl_ok cmp sl L \<longleftrightarrow>
     1 \<le> sl_max_height sl \<and> sl_max_height sl \<le> kMaxHeight \<and>
     (\<forall>i < levels. lpath sl i (Some (sl_head sl)) (sl_head sl # L i) None) \<and>
     (\<forall>i < levels. sl_head sl \<notin> set (L i)) \<and>
     (\<forall>i < levels. sorted_wrt (key_less cmp sl) (L i)) \<and>
     (\<forall>i. Suc i < levels \<longrightarrow> set (L (Suc i)) \<subseteq> set (L i)) \<and>
     (\<forall>i < levels. nat (sl_max_height sl) \<le> i \<longrightarrow> L i = [])"

definition sl_rep :: "('k \<Rightarrow> 'k \<Rightarrow> int) \<Rightarrow> ('k, 'r) skiplist \<Rightarrow> 'k list \<Rightarrow> bool" where
  "sl_rep cmp sl ks \<longleftrightarrow> (\<exists>L. sl_ok cmp sl L \<and> map (key_at sl) (L 0) = ks)"

lemma sl_okD:
  assumes "sl_ok cmp sl L"
  shows sl_ok_height: "1 \<le> sl_max_height sl" "sl_max_height sl \<le> kMaxHeight"
    and sl_ok_path: "i < levels \<Longrightarrow> lpath sl i (Some (sl_head sl)) (sl_head sl # L i) None"
    and sl_ok_head: "i < levels \<Longrightarrow> sl_head sl \<notin> set (L i)"
    and sl_ok_sorted: "i < levels \<Longrightarrow> sorted_wrt (key_less cmp sl) (L i)"
    and sl_ok_subset: "Suc i < levels \<Longrightarrow> set (L (Suc i)) \<subseteq> set (L i)"
    and sl_ok_above: "i < levels \<Longrightarrow> nat (sl_max_height sl) \<le> i \<Longrightarrow> L i = []"
  using assms by (simp_all add: sl_ok_def)

lemma sl_ok_subset0:
  assumes "sl_ok cmp sl L" and "i < levels"
  shows "set (L i) \<subseteq> set (L 0)"
  using assms(2)
proof (induction i)
  case (Suc i)
  then show ?case using sl_ok_subset [OF assms(1), of i] by auto
qed simp

lemma sl_ok_arena:
  assumes "sl_ok cmp sl L" and "i < levels" and "a \<in> set (sl_head sl # L i)"
  shows "a < length (sl_arena sl)"
  using lpath_in_arena [OF sl_ok_path [OF assms(1,2)] assms(3)] .

text \<open>
  A search at one level walks a prefix of it: \<open>stop_at\<close> is where it stands when the next
  node does not satisfy \<open>P\<close>, and \<open>rest_at\<close> is what follows.
\<close>

definition stop_at :: "('k, 'r) skiplist \<Rightarrow> (addr \<Rightarrow> bool) \<Rightarrow> addr list \<Rightarrow> addr" where
  "stop_at sl P as = last (sl_head sl # takeWhile P as)"

definition down_closed ::
  "('k \<Rightarrow> 'k \<Rightarrow> int) \<Rightarrow> ('k, 'r) skiplist \<Rightarrow> (addr \<Rightarrow> bool) \<Rightarrow> bool" where
  "down_closed cmp sl P \<longleftrightarrow> (\<forall>a b. key_less cmp sl a b \<longrightarrow> P b \<longrightarrow> P a)"

lemma stop_at_in: "stop_at sl P as \<in> set (sl_head sl # takeWhile P as)"
  unfolding stop_at_def by (rule last_in_set) simp

lemma stop_at_cases: "stop_at sl P as = sl_head sl \<or> stop_at sl P as \<in> set as \<and> P (stop_at sl P as)"
  using stop_at_in [of sl P as] by (auto dest: set_takeWhileD)

text \<open>
  Where a walk of one level may resume on any level that has its node: the chain from that
  node on, and the fact that the walk from there ends where the walk from the head does.
\<close>

lemma resume:
  assumes ok: "sl_ok cmp sl L" and i: "i < levels" and P: "down_closed cmp sl P"
    and x: "x = sl_head sl \<or> x \<in> set (L i) \<and> P x"
  obtains bs where "lpath sl i (Some x) (x # bs) None" "set bs \<subseteq> set (L i)"
    "last (x # takeWhile P bs) = stop_at sl P (L i)"
    "dropWhile P bs = dropWhile P (L i)"
proof (cases "x = sl_head sl")
  case True
  then show ?thesis using that [of "L i"] sl_ok_path [OF ok i] by (auto simp: stop_at_def)
next
  case False
  with x have "x \<in> set (L i)" and Px: "P x" by auto
  then obtain as bs where L: "L i = as @ x # bs" by (auto dest: split_list)
  have as: "P a" if "a \<in> set as" for a
    using that sl_ok_sorted [OF ok i] P Px unfolding L
    by (auto simp: sorted_wrt_append down_closed_def)
  have "lpath sl i (Some x) (x # bs) None"
    using sl_ok_path [OF ok i] unfolding L by (auto simp: lpath_append)
  moreover have "last (x # takeWhile P bs) = stop_at sl P (L i)"
    unfolding stop_at_def L using as Px by (simp add: takeWhile_append_hit)
  moreover have "dropWhile P bs = dropWhile P (L i)"
    unfolding L using as Px by (simp add: dropWhile_append_hit)
  ultimately show ?thesis using that [of bs] by (auto simp: L)
qed

lemma stop_at_below:
  assumes ok: "sl_ok cmp sl L" and i: "Suc i < levels"
    and x: "x = stop_at sl P (L (Suc i))"
  shows "x = sl_head sl \<or> x \<in> set (L i) \<and> P x"
  using stop_at_cases [of sl P "L (Suc i)"] sl_ok_subset [OF ok i] x by auto

lemma top_level:
  assumes "sl_ok cmp sl L"
  obtains m where "GetMaxHeight sl - 1 = int m" "m < levels" "Suc m = nat (sl_max_height sl)"
proof -
  have h: "1 \<le> sl_max_height sl" "sl_max_height sl \<le> kMaxHeight"
    using sl_ok_height [OF assms] by auto
  show ?thesis
    by (rule that [of "nat (sl_max_height sl - 1)"])
      (use h in \<open>simp_all add: GetMaxHeight_def kMaxHeight_def nat_less_iff\<close>)
qed

section \<open>FindGreaterOrEqual\<close>

abbreviation before :: "('k \<Rightarrow> 'k \<Rightarrow> int) \<Rightarrow> ('k, 'r) skiplist \<Rightarrow> 'k \<Rightarrow> addr \<Rightarrow> bool" where
  "before cmp sl k a \<equiv> cmp (key_at sl a) k < 0"

lemma KeyIsAfterNode_Some:
  "a < length (sl_arena sl) \<Longrightarrow> KeyIsAfterNode cmp sl k (Some a) = Inr (before cmp sl k a)"
  by (simp add: KeyIsAfterNode_def Node_key_at)

lemma KeyIsAfterNode_None [simp]: "KeyIsAfterNode cmp sl k None = Inr False"
  by (simp add: KeyIsAfterNode_def)

definition FindGE_descend where
  "FindGE_descend cmp sl k x nxt level prev =
     (case store_prev prev level x of Inl e \<Rightarrow> Some (Inl e)
      | Inr prev' \<Rightarrow>
        if level = 0 then Some (Inr (nxt, prev'))
        else FindGreaterOrEqual_loop cmp sl k x (level - 1) prev')"

lemma FindGE_walk:
  assumes "lpath sl i (Some x) (x # bs) None"
  shows "FindGreaterOrEqual_loop cmp sl k (Some x) (int i) prev =
         FindGE_descend cmp sl k (Some (last (x # takeWhile (before cmp sl k) bs)))
           (head_opt (dropWhile (before cmp sl k) bs)) (int i) prev"
  using assms
proof (induction bs arbitrary: x)
  case Nil
  then show ?case
    by (subst FindGreaterOrEqual_loop.simps)
      (simp add: Node_Next_link_at FindGE_descend_def)
next
  case (Cons b bs)
  from Cons.prems have lk: "link_at sl i x = Some (Some b)"
    and rest: "lpath sl i (Some b) (b # bs) None" by auto
  from rest have b: "b < length (sl_arena sl)" by (rule lpath_in_arena) simp
  show ?case
  proof (cases "before cmp sl k b")
    case True
    then show ?thesis
      using Cons.IH [OF rest] b lk
      by (subst FindGreaterOrEqual_loop.simps) (simp add: Node_Next_link_at KeyIsAfterNode_Some)
  next
    case False
    then show ?thesis
      using b lk
      by (subst FindGreaterOrEqual_loop.simps)
        (simp add: Node_Next_link_at KeyIsAfterNode_Some FindGE_descend_def)
  qed
qed

text \<open>What the search leaves in \<open>prev\<close>: at each level it visits, the node it left by.\<close>

definition fill_prev :: "('k \<Rightarrow> 'k \<Rightarrow> int) \<Rightarrow> ('k, 'r) skiplist \<Rightarrow> 'k \<Rightarrow> (nat \<Rightarrow> addr list)
    \<Rightarrow> nat \<Rightarrow> prev_array \<Rightarrow> prev_array" where
  "fill_prev cmp sl k L n prev =
     map_option (\<lambda>arr. map (\<lambda>j. if j < n then Some (Some (stop_at sl (before cmp sl k) (L j)))
                               else arr ! j) [0..<length arr]) prev"

definition prev_fits :: "nat \<Rightarrow> prev_array \<Rightarrow> bool" where
  "prev_fits n prev = (case prev of None \<Rightarrow> True | Some arr \<Rightarrow> n \<le> length arr)"

lemma store_prev_fits:
  "prev_fits (Suc i) prev \<Longrightarrow>
   store_prev prev (int i) p = Inr (map_option (\<lambda>arr. arr[i := Some p]) prev)"
  by (cases prev) (auto simp: prev_fits_def store_prev_def)

lemma fill_prev_Suc:
  "prev_fits (Suc i) prev \<Longrightarrow>
   fill_prev cmp sl k L i
     (map_option (\<lambda>arr. arr[i := Some (Some (stop_at sl (before cmp sl k) (L i)))]) prev)
   = fill_prev cmp sl k L (Suc i) prev"
  by (cases prev)
    (auto simp: fill_prev_def nth_list_update less_Suc_eq intro!: map_cong)

lemma fill_prev_0 [simp]: "fill_prev cmp sl k L 0 prev = prev"
  by (cases prev) (simp_all add: fill_prev_def map_nth)

lemma prev_fits_update [simp]:
  "prev_fits n (map_option (\<lambda>arr. arr[i := v]) prev) = prev_fits n prev"
  by (cases prev) (simp_all add: prev_fits_def)

context comparator
begin

lemma before_down_closed [simp]: "down_closed cmp sl (before cmp sl k)"
  unfolding down_closed_def using cmp_less_trans by blast

lemma FindGE_loop_correct:
  assumes ok: "sl_ok cmp sl L" and i: "i < levels"
    and x: "x = sl_head sl \<or> x \<in> set (L i) \<and> before cmp sl k x"
    and fits: "prev_fits (Suc i) prev"
  shows "FindGreaterOrEqual_loop cmp sl k (Some x) (int i) prev =
         Some (Inr (head_opt (dropWhile (before cmp sl k) (L 0)),
                    fill_prev cmp sl k L (Suc i) prev))"
  using i x fits
proof (induction i arbitrary: x prev)
  case 0
  obtain bs where bs: "lpath sl 0 (Some x) (x # bs) None"
    "last (x # takeWhile (before cmp sl k) bs) = stop_at sl (before cmp sl k) (L 0)"
    "dropWhile (before cmp sl k) bs = dropWhile (before cmp sl k) (L 0)"
    using resume [OF ok "0.prems"(1) before_down_closed "0.prems"(2)] by metis
  show ?case
    using store_prev_fits [OF "0.prems"(3)] fill_prev_Suc [OF "0.prems"(3)]
    unfolding FindGE_walk [OF bs(1)] bs(2,3) by (simp add: FindGE_descend_def)
next
  case (Suc i)
  obtain bs where bs: "lpath sl (Suc i) (Some x) (x # bs) None"
    "last (x # takeWhile (before cmp sl k) bs) = stop_at sl (before cmp sl k) (L (Suc i))"
    using resume [OF ok Suc.prems(1) before_down_closed Suc.prems(2)] by metis
  let ?s = "stop_at sl (before cmp sl k) (L (Suc i))"
  let ?prev = "map_option (\<lambda>arr. arr[Suc i := Some (Some ?s)]) prev"
  have s: "?s = sl_head sl \<or> ?s \<in> set (L i) \<and> before cmp sl k ?s"
    by (rule stop_at_below [OF ok Suc.prems(1) refl])
  have fits': "prev_fits (Suc i) ?prev"
    using Suc.prems(3) by (auto simp: prev_fits_def split: option.splits)
  have "FindGreaterOrEqual_loop cmp sl k (Some x) (int (Suc i)) prev =
        FindGreaterOrEqual_loop cmp sl k (Some ?s) (int i) ?prev"
    using store_prev_fits [OF Suc.prems(3)]
    unfolding FindGE_walk [OF bs(1)] bs(2) by (simp add: FindGE_descend_def)
  also have "\<dots> = Some (Inr (head_opt (dropWhile (before cmp sl k) (L 0)),
                    fill_prev cmp sl k L (Suc i) ?prev))"
    using Suc.IH [OF _ s fits'] Suc.prems(1) by simp
  finally show ?case using fill_prev_Suc [OF Suc.prems(3)] by simp
qed

lemma FindGE_ok:
  assumes ok: "sl_ok cmp sl L" and fits: "prev_fits levels prev"
  shows "FindGreaterOrEqual cmp sl k prev =
         Some (Inr (head_opt (dropWhile (before cmp sl k) (L 0)),
                    fill_prev cmp sl k L (nat (sl_max_height sl)) prev))"
proof -
  obtain m where m: "GetMaxHeight sl - 1 = int m" "m < levels" "Suc m = nat (sl_max_height sl)"
    by (rule top_level [OF ok])
  have "prev_fits (Suc m) prev"
    using fits m(2) by (auto simp: prev_fits_def split: option.splits)
  from FindGE_loop_correct [OF ok m(2) _ this, of "sl_head sl"]
  show ?thesis by (simp add: FindGreaterOrEqual_def m)
qed

end

section \<open>FindLast\<close>

definition FindLast_descend where
  "FindLast_descend sl x level =
     (if level = 0 then Some (Inr x) else FindLast_loop sl x (level - 1))"

lemma FindLast_walk:
  assumes "lpath sl i (Some x) (x # bs) None"
  shows "FindLast_loop sl (Some x) (int i) = FindLast_descend sl (Some (last (x # bs))) (int i)"
  using assms
proof (induction bs arbitrary: x)
  case Nil
  then show ?case
    by (subst FindLast_loop.simps) (simp add: Node_Next_link_at FindLast_descend_def)
next
  case (Cons b bs)
  from Cons.prems have "link_at sl i x = Some (Some b)"
    and "lpath sl i (Some b) (b # bs) None" by auto
  then show ?case
    using Cons.IH by (subst FindLast_loop.simps) (simp add: Node_Next_link_at)
qed

lemma takeWhile_True [simp]: "takeWhile (\<lambda>_. True) xs = xs"
  by (simp add: takeWhile_eq_all_conv)

lemma down_closed_True [simp]: "down_closed cmp sl (\<lambda>_. True)"
  by (simp add: down_closed_def)

lemma FindLast_loop_correct:
  assumes ok: "sl_ok cmp sl L" and i: "i < levels" and x: "x = sl_head sl \<or> x \<in> set (L i)"
  shows "FindLast_loop sl (Some x) (int i) = Some (Inr (Some (last (sl_head sl # L 0))))"
  using i x
proof (induction i arbitrary: x)
  case 0
  obtain bs where "lpath sl 0 (Some x) (x # bs) None"
    "last (x # takeWhile (\<lambda>_. True) bs) = stop_at sl (\<lambda>_. True) (L 0)"
    using resume [OF ok "0.prems"(1) down_closed_True] "0.prems"(2) by metis
  then show ?case
    by (simp only: FindLast_walk) (simp add: FindLast_descend_def stop_at_def)
next
  case (Suc i)
  obtain bs where bs: "lpath sl (Suc i) (Some x) (x # bs) None"
    "last (x # takeWhile (\<lambda>_. True) bs) = stop_at sl (\<lambda>_. True) (L (Suc i))"
    using resume [OF ok Suc.prems(1) down_closed_True] Suc.prems(2) by metis
  have "last (x # bs) = sl_head sl \<or> last (x # bs) \<in> set (L i)"
    using stop_at_below [OF ok Suc.prems(1), of "last (x # bs)" "\<lambda>_. True"] bs(2) by auto
  with Suc.IH Suc.prems(1) bs(1) show ?case
    by (simp only: FindLast_walk) (simp add: FindLast_descend_def)
qed

lemma FindLast_ok:
  assumes ok: "sl_ok cmp sl L"
  shows "FindLast sl = Some (Inr (Some (last (sl_head sl # L 0))))"
proof -
  obtain m where m: "GetMaxHeight sl - 1 = int m" "m < levels"
    by (rule top_level [OF ok])
  from FindLast_loop_correct [OF ok m(2), of "sl_head sl"]
  show ?thesis by (simp add: FindLast_def m)
qed

section \<open>FindLessThan\<close>

text \<open>
  The loop goes on while the next key is not greater than the target, so it stops behind
  the last key that is not greater, not behind the last smaller one.
\<close>

abbreviation not_after :: "('k \<Rightarrow> 'k \<Rightarrow> int) \<Rightarrow> ('k, 'r) skiplist \<Rightarrow> 'k \<Rightarrow> addr \<Rightarrow> bool" where
  "not_after cmp sl k a \<equiv> cmp (key_at sl a) k \<le> 0"

definition FindLT_descend where
  "FindLT_descend nd cmp sl k x level =
     (if level = 0 then Some (Inr x) else FindLessThan_loop nd cmp sl k x (level - 1))"

lemma FindLessThan_stop_Some:
  "a < length (sl_arena sl) \<Longrightarrow>
   FindLessThan_stop cmp sl k (Some a) = Inr (\<not> not_after cmp sl k a)"
  by (simp add: FindLessThan_stop_def Node_key_at not_le)

lemma FindLessThan_assert_ok:
  "a < length (sl_arena sl) \<Longrightarrow> nd \<or> a = sl_head sl \<or> before cmp sl k a \<Longrightarrow>
   FindLessThan_assert nd cmp sl k (Some a) = Inr ()"
  by (auto simp: FindLessThan_assert_def Node_key_at)

lemma FindLT_walk:
  assumes "lpath sl i (Some x) (x # bs) None"
    and "\<And>a. a \<in> set (x # takeWhile (not_after cmp sl k) bs) \<Longrightarrow>
           FindLessThan_assert nd cmp sl k (Some a) = Inr ()"
  shows "FindLessThan_loop nd cmp sl k (Some x) (int i) =
         FindLT_descend nd cmp sl k (Some (last (x # takeWhile (not_after cmp sl k) bs))) (int i)"
  using assms
proof (induction bs arbitrary: x)
  case Nil
  then show ?case
    by (subst FindLessThan_loop.simps)
      (simp add: Node_Next_link_at FindLT_descend_def FindLessThan_stop_def)
next
  case (Cons b bs)
  from Cons.prems have lk: "link_at sl i x = Some (Some b)"
    and rest: "lpath sl i (Some b) (b # bs) None" by auto
  have x: "FindLessThan_assert nd cmp sl k (Some x) = Inr ()" using Cons.prems(2) by simp
  from rest have b: "b < length (sl_arena sl)" by (rule lpath_in_arena) simp
  show ?case
  proof (cases "not_after cmp sl k b")
    case True
    then have "FindLessThan_loop nd cmp sl k (Some b) (int i) =
        FindLT_descend nd cmp sl k (Some (last (b # takeWhile (not_after cmp sl k) bs))) (int i)"
      using Cons.IH [OF rest] Cons.prems(2) by auto
    with True show ?thesis
      using b lk x
      by (subst FindLessThan_loop.simps) (simp add: Node_Next_link_at FindLessThan_stop_Some)
  next
    case False
    then show ?thesis
      using b lk x
      by (subst FindLessThan_loop.simps)
        (simp add: Node_Next_link_at FindLessThan_stop_Some FindLT_descend_def)
  qed
qed

lemma FindLT_walk_abort:
  assumes "lpath sl i (Some x) (x # bs) None" and "sl_head sl \<notin> set bs"
    and "x = sl_head sl \<or> before cmp sl k x"
    and "\<exists>e \<in> set (takeWhile (not_after cmp sl k) bs). cmp (key_at sl e) k = 0"
  shows "FindLessThan_loop False cmp sl k (Some x) (int i) = Some (Inl AssertFailed)"
  using assms
proof (induction bs arbitrary: x)
  case (Cons b bs)
  from Cons.prems have lk: "link_at sl i x = Some (Some b)"
    and rest: "lpath sl i (Some b) (b # bs) None" by auto
  have "x < length (sl_arena sl)" by (rule lpath_in_arena [OF Cons.prems(1)]) simp
  with Cons.prems(3) have x: "FindLessThan_assert False cmp sl k (Some x) = Inr ()"
    by (auto intro: FindLessThan_assert_ok)
  from rest have b: "b < length (sl_arena sl)" by (rule lpath_in_arena) simp
  from Cons.prems(4) have na: "not_after cmp sl k b" by (auto split: if_splits)
  have "FindLessThan_loop False cmp sl k (Some b) (int i) = Some (Inl AssertFailed)"
  proof (cases "before cmp sl k b")
    case True
    with Cons.prems have "\<exists>e \<in> set (takeWhile (not_after cmp sl k) bs). cmp (key_at sl e) k = 0"
      by (auto split: if_splits)
    with Cons.IH [OF rest] Cons.prems(2) True show ?thesis by auto
  next
    case False
    with Cons.prems(2) b show ?thesis
      by (subst FindLessThan_loop.simps) (auto simp: FindLessThan_assert_def Node_key_at)
  qed
  with na b lk x show ?case
    by (subst FindLessThan_loop.simps) (simp add: Node_Next_link_at FindLessThan_stop_Some)
qed simp

context comparator
begin

lemma not_after_down_closed [simp]: "down_closed cmp sl (not_after cmp sl k)"
  unfolding down_closed_def using cmp_less_le_trans less_imp_le by blast

lemma FindLT_loop_correct:
  assumes ok: "sl_ok cmp sl L" and i: "i < levels"
    and nd: "nd \<or> (\<forall>a \<in> set (L 0). cmp (key_at sl a) k \<noteq> 0)"
    and x: "x = sl_head sl \<or> x \<in> set (L i) \<and> not_after cmp sl k x"
  shows "FindLessThan_loop nd cmp sl k (Some x) (int i) =
         Some (Inr (Some (stop_at sl (not_after cmp sl k) (L 0))))"
  using i x
proof (induction i arbitrary: x)
  have asserts: "FindLessThan_assert nd cmp sl k (Some a) = Inr ()"
    if "i < levels" "x = sl_head sl \<or> x \<in> set (L i) \<and> not_after cmp sl k x"
      "set bs \<subseteq> set (L i)" "a \<in> set (x # takeWhile (not_after cmp sl k) bs)" for i x bs a
  proof (rule FindLessThan_assert_ok)
    have a: "a = sl_head sl \<or> a \<in> set (L i) \<and> not_after cmp sl k a"
      using that by (auto dest: set_takeWhileD)
    then show "a < length (sl_arena sl)" using sl_ok_arena [OF ok that(1)] by auto
    show "nd \<or> a = sl_head sl \<or> before cmp sl k a"
      using a nd sl_ok_subset0 [OF ok that(1)] by fastforce
  qed
  {
    case 0
    obtain bs where bs: "lpath sl 0 (Some x) (x # bs) None" "set bs \<subseteq> set (L 0)"
      "last (x # takeWhile (not_after cmp sl k) bs) = stop_at sl (not_after cmp sl k) (L 0)"
      using resume [OF ok "0.prems"(1) not_after_down_closed "0.prems"(2)] by metis
    show ?case
      using FindLT_walk [OF bs(1) asserts [OF "0.prems" bs(2)]] bs(3)
      by (simp add: FindLT_descend_def)
  next
    case (Suc i)
    obtain bs where bs: "lpath sl (Suc i) (Some x) (x # bs) None" "set bs \<subseteq> set (L (Suc i))"
      "last (x # takeWhile (not_after cmp sl k) bs) = stop_at sl (not_after cmp sl k) (L (Suc i))"
      using resume [OF ok Suc.prems(1) not_after_down_closed Suc.prems(2)] by metis
    show ?case
      using FindLT_walk [OF bs(1) asserts [OF Suc.prems bs(2)]] bs(3)
        Suc.IH [OF _ stop_at_below [OF ok Suc.prems(1) refl]] Suc.prems(1)
      by (simp add: FindLT_descend_def)
  }
qed

lemma stop_at_equal:
  assumes ok: "sl_ok cmp sl L" and e: "e \<in> set (L 0)" "cmp (key_at sl e) k = 0"
  shows "stop_at sl (not_after cmp sl k) (L 0) = e"
proof -
  from e(1) obtain as bs where L: "L 0 = as @ e # bs" by (auto dest: split_list)
  have srt: "sorted_wrt (key_less cmp sl) (as @ e # bs)"
    using sl_ok_sorted [OF ok levels_pos] L by simp
  have as: "not_after cmp sl k a" if "a \<in> set as" for a
    using that srt e(2) cmp_less_le_trans [of "key_at sl a" "key_at sl e" k]
    by (auto simp: sorted_wrt_append)
  have "\<not> not_after cmp sl k b" if "b \<in> set bs" for b
    using that srt e(2) cmp_flip0 [of "key_at sl e" k] cmp_flip [of "key_at sl e" "key_at sl b"]
      cmp_le_trans [of "key_at sl b" k "key_at sl e"]
    by (auto simp: sorted_wrt_append)
  then have "takeWhile (not_after cmp sl k) bs = []" by (cases bs) auto
  then show ?thesis unfolding stop_at_def L using as e(2) by (simp add: takeWhile_append_hit)
qed

lemma FindLT_loop_abort:
  assumes ok: "sl_ok cmp sl L" and i: "i < levels"
    and e: "e \<in> set (L 0)" "cmp (key_at sl e) k = 0"
    and x: "x = sl_head sl \<or> x \<in> set (L i) \<and> before cmp sl k x"
  shows "FindLessThan_loop False cmp sl k (Some x) (int i) = Some (Inl AssertFailed)"
  using i x
proof (induction i arbitrary: x)
  case 0
  have x': "x = sl_head sl \<or> x \<in> set (L 0) \<and> not_after cmp sl k x" using "0.prems"(2) by auto
  obtain bs where bs: "lpath sl 0 (Some x) (x # bs) None" "set bs \<subseteq> set (L 0)"
    "last (x # takeWhile (not_after cmp sl k) bs) = stop_at sl (not_after cmp sl k) (L 0)"
    using resume [OF ok "0.prems"(1) not_after_down_closed x'] by metis
  have "last (x # takeWhile (not_after cmp sl k) bs) = e"
    using bs(3) stop_at_equal [OF ok e] by simp
  then have "e \<in> set (x # takeWhile (not_after cmp sl k) bs)"
    using last_in_set [of "x # takeWhile (not_after cmp sl k) bs"] by simp
  moreover have "e \<noteq> x" using "0.prems"(2) e sl_ok_head [OF ok levels_pos] by auto
  ultimately have "\<exists>e \<in> set (takeWhile (not_after cmp sl k) bs). cmp (key_at sl e) k = 0"
    using e(2) by auto
  moreover have "sl_head sl \<notin> set bs" using bs(2) sl_ok_head [OF ok levels_pos] by auto
  moreover have "x = sl_head sl \<or> before cmp sl k x" using "0.prems"(2) by auto
  ultimately show ?case using FindLT_walk_abort [OF bs(1)] by simp
next
  case (Suc i)
  let ?na = "not_after cmp sl k"
  have x': "x = sl_head sl \<or> x \<in> set (L (Suc i)) \<and> ?na x" using Suc.prems(2) by auto
  obtain bs where bs: "lpath sl (Suc i) (Some x) (x # bs) None" "set bs \<subseteq> set (L (Suc i))"
    "last (x # takeWhile ?na bs) = stop_at sl ?na (L (Suc i))"
    using resume [OF ok Suc.prems(1) not_after_down_closed x'] by metis
  have nohead: "sl_head sl \<notin> set bs" using bs(2) sl_ok_head [OF ok Suc.prems(1)] by auto
  show ?case
  proof (cases "\<exists>e \<in> set (takeWhile ?na bs). cmp (key_at sl e) k = 0")
    case True
    moreover have "x = sl_head sl \<or> before cmp sl k x" using Suc.prems(2) by auto
    ultimately show ?thesis using FindLT_walk_abort [OF bs(1) nohead] by simp
  next
    case False
    let ?s = "stop_at sl ?na (L (Suc i))"
    have strict: "a = sl_head sl \<or> before cmp sl k a" if "a \<in> set (x # takeWhile ?na bs)" for a
      using that False Suc.prems(2) by (force dest: set_takeWhileD)
    have "FindLessThan_assert False cmp sl k (Some a) = Inr ()"
      if "a \<in> set (x # takeWhile ?na bs)" for a
      using strict [OF that] that bs(2) Suc.prems(2) sl_ok_arena [OF ok Suc.prems(1)]
      by (auto intro!: FindLessThan_assert_ok dest: set_takeWhileD)
    from FindLT_walk [OF bs(1) this]
    have step: "FindLessThan_loop False cmp sl k (Some x) (int (Suc i)) =
        FindLessThan_loop False cmp sl k (Some ?s) (int i)"
      using bs(3) by (simp add: FindLT_descend_def)
    have "?s \<in> set (x # takeWhile ?na bs)" unfolding bs(3) [symmetric] by (rule last_in_set) simp
    with strict stop_at_below [OF ok Suc.prems(1) refl]
    have "?s = sl_head sl \<or> ?s \<in> set (L i) \<and> before cmp sl k ?s" by blast
    with Suc.IH Suc.prems(1) step show ?thesis by simp
  qed
qed

lemma FindLessThan_ok:
  assumes ok: "sl_ok cmp sl L"
    and nd: "nd \<or> (\<forall>a \<in> set (L 0). cmp (key_at sl a) k \<noteq> 0)"
  shows "FindLessThan nd cmp sl k = Some (Inr (Some (stop_at sl (not_after cmp sl k) (L 0))))"
proof -
  obtain m where m: "GetMaxHeight sl - 1 = int m" "m < levels"
    by (rule top_level [OF ok])
  from FindLT_loop_correct [OF ok m(2) nd, of "sl_head sl"]
  show ?thesis by (simp add: FindLessThan_def m)
qed

lemma FindLessThan_abort:
  assumes ok: "sl_ok cmp sl L" and "e \<in> set (L 0)" "cmp (key_at sl e) k = 0"
  shows "FindLessThan False cmp sl k = Some (Inl AssertFailed)"
proof -
  obtain m where m: "GetMaxHeight sl - 1 = int m" "m < levels"
    by (rule top_level [OF ok])
  from FindLT_loop_abort [OF ok m(2) assms(2,3), of "sl_head sl"]
  show ?thesis by (simp add: FindLessThan_def m)
qed

end

end
