(* ===== verification/SkipListInsert.thy ===== *)
theory SkipListInsert
  imports SkipListSearch
begin

text \<open>
  Construction and insertion. \<open>insert_key\<close> is the abstract insertion into a sorted list of
  keys; the linking loop of \<open>Insert\<close> is followed store by store, and every state between
  two stores has the invariant: it represents the old keys until the first link of the new
  node is published, the new keys from then on.
\<close>

section \<open>Stores\<close>

definition set_link :: "('k, 'r) skiplist \<Rightarrow> addr \<Rightarrow> nat \<Rightarrow> ptr \<Rightarrow> ('k, 'r) skiplist" where
  "set_link sl a i p =
     sl\<lparr>sl_arena := (sl_arena sl)[a := (sl_arena sl ! a)\<lparr>node_next :=
                      (node_next (sl_arena sl ! a))[i := Some p]\<rparr>]\<rparr>"

definition slots :: "('k, 'r) skiplist \<Rightarrow> addr \<Rightarrow> nat" where
  "slots sl a = (if a < length (sl_arena sl) then length (node_next (sl_arena sl ! a)) else 0)"

lemma Node_SetNext_ok:
  "i < slots sl a \<Longrightarrow> Node_SetNext sl (Some a) (int i) p = Inr (set_link sl a i p)"
  by (auto simp: Node_SetNext_def node_at_def set_link_def slots_def split: if_splits)

lemma set_link_simps [simp]:
  "sl_head (set_link sl a i p) = sl_head sl"
  "sl_max_height (set_link sl a i p) = sl_max_height sl"
  "length (sl_arena (set_link sl a i p)) = length (sl_arena sl)"
  by (simp_all add: set_link_def)

lemma key_at_set_link [simp]: "key_at (set_link sl a i p) = key_at sl"
proof
  show "key_at (set_link sl a i p) b = key_at sl b" for b
    by (cases "a < length (sl_arena sl)"; cases "a = b")
      (simp_all add: key_at_def set_link_def list_update_beyond)
qed

lemma slots_set_link [simp]: "slots (set_link sl a i p) = slots sl"
proof
  show "slots (set_link sl a i p) b = slots sl b" for b
    by (cases "a = b") (auto simp: slots_def set_link_def nth_list_update)
qed

lemma link_at_set_link:
  "i < slots sl a \<Longrightarrow>
   link_at (set_link sl a i p) j b = (if b = a \<and> j = i then Some p else link_at sl j b)"
  by (auto simp: link_at_def set_link_def slots_def nth_list_update split: if_splits)

lemma link_at_slots: "link_at sl i a = Some q \<Longrightarrow> i < slots sl a"
  by (auto simp: link_at_def slots_def split: if_splits)

section \<open>Inserting into a sorted list\<close>

definition insert_key :: "('k \<Rightarrow> 'k \<Rightarrow> int) \<Rightarrow> 'k \<Rightarrow> 'k list \<Rightarrow> 'k list" where
  "insert_key cmp k ks =
     takeWhile (\<lambda>x. cmp x k < 0) ks @ k # dropWhile (\<lambda>x. cmp x k < 0) ks"

lemma set_insert_key [simp]: "set (insert_key cmp k ks) = insert k (set ks)"
proof -
  have "set (takeWhile (\<lambda>x. cmp x k < 0) ks) \<union> set (dropWhile (\<lambda>x. cmp x k < 0) ks) = set ks"
    by (metis set_append takeWhile_dropWhile_id)
  then show ?thesis by (auto simp: insert_key_def)
qed

definition insert_addr ::
  "('k \<Rightarrow> 'k \<Rightarrow> int) \<Rightarrow> ('k, 'r) skiplist \<Rightarrow> addr \<Rightarrow> addr list \<Rightarrow> addr list" where
  "insert_addr cmp sl n as =
     takeWhile (before cmp sl (key_at sl n)) as @ n #
     dropWhile (before cmp sl (key_at sl n)) as"

lemma map_insert_addr:
  "map (key_at sl) (insert_addr cmp sl n as) = insert_key cmp (key_at sl n) (map (key_at sl) as)"
  by (simp add: insert_addr_def insert_key_def takeWhile_map dropWhile_map comp_def)

lemma set_insert_addr [simp]: "set (insert_addr cmp sl n as) = insert n (set as)"
proof -
  let ?P = "before cmp sl (key_at sl n)"
  have "set (takeWhile ?P as) \<union> set (dropWhile ?P as) = set as"
    by (metis set_append takeWhile_dropWhile_id)
  then show ?thesis by (auto simp: insert_addr_def)
qed

context comparator
begin

lemma not_before_after: "\<not> cmp x k < 0 \<Longrightarrow> cmp x k \<noteq> 0 \<Longrightarrow> cmp k x < 0"
  using cmp_flip [of k x] by linarith

lemma sorted_insert_key:
  assumes srt: "sorted_wrt (\<lambda>x y. cmp x y < 0) ks" and fresh: "\<forall>x \<in> set ks. cmp x k \<noteq> 0"
  shows "sorted_wrt (\<lambda>x y. cmp x y < 0) (insert_key cmp k ks)"
proof -
  let ?P = "\<lambda>x. cmp x k < 0"
  have "sorted_wrt (\<lambda>x y. cmp x y < 0) (takeWhile ?P ks @ dropWhile ?P ks)" using srt by simp
  then have "sorted_wrt (\<lambda>x y. cmp x y < 0) (takeWhile ?P ks)"
    "sorted_wrt (\<lambda>x y. cmp x y < 0) (dropWhile ?P ks)"
    unfolding sorted_wrt_append by blast+
  moreover have "cmp k x < 0" if "x \<in> set (dropWhile ?P ks)" for x
  proof (rule not_before_after)
    show "\<not> cmp x k < 0"
      by (rule sorted_wrt_takeWhile_all [OF srt that]) (rule cmp_less_trans)
    show "cmp x k \<noteq> 0" using fresh that by (auto dest: set_dropWhileD)
  qed
  ultimately show ?thesis
    unfolding insert_key_def
    by (auto simp: sorted_wrt_append dest: set_takeWhileD intro: cmp_less_trans [of _ k])
qed

lemma sorted_insert_addr:
  assumes "sorted_wrt (key_less cmp sl) as" and "\<forall>a \<in> set as. cmp (key_at sl a) (key_at sl n) \<noteq> 0"
  shows "sorted_wrt (key_less cmp sl) (insert_addr cmp sl n as)"
proof -
  have "sorted_wrt (\<lambda>x y. cmp x y < 0) (map (key_at sl) (insert_addr cmp sl n as))"
    unfolding map_insert_addr using assms by (intro sorted_insert_key) (auto simp: sorted_wrt_map)
  then show ?thesis by (simp add: sorted_wrt_map)
qed

lemma sl_ok_distinct:
  assumes ok: "sl_ok cmp sl L" and i: "i < levels"
  shows "distinct (sl_head sl # L i)"
proof -
  have "distinct as" if "sorted_wrt (key_less cmp sl) as" for as
    using that by (induction as) auto
  then show ?thesis using sl_ok_sorted [OF ok i] sl_ok_head [OF ok i] by simp
qed

section \<open>Linking one level\<close>

text \<open>
  What the linking loop knows of the new node \<open>n\<close> when it comes to level \<open>i\<close>.
\<close>

definition linkable :: "('k, 'r) skiplist \<Rightarrow> (nat \<Rightarrow> addr list) \<Rightarrow> addr \<Rightarrow> nat \<Rightarrow> bool" where
  "linkable sl L n i \<longleftrightarrow>
     i < levels \<and> i < nat (sl_max_height sl) \<and> i < slots sl n \<and> n \<noteq> sl_head sl \<and>
     n \<notin> set (L i) \<and> (0 < i \<longrightarrow> n \<in> set (L (i - 1))) \<and>
     (\<forall>a \<in> set (L i). cmp (key_at sl a) (key_at sl n) \<noteq> 0)"

lemma set_own_link:
  assumes ok: "sl_ok cmp sl L" and n: "linkable sl L n i"
  shows "sl_ok cmp (set_link sl n i q) L"
proof -
  have "lpath (set_link sl n i q) j p (sl_head sl # L j) r = lpath sl j p (sl_head sl # L j) r" for j p r
    by (rule lpath_cong) (use n in \<open>auto simp: linkable_def link_at_set_link\<close>)
  then show ?thesis using ok unfolding sl_ok_def by (simp del: lpath.simps)
qed

lemma level_split:
  assumes ok: "sl_ok cmp sl L" and i: "i < levels"
  obtains as r where
    "sl_head sl # takeWhile P (L i) = as @ [stop_at sl P (L i)]"
    "lpath sl i (Some (sl_head sl)) as (Some (stop_at sl P (L i)))"
    "link_at sl i (stop_at sl P (L i)) = Some r"
    "lpath sl i r (dropWhile P (L i)) None"
proof -
  obtain as where as: "sl_head sl # takeWhile P (L i) = as @ [stop_at sl P (L i)]"
    unfolding stop_at_def using split_last_takeWhile by metis
  have "lpath sl i (Some (sl_head sl)) ((sl_head sl # takeWhile P (L i)) @ dropWhile P (L i)) None"
    using sl_ok_path [OF ok i] by simp
  then show ?thesis using that [OF as] unfolding as by (auto simp: lpath_append)
qed

lemma publish_link:
  assumes ok: "sl_ok cmp sl L" and n: "linkable sl L n i"
    and own: "link_at sl i n = link_at sl i (stop_at sl (before cmp sl (key_at sl n)) (L i))"
  shows "sl_ok cmp (set_link sl (stop_at sl (before cmp sl (key_at sl n)) (L i)) i (Some n))
           (L(i := insert_addr cmp sl n (L i)))" (is "sl_ok cmp ?sl' ?L'")
proof -
  let ?P = "before cmp sl (key_at sl n)"
  let ?p = "stop_at sl ?P (L i)"
  have i: "i < levels" using n by (simp add: linkable_def)
  obtain as r where as: "sl_head sl # takeWhile ?P (L i) = as @ [?p]"
    and path: "lpath sl i (Some (sl_head sl)) as (Some ?p)"
    and r: "link_at sl i ?p = Some r" and rest: "lpath sl i r (dropWhile ?P (L i)) None"
    by (rule level_split [OF ok i])
  have lk: "link_at ?sl' j b = (if b = ?p \<and> j = i then Some (Some n) else link_at sl j b)" for j b
    by (rule link_at_set_link [OF link_at_slots [OF r]])
  have "distinct ((as @ [?p]) @ dropWhile ?P (L i))"
    using sl_ok_distinct [OF ok i] unfolding as [symmetric] by simp
  then have p: "?p \<notin> set as" "?p \<notin> set (dropWhile ?P (L i))" by auto
  have np: "n \<noteq> ?p" using stop_at_cases [of sl ?P "L i"] n by (auto simp: linkable_def)
  have "lpath ?sl' i (Some (sl_head sl)) as (Some ?p)"
    using path p by (subst lpath_cong [of _ _ _ sl]) (auto simp: lk)
  moreover have "lpath ?sl' i r (dropWhile ?P (L i)) None"
    using rest p by (subst lpath_cong [of _ _ _ sl]) (auto simp: lk)
  moreover have "link_at ?sl' i n = Some r" using own r np by (simp add: lk)
  ultimately have "lpath ?sl' i (Some (sl_head sl)) (as @ ?p # n # dropWhile ?P (L i)) None"
    by (auto simp: lpath_append lk)
  moreover have "sl_head sl # insert_addr cmp sl n (L i) = as @ ?p # n # dropWhile ?P (L i)"
    unfolding insert_addr_def using as by (metis append.assoc append_Cons append_Nil)
  ultimately have path_i: "lpath ?sl' i (Some (sl_head sl)) (sl_head sl # insert_addr cmp sl n (L i)) None"
    by simp
  have path_j: "lpath ?sl' j (Some (sl_head sl)) (sl_head sl # L j) None" if "j \<noteq> i" "j < levels" for j
    using sl_ok_path [OF ok that(2)] that(1) by (subst lpath_cong [of _ _ _ sl]) (simp_all add: lk)
  have paths: "lpath ?sl' j (Some (sl_head sl)) (sl_head sl # ?L' j) None" if "j < levels" for j
    using path_i path_j that by (cases "j = i") simp_all
  have srt: "sorted_wrt (key_less cmp sl) (?L' j)" if "j < levels" for j
    using sorted_insert_addr [OF sl_ok_sorted [OF ok i]] sl_ok_sorted [OF ok that] n
    by (cases "j = i") (simp_all add: linkable_def)
  have sub: "set (?L' (Suc j)) \<subseteq> set (?L' j)" if "Suc j < levels" for j
    using sl_ok_subset [OF ok that] n by (auto simp: linkable_def)
  have "sl_head sl \<notin> set (?L' j)" if "j < levels" for j
    using sl_ok_head [OF ok that] n by (auto simp: linkable_def)
  moreover have "?L' j = []" if "j < levels" "nat (sl_max_height sl) \<le> j" for j
    using sl_ok_above [OF ok that] that n by (auto simp: linkable_def)
  ultimately show ?thesis
    using sl_ok_height [OF ok] paths srt sub unfolding sl_ok_def by simp
qed

lemma link_round:
  assumes ok: "sl_ok cmp sl L" and n: "linkable sl L n i"
    and prev: "load_prev prev (int i) =
      Inr (Some (stop_at sl (before cmp sl (key_at sl n)) (L i)))"
  obtains sl1 sl2 where
    "Insert_prepare sl (Some n) prev (int i) = Inr sl1" "sl_ok cmp sl1 L" "key_at sl1 = key_at sl"
    "Insert_publish sl1 (Some n) prev (int i) = Inr sl2"
    "sl_ok cmp sl2 (L(i := insert_addr cmp sl n (L i)))"
    "key_at sl2 = key_at sl" "slots sl2 = slots sl" "sl_head sl2 = sl_head sl"
    "sl_max_height sl2 = sl_max_height sl"
proof -
  let ?p = "stop_at sl (before cmp sl (key_at sl n)) (L i)"
  have i: "i < levels" "i < slots sl n" using n by (simp_all add: linkable_def)
  obtain r where r: "link_at sl i ?p = Some r" by (rule level_split [OF ok i(1)])
  let ?sl1 = "set_link sl n i r"
  have ok1: "sl_ok cmp ?sl1 L" by (rule set_own_link [OF ok n])
  have np: "?p \<noteq> n"
    using stop_at_cases [of sl "before cmp sl (key_at sl n)" "L i"] n by (auto simp: linkable_def)
  have n1: "linkable ?sl1 L n i" using n by (simp add: linkable_def)
  have p1: "stop_at ?sl1 (before cmp ?sl1 (key_at ?sl1 n)) (L i) = ?p" by (simp add: stop_at_def)
  have ins1: "insert_addr cmp ?sl1 n (L i) = insert_addr cmp sl n (L i)"
    by (simp add: insert_addr_def)
  have "sl_ok cmp (set_link ?sl1 ?p i (Some n)) (L(i := insert_addr cmp sl n (L i)))"
    using publish_link [OF ok1 n1] i r np unfolding p1 ins1 by (simp add: link_at_set_link)
  moreover have "Insert_prepare sl (Some n) prev (int i) = Inr ?sl1"
    using prev i(2) by (simp add: Insert_prepare_def Node_NoBarrier_Next_def
        Node_Next_link_at [OF r] Node_NoBarrier_SetNext_def Node_SetNext_ok)
  moreover have "Insert_publish ?sl1 (Some n) prev (int i) = Inr (set_link ?sl1 ?p i (Some n))"
    using prev link_at_slots [OF r] by (simp add: Insert_publish_def Node_SetNext_ok)
  ultimately show ?thesis using that [of ?sl1] ok1 by simp
qed

end

section \<open>The linking loop\<close>

lemma Insert_link_snoc:
  "Insert_link (Suc m) i sl x prev =
     obind (Insert_link m i sl x prev) (\<lambda>s.
     obind (Insert_prepare s x prev (i + int m)) (\<lambda>s1. Insert_publish s1 x prev (i + int m)))"
proof (induction m arbitrary: i sl)
  case 0
  show ?case by (simp add: obind_def split: sum.splits)
next
  case (Suc m)
  show ?case
    by (subst Insert_link.simps, subst Suc.IH)
      (simp add: obind_def add.assoc split: sum.splits)
qed

text \<open>\<open>ready\<close> is what \<open>Insert\<close> establishes before the loop, for a node \<open>n\<close> of height \<open>h\<close>.\<close>

definition ready ::
  "('k \<Rightarrow> 'k \<Rightarrow> int) \<Rightarrow> ('k, 'r) skiplist \<Rightarrow> (nat \<Rightarrow> addr list) \<Rightarrow> addr \<Rightarrow> nat \<Rightarrow> prev_array \<Rightarrow> bool"
where
  "ready cmp sl L n h prev \<longleftrightarrow>
     sl_ok cmp sl L \<and> h \<le> levels \<and> h \<le> nat (sl_max_height sl) \<and> h \<le> slots sl n \<and>
     n \<noteq> sl_head sl \<and> n \<notin> set (L 0) \<and>
     (\<forall>a \<in> set (L 0). cmp (key_at sl a) (key_at sl n) \<noteq> 0) \<and>
     (\<forall>j < h. load_prev prev (int j) =
        Inr (Some (stop_at sl (before cmp sl (key_at sl n)) (L j))))"

definition linked ::
  "('k \<Rightarrow> 'k \<Rightarrow> int) \<Rightarrow> ('k, 'r) skiplist \<Rightarrow> (nat \<Rightarrow> addr list) \<Rightarrow> addr \<Rightarrow> nat \<Rightarrow> nat \<Rightarrow> addr list"
where
  "linked cmp sl L n m j = (if j < m then insert_addr cmp sl n (L j) else L j)"

text \<open>What no store of the loop changes.\<close>

definition same_nodes :: "('k, 'r) skiplist \<Rightarrow> ('k, 'r) skiplist \<Rightarrow> bool" where
  "same_nodes sl s \<longleftrightarrow> key_at s = key_at sl \<and> slots s = slots sl \<and> sl_head s = sl_head sl \<and>
     sl_max_height s = sl_max_height sl"

context comparator
begin

lemma ready_linkable:
  assumes r: "ready cmp sl L n h prev" and m: "m < h"
    and ok: "sl_ok cmp s (linked cmp sl L n m)" and same: "same_nodes sl s"
  shows "linkable s (linked cmp sl L n m) n m"
proof -
  have okL: "sl_ok cmp sl L" and m': "m < levels" using r m by (auto simp: ready_def)
  have "n \<notin> set (L m)" "\<forall>a \<in> set (L m). cmp (key_at sl a) (key_at sl n) \<noteq> 0"
    using sl_ok_subset0 [OF okL m'] r by (auto simp: ready_def)
  then show ?thesis
    using r m m' same by (auto simp: linkable_def linked_def ready_def same_nodes_def)
qed

lemma linked_Suc:
  "(linked cmp sl L n m)(m := insert_addr cmp sl n (linked cmp sl L n m m)) =
   linked cmp sl L n (Suc m)"
  by (auto simp: linked_def less_Suc_eq)

lemma link_stage_round:
  assumes r: "ready cmp sl L n h prev" and m: "m < h"
    and ok: "sl_ok cmp s (linked cmp sl L n m)" and same: "same_nodes sl s"
  obtains s1 s2 where
    "Insert_prepare s (Some n) prev (int m) = Inr s1" "sl_ok cmp s1 (linked cmp sl L n m)"
    "key_at s1 = key_at sl"
    "Insert_publish s1 (Some n) prev (int m) = Inr s2"
    "sl_ok cmp s2 (linked cmp sl L n (Suc m))" "same_nodes sl s2"
proof -
  have p: "stop_at s (before cmp s (key_at s n)) (linked cmp sl L n m m) =
    stop_at sl (before cmp sl (key_at sl n)) (L m)"
    using same by (simp add: stop_at_def same_nodes_def linked_def)
  have ins: "insert_addr cmp s n = insert_addr cmp sl n"
    using same by (simp add: insert_addr_def same_nodes_def fun_eq_iff)
  have prev: "load_prev prev (int m) =
    Inr (Some (stop_at s (before cmp s (key_at s n)) (linked cmp sl L n m m)))"
    unfolding p using r m by (auto simp: ready_def)
  show ?thesis
  proof (rule link_round [OF ok ready_linkable [OF r m ok same] prev], goal_cases)
    case (1 s1 s2)
    then show ?case using that [of s1 s2] same by (simp add: same_nodes_def ins linked_Suc)
  qed
qed

lemma link_stage:
  assumes r: "ready cmp sl L n h prev" and m: "m \<le> h"
  shows "\<exists>s. Insert_link m 0 sl (Some n) prev = Inr s \<and>
    sl_ok cmp s (linked cmp sl L n m) \<and> same_nodes sl s"
  using m
proof (induction m)
  case 0
  have "linked cmp sl L n 0 = L" by (simp add: linked_def fun_eq_iff)
  with r show ?case by (simp add: ready_def same_nodes_def)
next
  case (Suc m)
  then obtain s where s: "Insert_link m 0 sl (Some n) prev = Inr s"
    "sl_ok cmp s (linked cmp sl L n m)" "same_nodes sl s" by auto
  from Suc.prems have "m < h" by simp
  from link_stage_round [OF r this s(2,3)] show ?case
    by (simp add: Insert_link_snoc s(1) del: Insert_link.simps) (metis obind_simps(2))
qed

text \<open>The keys a state of the loop represents.\<close>

lemma linked_keys:
  assumes "ready cmp sl L n h prev" and "key_at s = key_at sl"
    and "sl_ok cmp s (linked cmp sl L n m)"
  shows "sl_rep cmp s (if m = 0 then map (key_at sl) (L 0)
                       else insert_key cmp (key_at sl n) (map (key_at sl) (L 0)))"
  using assms unfolding sl_rep_def
  by (intro exI [of _ "linked cmp sl L n m"]) (auto simp: linked_def map_insert_addr)

end

section \<open>Before the loop\<close>

lemma RandomHeight_loop_bounds:
  "height \<le> kMaxHeight \<Longrightarrow> RandomHeight_loop rn height r = (h, r') \<Longrightarrow>
   height \<le> h \<and> h \<le> kMaxHeight"
proof (induction rn height r arbitrary: h r' rule: RandomHeight_loop.induct)
  case (1 rn height r)
  show ?case
  proof (cases "height < kMaxHeight")
    case False
    with "1.prems" show ?thesis by (simp add: RandomHeight_loop.simps)
  next
    case True
    obtain v r1 where v: "rn r = (v, r1)" by (cases "rn r")
    from "1.prems" True v show ?thesis
      using "1.IH" [OF True v [symmetric], of h r']
      by (subst (asm) RandomHeight_loop.simps) (auto split: if_splits)
  qed
qed

lemma RandomHeight_ok:
  obtains h r where "RandomHeight rn sl = Inr (h, sl\<lparr>sl_rnd := r\<rparr>)" "1 \<le> h" "h \<le> kMaxHeight"
proof -
  obtain h r where hr: "RandomHeight_loop rn 1 (sl_rnd sl) = (h, r)" by fastforce
  have "1 \<le> h" "h \<le> kMaxHeight"
    using RandomHeight_loop_bounds [OF _ hr] by (simp_all add: kMaxHeight_def)
  with hr that [of h r] show ?thesis by (simp add: RandomHeight_def)
qed

context comparator
begin

lemma sl_ok_cong:
  assumes "sl_arena sl' = sl_arena sl" and "sl_head sl' = sl_head sl"
    and "sl_max_height sl \<le> sl_max_height sl'" and "sl_max_height sl' \<le> kMaxHeight"
    and ok: "sl_ok cmp sl L"
  shows "sl_ok cmp sl' L"
proof -
  have lk: "link_at sl' = link_at sl" and key: "key_at sl' = key_at sl"
    using assms(1) by (simp_all add: fun_eq_iff link_at_def key_at_def)
  have path: "lpath sl' i p as q = lpath sl i p as q" for i p as q
    by (rule lpath_cong) (simp add: lk)
  have "L i = []" if "i < levels" "nat (sl_max_height sl') \<le> i" for i
    using sl_ok_above [OF ok that(1)] that(2) assms(3) by linarith
  then show ?thesis
    using ok assms(2-4) unfolding sl_ok_def by (simp add: path key del: lpath.simps)
qed

lemma NewNode_keeps:
  assumes ok: "sl_ok cmp sl L" and new: "NewNode sl k h = (x, sl')"
  defines "n \<equiv> length (sl_arena sl)"
  shows "x = Some n" and "sl_ok cmp sl' L" and "key_at sl' n = k" and "slots sl' n = nat h"
    and "sl_head sl' = sl_head sl" and "sl_max_height sl' = sl_max_height sl"
    and "\<And>a. a < n \<Longrightarrow> key_at sl' a = key_at sl a"
proof -
  from new show x: "x = Some n" and "key_at sl' n = k" and "slots sl' n = nat h"
    and hd: "sl_head sl' = sl_head sl" and mh: "sl_max_height sl' = sl_max_height sl"
    by (auto simp: NewNode_def n_def key_at_def slots_def)
  from new show key: "key_at sl' a = key_at sl a" if "a < n" for a
    using that by (auto simp: NewNode_def n_def key_at_def nth_append)
  have lk: "link_at sl' i a = link_at sl i a" if "a < n" for i a
    using that new by (auto simp: NewNode_def n_def link_at_def nth_append)
  have path: "lpath sl' i p (sl_head sl # L i) q = lpath sl i p (sl_head sl # L i) q"
    if "i < levels" for i p q
    by (rule lpath_cong) (use lk sl_ok_arena [OF ok that] in \<open>auto simp: n_def\<close>)
  have srt: "sorted_wrt (key_less cmp sl') (L i)" if "i < levels" for i
    by (rule sorted_wrt_mono_rel [OF _ sl_ok_sorted [OF ok that]])
      (use key sl_ok_arena [OF ok that] in \<open>simp add: n_def\<close>)
  show "sl_ok cmp sl' L"
    using ok srt unfolding sl_ok_def hd mh by (simp add: path del: lpath.simps)
qed

lemma Insert_raise_ok:
  "i + m \<le> length arr \<Longrightarrow>
   Insert_raise m (int i) h (Some arr) =
     Inr (Some (map (\<lambda>j. if i \<le> j \<and> j < i + m then Some h else arr ! j) [0..<length arr]))"
proof (induction m arbitrary: i arr)
  case 0
  have "map (\<lambda>j. if i \<le> j \<and> j < i + 0 then Some h else arr ! j) [0..<length arr] =
    map ((!) arr) [0..<length arr]" by (rule map_cong) auto
  then show ?case by (simp only: map_nth Insert_raise.simps)
next
  case (Suc m)
  have "store_prev (Some arr) (int i) h = Inr (Some (arr[i := Some h]))"
    using Suc.prems by (simp add: store_prev_def)
  moreover have "Insert_raise m (int (Suc i)) h (Some (arr[i := Some h])) =
      Inr (Some (map (\<lambda>j. if Suc i \<le> j \<and> j < Suc i + m then Some h else (arr[i := Some h]) ! j)
        [0..<length arr]))"
    using Suc.IH [of "Suc i" "arr[i := Some h]"] Suc.prems by simp
  moreover have "map (\<lambda>j. if Suc i \<le> j \<and> j < Suc i + m then Some h else (arr[i := Some h]) ! j)
        [0..<length arr] =
      map (\<lambda>j. if i \<le> j \<and> j < i + Suc m then Some h else arr ! j) [0..<length arr]"
    by (rule map_cong) (auto simp: nth_list_update)
  ultimately show ?case by (simp add: add.commute)
qed

end

text \<open>The array of predecessors the loop runs with, after the new top levels are filled in.\<close>

definition raised :: "('k, 'r) skiplist \<Rightarrow> int \<Rightarrow> ptr option list \<Rightarrow> ptr option list" where
  "raised sl h arr =
     map (\<lambda>j. if nat (sl_max_height sl) \<le> j \<and> j < nat h then Some (Some (sl_head sl)) else arr ! j)
       [0..<length arr]"

context comparator
begin

lemma raise_step:
  assumes "length arr = levels" and "1 \<le> sl_max_height sl" and "h \<le> kMaxHeight"
  shows "(if h > GetMaxHeight sl
          then obind (Insert_raise (nat (h - GetMaxHeight sl)) (GetMaxHeight sl)
                        (Some (sl_head sl)) (Some arr))
                 (\<lambda>prev'. Inr (prev', sl\<lparr>sl_max_height := h\<rparr>))
          else Inr (Some arr, sl)) =
         Inr (Some (raised sl h arr), sl\<lparr>sl_max_height := max h (sl_max_height sl)\<rparr>)"
proof (cases "h > sl_max_height sl")
  case True
  then have "nat (sl_max_height sl) + nat (h - sl_max_height sl) = nat h" using assms(2) by simp
  moreover have "nat h \<le> levels" using assms(3) by (rule nat_mono)
  ultimately have "Insert_raise (nat (h - sl_max_height sl)) (int (nat (sl_max_height sl)))
      (Some (sl_head sl)) (Some arr) = Inr (Some (raised sl h arr))"
    using assms(1) Insert_raise_ok [of "nat (sl_max_height sl)" "nat (h - sl_max_height sl)" arr]
    by (simp only: raised_def)
  with True assms(2) show ?thesis by (simp add: GetMaxHeight_def)
next
  case False
  then have "raised sl h arr = map ((!) arr) [0..<length arr]"
    unfolding raised_def by (intro map_cong) auto
  with False show ?thesis by (simp add: map_nth GetMaxHeight_def max_def)
qed

lemma prev_ready:
  assumes ok: "sl_ok cmp sl L" and h: "h \<le> kMaxHeight" and j: "j < nat h"
    and arr: "fill_prev cmp sl k L (nat (sl_max_height sl)) (Some (replicate levels None)) = Some arr"
  shows "load_prev (Some (raised sl h arr)) (int j) =
         Inr (Some (stop_at sl (before cmp sl k) (L j)))"
proof -
  let ?m = "nat (sl_max_height sl)"
  have jl: "j < levels" using j nat_mono [OF h] by simp
  have len: "length arr = levels" using arr by (auto simp: fill_prev_def)
  have "L j = []" if "?m \<le> j" using sl_ok_above [OF ok jl that] .
  then have "stop_at sl (before cmp sl k) (L j) = sl_head sl" if "?m \<le> j"
    using that by (simp add: stop_at_def)
  moreover have "arr ! j = Some (Some (stop_at sl (before cmp sl k) (L j)))" if "j < ?m"
    using that jl arr by (auto simp: fill_prev_def)
  ultimately show ?thesis using j jl len by (cases "?m \<le> j") (simp_all add: load_prev_def raised_def)
qed

lemma Insert_assert_ok:
  assumes ok: "sl_ok cmp sl L" and fresh: "\<forall>a \<in> set (L 0). cmp (key_at sl a) k \<noteq> 0"
  shows "Insert_assert nd cmp sl k (head_opt (dropWhile P (L 0))) = Inr ()"
proof (cases "head_opt (dropWhile P (L 0))")
  case None
  then show ?thesis by (simp add: Insert_assert_def)
next
  case (Some a)
  then have a: "a \<in> set (L 0)" by (auto dest!: head_opt_SomeD set_dropWhileD)
  with fresh have "cmp k (key_at sl a) \<noteq> 0" using cmp_flip0 by auto
  then show ?thesis
    using Some sl_ok_arena [OF ok levels_pos, of a] a
    by (simp add: Insert_assert_def Node_key_at Equal_def)
qed

lemma NewNode_ready:
  assumes ok: "sl_ok cmp sl L" and fresh: "\<forall>a \<in> set (L 0). cmp (key_at sl a) k \<noteq> 0"
    and h: "h \<le> kMaxHeight" "h \<le> sl_max_height sl" and new: "NewNode sl k h = (x, s)"
    and prev: "\<forall>j < nat h. load_prev prev (int j) =
                 Inr (Some (stop_at sl (before cmp sl k) (L j)))"
  shows "ready cmp s L (length (sl_arena sl)) (nat h) prev"
    and "map (key_at s) (L 0) = map (key_at sl) (L 0)"
proof -
  let ?n = "length (sl_arena sl)"
  note keep = NewNode_keeps [OF ok new]
  have inL: "a < ?n" if "a \<in> set (sl_head sl # L j)" "j < levels" for a j
    using sl_ok_arena [OF ok that(2,1)] .
  have stop: "stop_at s (before cmp s k) (L j) = stop_at sl (before cmp sl k) (L j)"
    if "j < levels" for j
  proof -
    have "takeWhile (before cmp s k) (L j) = takeWhile (before cmp sl k) (L j)"
      by (rule takeWhile_cong) (use inL [OF _ that] keep(7) in simp_all)
    then show ?thesis by (simp add: stop_at_def keep(5))
  qed
  show "map (key_at s) (L 0) = map (key_at sl) (L 0)"
    using inL [OF _ levels_pos] keep(7) by simp
  have h': "nat h \<le> levels" using h(1) by (rule nat_mono)
  have "cmp (key_at s a) (key_at s ?n) \<noteq> 0" if "a \<in> set (L 0)" for a
    using fresh that keep(3) keep(7) [of a] inL [OF _ levels_pos, of a] by simp
  moreover have "?n \<noteq> sl_head s" "?n \<notin> set (L 0)"
    using inL [OF _ levels_pos, of ?n] keep(5) by auto
  ultimately show "ready cmp s L ?n (nat h) prev"
    unfolding ready_def using keep(2,3,4,6) h' nat_mono [OF h(2)] prev stop by simp
qed

lemma Insert_begin_ok:
  assumes ok: "sl_ok cmp sl L" and fresh: "\<forall>a \<in> set (L 0). cmp (key_at sl a) k \<noteq> 0"
  obtains n prev h s where
    "Insert_begin nd cmp rn sl k = Some (Inr (Some n, prev, int h, s))"
    "ready cmp s L n h prev" "1 \<le> h" "key_at s n = k"
    "map (key_at s) (L 0) = map (key_at sl) (L 0)" "sl_head s = sl_head sl"
proof -
  obtain h r where hr: "RandomHeight rn sl = Inr (h, sl\<lparr>sl_rnd := r\<rparr>)" "1 \<le> h" "h \<le> kMaxHeight"
    by (rule RandomHeight_ok)
  obtain arr where arr: "fill_prev cmp sl k L (nat (sl_max_height sl)) (Some (replicate levels None))
      = Some arr" by (simp add: fill_prev_def)
  then have len: "length arr = levels" by (auto simp: fill_prev_def)
  let ?s1 = "sl\<lparr>sl_rnd := r\<rparr>"
  let ?s2 = "?s1\<lparr>sl_max_height := max h (sl_max_height ?s1)\<rparr>"
  obtain x s where new: "NewNode ?s2 k h = (x, s)" by fastforce
  have mh: "1 \<le> sl_max_height sl" "sl_max_height sl \<le> kMaxHeight" using sl_ok_height [OF ok] by auto
  have ok2: "sl_ok cmp ?s2 L" by (rule sl_ok_cong [OF _ _ _ _ ok]) (use hr mh in auto)
  have key2: "key_at ?s2 = key_at sl" by (simp add: key_at_def fun_eq_iff)
  have fits: "prev_fits levels (Some (replicate levels None))" by (simp add: prev_fits_def)
  have "raised ?s1 h arr = raised sl h arr" by (simp add: raised_def)
  then have "Insert_begin nd cmp rn sl k = Some (Inr (x, Some (raised sl h arr), h, s))"
    unfolding Insert_begin_def FindGE_ok [OF ok fits] arr
    using raise_step [of arr ?s1 h] len mh hr(3) new
    by (simp add: Insert_assert_ok [OF ok fresh] hr(1))
  moreover have "stop_at ?s2 (before cmp ?s2 k) = stop_at sl (before cmp sl k)"
    by (simp add: stop_at_def fun_eq_iff key_at_def)
  then have "\<forall>j < nat h. load_prev (Some (raised sl h arr)) (int j) =
      Inr (Some (stop_at ?s2 (before cmp ?s2 k) (L j)))"
    using prev_ready [OF ok hr(3) _ arr] by simp
  moreover have "\<forall>a \<in> set (L 0). cmp (key_at ?s2 a) k \<noteq> 0" using fresh key2 by simp
  ultimately show ?thesis
    using that [of "length (sl_arena ?s2)" "Some (raised sl h arr)" "nat h" s]
      NewNode_ready [OF ok2 _ hr(3) _ new] NewNode_keeps [OF ok2 new] hr(2) key2 by simp
qed

end

section \<open>The constructor\<close>

lemma clear_head_ok:
  "sl_arena sl = [\<lparr>node_key = k, node_next = ls\<rparr>] \<Longrightarrow> sl_head sl = 0 \<Longrightarrow> i + m \<le> length ls \<Longrightarrow>
   SkipList_clear_head m (int i) sl =
     Inr (sl\<lparr>sl_arena := [\<lparr>node_key = k,
       node_next = map (\<lambda>j. if i \<le> j \<and> j < i + m then Some None else ls ! j) [0..<length ls]\<rparr>]\<rparr>)"
proof (induction m arbitrary: i sl ls)
  case 0
  have "map (\<lambda>j. if i \<le> j \<and> j < i + 0 then Some None else ls ! j) [0..<length ls] =
    map ((!) ls) [0..<length ls]" by (rule map_cong) auto
  with 0 show ?case by (simp only: map_nth SkipList_clear_head.simps) (cases sl, simp)
next
  case (Suc m)
  have "Node_SetNext sl (Some (sl_head sl)) (int i) None = Inr (set_link sl 0 i None)"
    using Suc.prems by (subst Node_SetNext_ok) (auto simp: slots_def)
  moreover have "set_link sl 0 i None =
      sl\<lparr>sl_arena := [\<lparr>node_key = k, node_next = ls[i := Some None]\<rparr>]\<rparr>"
    using Suc.prems by (simp add: set_link_def)
  moreover have "map (\<lambda>j. if Suc i \<le> j \<and> j < Suc i + m then Some None else ls[i := Some None] ! j)
        [0..<length ls] =
      map (\<lambda>j. if i \<le> j \<and> j < i + Suc m then Some None else ls ! j) [0..<length ls]"
    by (rule map_cong) (auto simp: nth_list_update)
  ultimately show ?case
    using Suc.IH [of "sl\<lparr>sl_arena := [\<lparr>node_key = k, node_next = ls[i := Some None]\<rparr>]\<rparr>" _ "Suc i"]
      Suc.prems by (simp add: add.commute)
qed

lemma SkipList_ok:
  obtains sl where "SkipList k seed = Inr sl" "sl_ok cmp sl (\<lambda>_. [])"
proof -
  let ?sl = "\<lparr>sl_arena = [\<lparr>node_key = k, node_next = replicate levels (Some None)\<rparr>],
    sl_head = 0, sl_max_height = 1, sl_rnd = seed\<rparr>"
  have "map (\<lambda>j. if 0 \<le> j \<and> j < 0 + levels then Some None else replicate levels None ! j)
      [0..<length (replicate levels (None :: ptr option))] =
    map (\<lambda>_. Some None) [0..<levels]" by (rule map_cong) auto
  then have "map (\<lambda>j. if 0 \<le> j \<and> j < 0 + levels then Some None else replicate levels None ! j)
      [0..<length (replicate levels (None :: ptr option))] = replicate levels (Some None)"
    by (simp add: map_replicate_const)
  then have "SkipList k seed = Inr ?sl"
    using clear_head_ok [of "\<lparr>sl_arena = [\<lparr>node_key = k, node_next = replicate levels None\<rparr>],
      sl_head = 0, sl_max_height = 1, sl_rnd = seed\<rparr>" k "replicate levels None" 0 levels]
    by (simp add: SkipList_def NewNode_def)
  moreover have "sl_ok cmp ?sl (\<lambda>_. [])"
    unfolding sl_ok_def by (simp add: link_at_def) (simp add: kMaxHeight_def)
  ultimately show ?thesis using that by blast
qed

lemma SkipList_rep: "\<exists>sl. SkipList k seed = Inr sl \<and> sl_rep cmp sl []"
proof -
  obtain sl where "SkipList k seed = Inr sl" "sl_ok cmp sl (\<lambda>_. [])"
    by (rule SkipList_ok)
  then show ?thesis unfolding sl_rep_def by (intro exI conjI) auto
qed

end
