(* ===== verification/SkipListSpec.thy ===== *)
theory SkipListSpec
  imports SkipListInsert
begin

text \<open>
  What the skip list promises, over the abstraction \<open>sl_rep\<close> alone: the interface
  \<open>ordered_index\<close> its client \<open>MemTable\<close> relies on, its discharge by the skip list's
  operations, and the properties of the operations one by one.
\<close>

section \<open>The interface of an ordered index\<close>

text \<open>
  An insert-only sorted index. \<open>rep s ks\<close>: the state \<open>s\<close> holds exactly the keys \<open>ks\<close>, in
  this order.
\<close>

fun insert_all :: "('s \<Rightarrow> 'k \<Rightarrow> 's run) \<Rightarrow> 's \<Rightarrow> 'k list \<Rightarrow> 's run" where
  "insert_all ins s [] = Some (Inr s)"
| "insert_all ins s (k # ks) = rbind (ins s k) (\<lambda>s'. insert_all ins s' ks)"

locale ordered_index = comparator cmp for cmp :: "'k \<Rightarrow> 'k \<Rightarrow> int" +
  fixes rep :: "'s \<Rightarrow> 'k list \<Rightarrow> bool"
    and ins :: "'s \<Rightarrow> 'k \<Rightarrow> 's run"
    and has :: "'s \<Rightarrow> 'k \<Rightarrow> bool run"
  assumes rep_sorted: "rep s ks \<Longrightarrow> sorted_wrt (\<lambda>x y. cmp x y < 0) ks"
    and ins_rep: "rep s ks \<Longrightarrow> \<forall>x \<in> set ks. cmp x k \<noteq> 0 \<Longrightarrow>
      \<exists>s'. ins s k = Some (Inr s') \<and> rep s' (insert_key cmp k ks)"
    and has_rep: "rep s ks \<Longrightarrow> has s k = Some (Inr (\<exists>x \<in> set ks. cmp x k = 0))"
begin

text \<open>Any keys, in any order, as long as no two of them compare equal.\<close>

lemma insert_all_rep:
  assumes "rep s ks" and "\<forall>x \<in> set new. \<forall>y \<in> set ks. cmp y x \<noteq> 0"
    and "sorted_wrt (\<lambda>x y. cmp x y \<noteq> 0) new"
  shows "\<exists>s' ks'. insert_all ins s new = Some (Inr s') \<and> rep s' ks' \<and>
           set ks' = set ks \<union> set new \<and> sorted_wrt (\<lambda>x y. cmp x y < 0) ks'"
  using assms
proof (induction new arbitrary: s ks)
  case Nil
  then show ?case using rep_sorted by auto
next
  case (Cons k new)
  obtain s1 where s1: "ins s k = Some (Inr s1)" "rep s1 (insert_key cmp k ks)"
    using ins_rep [OF Cons.prems(1), of k] Cons.prems(2) by auto
  have "\<forall>x \<in> set new. \<forall>y \<in> set (insert_key cmp k ks). cmp y x \<noteq> 0"
    using Cons.prems(2,3) by auto
  from Cons.IH [OF s1(2) this] Cons.prems(3) s1(1) show ?case by auto
qed

lemma has_insert_all:
  assumes "rep s ks" and "\<forall>x \<in> set new. \<forall>y \<in> set ks. cmp y x \<noteq> 0"
    and "sorted_wrt (\<lambda>x y. cmp x y \<noteq> 0) new" and "insert_all ins s new = Some (Inr s')"
  shows "has s' k = Some (Inr (\<exists>x \<in> set ks \<union> set new. cmp x k = 0))"
  using insert_all_rep [OF assms(1-3)] assms(4) has_rep by fastforce

end

section \<open>The skip list provides it\<close>

lemma sl_rep_key:
  assumes "sl_ok cmp sl L" and "map (key_at sl) (L 0) = ks" and "a \<in> set (L 0)"
  shows "Node_key sl (Some a) = Inr (key_at sl a)" and "key_at sl a \<in> set ks"
  using sl_ok_arena [OF assms(1) levels_pos] assms(2,3) by (auto simp: Node_key_at)

context comparator
begin

lemma Insert_stages:
  assumes rep: "sl_rep cmp sl ks" and fresh: "\<forall>x \<in> set ks. cmp x k \<noteq> 0"
  obtains x prev h s where
    "Insert_begin nd cmp rn sl k = Some (Inr (x, prev, int h, s))" "1 \<le> h"
    "\<And>m. m \<le> h \<Longrightarrow> \<exists>s1. Insert_link m 0 s x prev = Inr s1 \<and>
       sl_rep cmp s1 (if m = 0 then ks else insert_key cmp k ks) \<and>
       (m < h \<longrightarrow> (\<exists>s2. Insert_prepare s1 x prev (int m) = Inr s2 \<and>
          sl_rep cmp s2 (if m = 0 then ks else insert_key cmp k ks)))"
proof -
  obtain L where ok: "sl_ok cmp sl L" and ks: "map (key_at sl) (L 0) = ks"
    using rep by (auto simp: sl_rep_def)
  have "\<forall>a \<in> set (L 0). cmp (key_at sl a) k \<noteq> 0" using fresh ks by auto
  from Insert_begin_ok [OF ok this, of nd rn]
  obtain n prev h s where beg: "Insert_begin nd cmp rn sl k = Some (Inr (Some n, prev, int h, s))"
    and r: "ready cmp s L n h prev" and h: "1 \<le> h" and k: "key_at s n = k"
    and ks': "map (key_at s) (L 0) = ks"
    using ks by metis
  show ?thesis
  proof (rule that [OF beg h])
    fix m assume m: "m \<le> h"
    obtain s1 where s1: "Insert_link m 0 s (Some n) prev = Inr s1"
      "sl_ok cmp s1 (linked cmp s L n m)" "same_nodes s s1"
      using link_stage [OF r m] by auto
    have keys: "sl_rep cmp t (if m = 0 then ks else insert_key cmp k ks)"
      if "key_at t = key_at s" "sl_ok cmp t (linked cmp s L n m)" for t
      using linked_keys [OF r that] unfolding k ks' .
    have "\<exists>s2. Insert_prepare s1 (Some n) prev (int m) = Inr s2 \<and>
        sl_rep cmp s2 (if m = 0 then ks else insert_key cmp k ks)" if "m < h"
      using link_stage_round [OF r that s1(2,3)] keys by metis
    then show "\<exists>s1. Insert_link m 0 s (Some n) prev = Inr s1 \<and>
       sl_rep cmp s1 (if m = 0 then ks else insert_key cmp k ks) \<and>
       (m < h \<longrightarrow> (\<exists>s2. Insert_prepare s1 (Some n) prev (int m) = Inr s2 \<and>
          sl_rep cmp s2 (if m = 0 then ks else insert_key cmp k ks)))"
      using s1 keys [of s1] by (auto simp: same_nodes_def)
  qed
qed

lemma Insert_rep:
  assumes "sl_rep cmp sl ks" and "\<forall>x \<in> set ks. cmp x k \<noteq> 0"
  shows "\<exists>sl'. Insert nd cmp rn sl k = Some (Inr sl') \<and> sl_rep cmp sl' (insert_key cmp k ks)"
proof (rule Insert_stages [OF assms, of nd rn])
  fix x prev h s
  assume beg: "Insert_begin nd cmp rn sl k = Some (Inr (x, prev, int h, s))" and h: "1 \<le> h"
    and st: "\<And>m. m \<le> h \<Longrightarrow> \<exists>s1. Insert_link m 0 s x prev = Inr s1 \<and>
       sl_rep cmp s1 (if m = 0 then ks else insert_key cmp k ks) \<and>
       (m < h \<longrightarrow> (\<exists>s2. Insert_prepare s1 x prev (int m) = Inr s2 \<and>
          sl_rep cmp s2 (if m = 0 then ks else insert_key cmp k ks)))"
  from st [of h] h beg show ?thesis by (auto simp: Insert_def)
qed

lemma first_not_before:
  assumes ok: "sl_ok cmp sl L" and ks: "map (key_at sl) (L 0) = ks"
  shows "head_opt (map (key_at sl) (dropWhile (before cmp sl k) (L 0))) =
         head_opt (dropWhile (\<lambda>x. cmp x k < 0) ks)"
  unfolding ks [symmetric] by (simp add: dropWhile_map comp_def)

lemma Contains_rep:
  assumes rep: "sl_rep cmp sl ks"
  shows "Contains cmp sl k = Some (Inr (\<exists>x \<in> set ks. cmp x k = 0))"
proof -
  obtain L where ok: "sl_ok cmp sl L" and ks: "map (key_at sl) (L 0) = ks"
    using rep by (auto simp: sl_rep_def)
  have ge: "FindGreaterOrEqual cmp sl k None =
      Some (Inr (head_opt (dropWhile (before cmp sl k) (L 0)), None))"
    using FindGE_ok [OF ok, of None k] by (simp add: prev_fits_def fill_prev_def)
  have srt: "sorted_wrt (key_less cmp sl) (L 0)" by (rule sl_ok_sorted [OF ok levels_pos])
  have tw: "cmp (key_at sl a) k \<noteq> 0" if "a \<in> set (takeWhile (before cmp sl k) (L 0))" for a
    using set_takeWhileD [OF that] by simp
  have split: "set (L 0) = set (takeWhile (before cmp sl k) (L 0)) \<union>
      set (dropWhile (before cmp sl k) (L 0))"
    by (metis set_append takeWhile_dropWhile_id)
  show ?thesis
  proof (cases "dropWhile (before cmp sl k) (L 0)")
    case Nil
    with tw split ks ge show ?thesis by (auto simp: Contains_def)
  next
    case (Cons a as)
    then have a: "a \<in> set (L 0)" by (auto simp: split)
    have "\<not> before cmp sl k a" using Cons by (simp add: dropWhile_eq_Cons_conv)
    moreover have "sorted_wrt (key_less cmp sl) (a # as)"
      using srt Cons by (metis sorted_wrt_append takeWhile_dropWhile_id)
    ultimately have "cmp (key_at sl b) k \<noteq> 0" if "b \<in> set as" for b
      using that cmp_less_le_trans [of "key_at sl a" "key_at sl b" k] by auto
    then have "(\<exists>x \<in> set ks. cmp x k = 0) \<longleftrightarrow> cmp (key_at sl a) k = 0"
      using tw split a Cons by (auto simp: ks [symmetric])
    then show ?thesis
      using Cons sl_rep_key [OF ok ks a] by (simp add: Contains_def ge Equal_def cmp_flip0 [of k])
  qed
qed

lemma sl_rep_sorted: "sl_rep cmp sl ks \<Longrightarrow> sorted_wrt (\<lambda>x y. cmp x y < 0) ks"
  by (auto simp: sl_rep_def sorted_wrt_map dest: sl_ok_sorted [OF _ levels_pos])

end

sublocale comparator \<subseteq> skiplist: ordered_index cmp "sl_rep cmp" "Insert nd cmp rn" "Contains cmp"
  for nd rn
  by unfold_locales (erule sl_rep_sorted, erule (1) Insert_rep, erule Contains_rep)

section \<open>Positions of an iterator\<close>

text \<open>
  \<open>iter_at cmp sl ks i node\<close>: the iterator stands on the \<open>i\<close>-th key of \<open>ks\<close>, or is invalid
  when \<open>i\<close> is the number of keys.
\<close>

definition iter_at ::
  "('k \<Rightarrow> 'k \<Rightarrow> int) \<Rightarrow> ('k, 'r) skiplist \<Rightarrow> 'k list \<Rightarrow> nat \<Rightarrow> ptr \<Rightarrow> bool" where
  "iter_at cmp sl ks i node \<longleftrightarrow>
     (\<exists>L. sl_ok cmp sl L \<and> map (key_at sl) (L 0) = ks \<and> i \<le> length ks \<and>
          node = (if i < length ks then Some (L 0 ! i) else None))"

text \<open>The loop every user of an iterator runs: \<open>for (; iter->Valid(); iter->Next())\<close>.\<close>

partial_function (option) scan :: "('k, 'r) skiplist \<Rightarrow> ptr \<Rightarrow> 'k list \<Rightarrow> 'k list run" where
  "scan sl node acc =
     (if Iterator_Valid node
      then (case Iterator_key sl node of Inl e \<Rightarrow> Some (Inl e)
            | Inr k \<Rightarrow> (case Iterator_Next sl node of Inl e \<Rightarrow> Some (Inl e)
                       | Inr node' \<Rightarrow> scan sl node' (acc @ [k])))
      else Some (Inr acc))"

lemma lpath_link_nth:
  "lpath sl i p as None \<Longrightarrow> j < length as \<Longrightarrow>
   link_at sl i (as ! j) = Some (if Suc j < length as then Some (as ! Suc j) else None)"
proof (induction as arbitrary: p j)
  case (Cons a as)
  from Cons.prems(1) obtain r where r: "link_at sl i a = Some r" "lpath sl i r as None" by auto
  show ?case
  proof (cases j)
    case 0
    with r lpath_start [OF r(2)] show ?thesis by (cases as) auto
  next
    case (Suc j')
    with Cons.IH [OF r(2), of j'] Cons.prems(2) show ?thesis by simp
  qed
qed simp

lemma iter_at_step:
  assumes "iter_at cmp sl ks i node" and "i < length ks"
  shows "Iterator_Valid node" and "Iterator_key sl node = Inr (ks ! i)"
    and "\<exists>node'. Iterator_Next sl node = Inr node' \<and> iter_at cmp sl ks (Suc i) node'"
proof -
  obtain L where ok: "sl_ok cmp sl L" and ks: "map (key_at sl) (L 0) = ks"
    and node: "node = Some (L 0 ! i)"
    using assms by (auto simp: iter_at_def)
  have i: "i < length (L 0)" using assms(2) ks by auto
  show v: "Iterator_Valid node" using node by (simp add: Iterator_Valid_def)
  show "Iterator_key sl node = Inr (ks ! i)"
    using v sl_rep_key(1) [OF ok ks, of "L 0 ! i"] i node ks by (auto simp: Iterator_key_def)
  have "lpath sl 0 (Some (sl_head sl)) (sl_head sl # L 0) None"
    by (rule sl_ok_path [OF ok levels_pos])
  from lpath_link_nth [OF this, of "Suc i"] i
  have "link_at sl 0 (L 0 ! i) = Some (if Suc i < length (L 0) then Some (L 0 ! Suc i) else None)"
    by simp
  from Node_Next_link_at [OF this] v node ok ks i
  show "\<exists>node'. Iterator_Next sl node = Inr node' \<and> iter_at cmp sl ks (Suc i) node'"
    unfolding Iterator_Next_def iter_at_def by auto
qed

lemma iter_at_end: "iter_at cmp sl ks (length ks) node \<Longrightarrow> \<not> Iterator_Valid node"
  by (auto simp: iter_at_def Iterator_Valid_def)

lemma SeekToFirst_at:
  assumes "sl_rep cmp sl ks"
  shows "\<exists>node. Iterator_SeekToFirst sl = Inr node \<and> iter_at cmp sl ks 0 node"
proof -
  obtain L where ok: "sl_ok cmp sl L" and ks: "map (key_at sl) (L 0) = ks"
    using assms by (auto simp: sl_rep_def)
  have p: "lpath sl 0 (Some (sl_head sl)) (sl_head sl # L 0) None"
    by (rule sl_ok_path [OF ok levels_pos])
  from lpath_link_nth [OF p, of 0] show ?thesis
    using Node_Next_link_at [of sl 0 "sl_head sl"] ok ks
    by (auto simp: Iterator_SeekToFirst_def iter_at_def)
qed

lemma scan_from:
  "iter_at cmp sl ks i node \<Longrightarrow> scan sl node acc = Some (Inr (acc @ drop i ks))"
proof (induction "length ks - i" arbitrary: i node acc)
  case 0
  then have "i = length ks" by (auto simp: iter_at_def)
  with "0.prems" show ?case using iter_at_end by (subst scan.simps) auto
next
  case (Suc n)
  then have i: "i < length ks" by simp
  obtain node' where "Iterator_Next sl node = Inr node'" "iter_at cmp sl ks (Suc i) node'"
    using iter_at_step(3) [OF Suc.prems i] by blast
  then show ?case
    using iter_at_step(1,2) [OF Suc.prems i] Suc.hyps(1) [of "Suc i" node' "acc @ [ks ! i]"]
      Suc.hyps(2) i
    by (subst scan.simps) (simp add: Cons_nth_drop_Suc)
qed

lemma Seek_at:
  assumes "comparator cmp" and "sl_rep cmp sl ks" and fits: "prev_fits levels prev"
  shows "\<exists>node prev'. FindGreaterOrEqual cmp sl k prev = Some (Inr (node, prev')) \<and>
           (prev = None \<longrightarrow> prev' = None) \<and>
           iter_at cmp sl ks (length (takeWhile (\<lambda>x. cmp x k < 0) ks)) node"
proof -
  obtain L where ok: "sl_ok cmp sl L" and ks: "map (key_at sl) (L 0) = ks"
    using assms(2) by (auto simp: sl_rep_def)
  let ?tw = "takeWhile (before cmp sl k) (L 0)" and ?dw = "dropWhile (before cmp sl k) (L 0)"
  have len: "length (takeWhile (\<lambda>x. cmp x k < 0) ks) = length ?tw"
    by (simp add: ks [symmetric] takeWhile_map comp_def)
  have app: "L 0 = ?tw @ ?dw" by simp
  have "head_opt ?dw = (if length ?tw < length (L 0) then Some (L 0 ! length ?tw) else None)"
  proof (cases ?dw)
    case Nil
    with app have "length ?tw = length (L 0)" by (metis append_Nil2)
    with Nil show ?thesis by simp
  next
    case (Cons a as)
    with app have "L 0 ! length ?tw = a" by (metis nth_append_length)
    moreover have "length ?tw < length (L 0)"
      using Cons app by (metis length_append length_Cons less_add_Suc1 add_Suc_right)
    ultimately show ?thesis using Cons by simp
  qed
  moreover have "length ?tw \<le> length (L 0)" by (rule length_takeWhile_le)
  moreover have "length ks = length (L 0)" using ks by auto
  ultimately have "iter_at cmp sl ks (length (takeWhile (\<lambda>x. cmp x k < 0) ks)) (head_opt ?dw)"
    unfolding iter_at_def len using ok ks by (intro exI [of _ L]) simp
  then show ?thesis
    using comparator.FindGE_ok [OF assms(1) ok fits] by (auto simp: fill_prev_def)
qed

lemma iter_at_key:
  "iter_at cmp sl ks i node \<Longrightarrow> i < length ks \<Longrightarrow> node \<noteq> None \<and> Node_key sl node = Inr (ks ! i)"
  using iter_at_step(1,2) [of cmp sl ks i node] by (simp add: Iterator_key_def Iterator_Valid_def)

lemma SeekToLast_at:
  assumes "sl_rep cmp sl ks"
  shows "\<exists>node. Iterator_SeekToLast sl = Some (Inr node) \<and>
           (if ks = [] then node = None else iter_at cmp sl ks (length ks - 1) node)"
proof -
  obtain L where ok: "sl_ok cmp sl L" and ks: "map (key_at sl) (L 0) = ks"
    using assms by (auto simp: sl_rep_def)
  show ?thesis
  proof (cases "L 0 = []")
    case True
    with ks show ?thesis by (auto simp: Iterator_SeekToLast_def FindLast_ok [OF ok] null_if_head_def)
  next
    case False
    then have "last (L 0) \<noteq> sl_head sl" using sl_ok_head [OF ok levels_pos] last_in_set by metis
    with False ks ok show ?thesis
      by (auto simp: Iterator_SeekToLast_def FindLast_ok [OF ok] null_if_head_def iter_at_def
          last_conv_nth)
  qed
qed

context comparator
begin

lemma hit_position:
  assumes srt: "sorted_wrt (\<lambda>x y. cmp x y < 0) ks" and x: "x \<in> set ks" "cmp x k = 0"
  shows "length (takeWhile (\<lambda>x. cmp x k < 0) ks) < length ks"
    and "ks ! length (takeWhile (\<lambda>x. cmp x k < 0) ks) = x"
proof -
  from x(1) obtain as bs where ks: "ks = as @ x # bs" by (auto dest: split_list)
  have "takeWhile (\<lambda>x. cmp x k < 0) ks = as"
    unfolding ks using srt x(2) cmp_less_le_trans [of _ x k]
    by (subst takeWhile_append2) (auto simp: ks sorted_wrt_append)
  then show "length (takeWhile (\<lambda>x. cmp x k < 0) ks) < length ks"
    and "ks ! length (takeWhile (\<lambda>x. cmp x k < 0) ks) = x"
    by (simp_all add: ks)
qed

lemma Insert_duplicate:
  assumes rep: "sl_rep cmp sl ks" and x: "x \<in> set ks" "cmp x k = 0"
  shows "Insert False cmp rn sl k = Some (Inl AssertFailed)"
proof -
  have "prev_fits levels (Some (replicate levels None))" by (simp add: prev_fits_def)
  from Seek_at [OF comparator_axioms rep this, of k]
  obtain node prev' where ge: "FindGreaterOrEqual cmp sl k (Some (replicate levels None)) =
      Some (Inr (node, prev'))"
    and at: "iter_at cmp sl ks (length (takeWhile (\<lambda>x. cmp x k < 0) ks)) node" by blast
  note hit = hit_position [OF sl_rep_sorted [OF rep] x]
  have "node \<noteq> None" "Node_key sl node = Inr x"
    using iter_at_key [OF at hit(1)] hit(2) by auto
  then have "Insert_assert False cmp sl k node = Inl AssertFailed"
    using x(2) cmp_flip0 by (simp add: Insert_assert_def Equal_def)
  with ge show ?thesis by (simp add: Insert_def Insert_begin_def)
qed

text \<open>Where \<open>FindLessThan\<close> ends, in terms of positions.\<close>

lemma FindLessThan_at_equal:
  assumes at: "iter_at cmp sl ks i node" and i: "i < length ks"
  shows "FindLessThan True cmp sl (ks ! i) = Some (Inr node)"
    and "FindLessThan False cmp sl (ks ! i) = Some (Inl AssertFailed)"
    and "null_if_head sl node = node"
proof -
  obtain L where ok: "sl_ok cmp sl L" and ks: "map (key_at sl) (L 0) = ks"
    and node: "node = Some (L 0 ! i)"
    using at i by (auto simp: iter_at_def)
  have e: "L 0 ! i \<in> set (L 0)" "cmp (key_at sl (L 0 ! i)) (ks ! i) = 0" using i ks by auto
  show "FindLessThan True cmp sl (ks ! i) = Some (Inr node)"
    using FindLessThan_ok [OF ok, of True] stop_at_equal [OF ok e] node by simp
  show "FindLessThan False cmp sl (ks ! i) = Some (Inl AssertFailed)"
    by (rule FindLessThan_abort [OF ok e])
  show "null_if_head sl node = node"
    using e(1) sl_ok_head [OF ok levels_pos] node by (auto simp: null_if_head_def)
qed

lemma stop_at_position:
  assumes ok: "sl_ok cmp sl L" and ks: "map (key_at sl) (L 0) = ks"
    and P: "takeWhile (\<lambda>a. P (key_at sl a)) (L 0) = take n (L 0)" and n: "n \<le> length ks"
  shows "if n = 0 then stop_at sl (\<lambda>a. P (key_at sl a)) (L 0) = sl_head sl
         else iter_at cmp sl ks (n - 1) (null_if_head sl (Some (stop_at sl (\<lambda>a. P (key_at sl a)) (L 0))))"
proof (cases "n = 0")
  case True
  with P show ?thesis by (simp add: stop_at_def)
next
  case False
  have len: "length ks = length (L 0)" using ks by auto
  with False n have nn: "n - 1 < length (L 0)" by simp
  have "last (sl_head sl # take n (L 0)) = L 0 ! (n - 1)"
    using False n len by (cases n) (simp_all add: take_Suc_conv_app_nth)
  moreover have "L 0 ! (n - 1) \<noteq> sl_head sl"
    using nn sl_ok_head [OF ok levels_pos] nth_mem by metis
  ultimately show ?thesis
    using False P nn ok ks len unfolding iter_at_def stop_at_def null_if_head_def by auto
qed

lemma FindLessThan_no_equal:
  assumes rep: "sl_rep cmp sl ks" and fresh: "\<forall>x \<in> set ks. cmp x k \<noteq> 0"
  defines "n \<equiv> length (takeWhile (\<lambda>x. cmp x k < 0) ks)"
  shows "\<exists>p. FindLessThan nd cmp sl k = Some (Inr p) \<and>
           (if n = 0 then p = Some (sl_head sl) else iter_at cmp sl ks (n - 1) (null_if_head sl p))"
proof -
  obtain L where ok: "sl_ok cmp sl L" and ks: "map (key_at sl) (L 0) = ks"
    using rep by (auto simp: sl_rep_def)
  have ne: "\<forall>a \<in> set (L 0). cmp (key_at sl a) k \<noteq> 0" using fresh ks by auto
  have "takeWhile (not_after cmp sl k) (L 0) = takeWhile (before cmp sl k) (L 0)"
    by (rule takeWhile_cong) (use ne in \<open>auto simp: order.order_iff_strict\<close>)
  also have "\<dots> = take (length (takeWhile (before cmp sl k) (L 0))) (L 0)"
    by (rule takeWhile_eq_take)
  also have "length (takeWhile (before cmp sl k) (L 0)) = n"
    unfolding n_def ks [symmetric] by (simp add: takeWhile_map comp_def)
  finally have "takeWhile (\<lambda>a. cmp (key_at sl a) k \<le> 0) (L 0) = take n (L 0)" .
  from stop_at_position [OF ok ks this] FindLessThan_ok [OF ok, of nd k] ne
  show ?thesis by (auto simp: n_def length_takeWhile_le)
qed

end

section \<open>Concrete lists for the witnesses\<close>

lemma bytes_list_two:
  obtains sl :: "(8 word list, nat) skiplist" where "sl_rep bytes_compare sl [[1], [3]]"
proof -
  obtain sl :: "(8 word list, nat) skiplist" where "sl_ok bytes_compare sl (\<lambda>_. [])"
    using SkipList_ok by metis
  then have "sl_rep bytes_compare sl []" by (auto simp: sl_rep_def)
  from bytes.Insert_rep [OF this, of "[3]" True "\<lambda>r. (4, r)"]
  obtain sl1 :: "(8 word list, nat) skiplist" where "sl_rep bytes_compare sl1 [[3]]"
    by (auto simp: insert_key_def)
  from bytes.Insert_rep [OF this, of "[1]" True "\<lambda>r. (1, r)"]
  obtain sl2 :: "(8 word list, nat) skiplist" where "sl_rep bytes_compare sl2 [[1], [3]]"
    by (auto simp: insert_key_def)
  then show ?thesis by (rule that)
qed

end
