(* ===== verification/SkipListConcurrent.thy ===== *)
theory SkipListConcurrent
  imports SkipListSpec
begin

text \<open>
  A reader beside a writer. \<open>db/skiplist.h\<close> promises that reads need no locking: they only need
  the list to stay alive, while inserts are serialised by their callers. Here a search runs round
  by round, one atomic load of a link in each, and between any two rounds an insert may do any of
  its stores.

  The stores of \<open>Insert\<close> a reader can see are those of \<open>max_height_\<close> and of the links. \<open>begin\<close> is
  \<open>Insert\<close> up to its loop: its only visible store is that of \<open>max_height_\<close>, and since the
  search reads \<open>max_height_\<close> with relaxed ordering it may start with any height that is not above
  the current one, so it does not matter when within \<open>begin\<close> the store happens. The new node is not
  reachable before it is published.
\<close>

section \<open>The search, round by round\<close>

datatype reader = R_idle | R_at ptr int | R_done ptr | R_fault fault

definition FindGreaterOrEqual_round ::
  "('k \<Rightarrow> 'k \<Rightarrow> int) \<Rightarrow> ('k, 'r) skiplist \<Rightarrow> 'k \<Rightarrow> ptr \<Rightarrow> int \<Rightarrow> reader" where
  "FindGreaterOrEqual_round compare sl k x level =
     (case Node_Next sl x level of Inl e \<Rightarrow> R_fault e
      | Inr nxt \<Rightarrow>
        (case KeyIsAfterNode compare sl k nxt of Inl e \<Rightarrow> R_fault e
         | Inr after \<Rightarrow>
             if after then R_at nxt level
             else if level = 0 then R_done nxt
             else R_at x (level - 1)))"

text \<open>The rounds are those of the loop of \<open>FindGreaterOrEqual\<close>.\<close>

lemma FindGreaterOrEqual_loop_round:
  "FindGreaterOrEqual_loop cmp sl k x level None =
     (case FindGreaterOrEqual_round cmp sl k x level of
        R_fault e \<Rightarrow> Some (Inl e)
      | R_done p \<Rightarrow> Some (Inr (p, None))
      | R_at y l \<Rightarrow> FindGreaterOrEqual_loop cmp sl k y l None
      | R_idle \<Rightarrow> None)"
  by (subst FindGreaterOrEqual_loop.simps)
    (simp add: FindGreaterOrEqual_round_def store_prev_def split: sum.split)

section \<open>The system\<close>

text \<open>The writer: between inserts, or in the linking loop, at its round \<open>m\<close> of \<open>h\<close>.\<close>

datatype writer_at = W_idle | W_prepare ptr prev_array nat nat | W_publish ptr prev_array nat nat

record ('k, 'r) csys =
  cs_list :: "('k, 'r) skiplist"
  cs_writer :: writer_at
  cs_reader :: reader

text \<open>
  An insert may begin when nothing in the list compares equal to its key, which is what the
  documentation of \<open>Insert\<close> requires of its callers.
\<close>

inductive cstep ::
  "bool \<Rightarrow> ('k \<Rightarrow> 'k \<Rightarrow> int) \<Rightarrow> ('r \<Rightarrow> u32 \<times> 'r) \<Rightarrow> 'k \<Rightarrow> ('k, 'r) csys \<Rightarrow> ('k, 'r) csys \<Rightarrow> bool"
  for nd cmp rn k where
  start: "cs_reader s = R_idle \<Longrightarrow> 1 \<le> height \<Longrightarrow> height \<le> GetMaxHeight (cs_list s) \<Longrightarrow>
    cstep nd cmp rn k s (s\<lparr>cs_reader := R_at (Some (sl_head (cs_list s))) (height - 1)\<rparr>)"
| round: "cs_reader s = R_at x level \<Longrightarrow>
    cstep nd cmp rn k s (s\<lparr>cs_reader := FindGreaterOrEqual_round cmp (cs_list s) k x level\<rparr>)"
| insert_begin: "cs_writer s = W_idle \<Longrightarrow> Contains cmp (cs_list s) new = Some (Inr False) \<Longrightarrow>
    Insert_begin nd cmp rn (cs_list s) new = Some (Inr (n, prev, height, sl)) \<Longrightarrow>
    cstep nd cmp rn k s (s\<lparr>cs_list := sl, cs_writer := W_prepare n prev 0 (nat height)\<rparr>)"
| prepare: "cs_writer s = W_prepare n prev m h \<Longrightarrow>
    Insert_prepare (cs_list s) n prev (int m) = Inr sl \<Longrightarrow>
    cstep nd cmp rn k s (s\<lparr>cs_list := sl, cs_writer := W_publish n prev m h\<rparr>)"
| publish: "cs_writer s = W_publish n prev m h \<Longrightarrow>
    Insert_publish (cs_list s) n prev (int m) = Inr sl \<Longrightarrow>
    cstep nd cmp rn k s (s\<lparr>cs_list := sl,
      cs_writer := (if Suc m < h then W_prepare n prev (Suc m) h else W_idle)\<rparr>)"

inductive creach ::
  "bool \<Rightarrow> ('k \<Rightarrow> 'k \<Rightarrow> int) \<Rightarrow> ('r \<Rightarrow> u32 \<times> 'r) \<Rightarrow> 'k \<Rightarrow> 'k list \<Rightarrow> ('k, 'r) csys \<Rightarrow> bool"
  for nd cmp rn k ks where
  init: "sl_rep cmp (cs_list s) ks \<Longrightarrow> cs_writer s = W_idle \<Longrightarrow> cs_reader s = R_idle \<Longrightarrow>
    creach nd cmp rn k ks s"
| step: "creach nd cmp rn k ks s \<Longrightarrow> cstep nd cmp rn k s s' \<Longrightarrow> creach nd cmp rn k ks s'"

inductive_cases cstepE: "cstep nd cmp rn k s s'"

section \<open>The invariant\<close>

text \<open>Where the writer is, with the levels \<open>L\<close> as they are now.\<close>

definition writer_ok ::
  "('k \<Rightarrow> 'k \<Rightarrow> int) \<Rightarrow> ('k, 'r) skiplist \<Rightarrow> (nat \<Rightarrow> addr list) \<Rightarrow> writer_at \<Rightarrow> bool" where
  "writer_ok cmp sl L w =
     (case w of
        W_idle \<Rightarrow> True
      | W_prepare x prev m h \<Rightarrow> m < h \<and>
          (\<exists>n s0 L0. x = Some n \<and> ready cmp s0 L0 n h prev \<and> L = linked cmp s0 L0 n m \<and>
             same_nodes s0 sl)
      | W_publish x prev m h \<Rightarrow> m < h \<and>
          (\<exists>n s0 L0 s. x = Some n \<and> ready cmp s0 L0 n h prev \<and> L = linked cmp s0 L0 n m \<and>
             sl_ok cmp s L \<and> same_nodes s0 s \<and> Insert_prepare s x prev (int m) = Inr sl))"

text \<open>Where the reader is: on the head or on a node of its level that is before its key.\<close>

definition reader_ok ::
  "('k \<Rightarrow> 'k \<Rightarrow> int) \<Rightarrow> 'k \<Rightarrow> ('k, 'r) skiplist \<Rightarrow> (nat \<Rightarrow> addr list) \<Rightarrow> reader \<Rightarrow> bool" where
  "reader_ok cmp k sl L r =
     (case r of
        R_at p level \<Rightarrow> (\<exists>x i. p = Some x \<and> level = int i \<and> i < levels \<and>
          (x = sl_head sl \<or> x \<in> set (L i) \<and> before cmp sl k x))
      | R_fault e \<Rightarrow> False
      | _ \<Rightarrow> True)"

text \<open>What the writer does to the reader's list: nodes come, none goes or changes its key.\<close>

definition grows ::
  "('k, 'r) skiplist \<Rightarrow> (nat \<Rightarrow> addr list) \<Rightarrow> ('k, 'r) skiplist \<Rightarrow> (nat \<Rightarrow> addr list) \<Rightarrow> bool" where
  "grows sl L sl' L' \<longleftrightarrow> sl_head sl' = sl_head sl \<and>
     (\<forall>i < levels. set (L i) \<subseteq> set (L' i) \<and> (\<forall>a \<in> set (L i). key_at sl' a = key_at sl a))"

lemma grows_reader:
  "grows sl L sl' L' \<Longrightarrow> reader_ok cmp k sl L r \<Longrightarrow> reader_ok cmp k sl' L' r"
  by (cases r) (fastforce simp: grows_def reader_ok_def)+

lemma grows_refl [simp]: "grows sl L sl L"
  by (simp add: grows_def)

lemma grows_linked:
  "key_at sl' = key_at sl \<Longrightarrow> sl_head sl' = sl_head sl \<Longrightarrow>
   grows sl (linked cmp s0 L0 n m) sl' (linked cmp s0 L0 n (Suc m))"
  by (auto simp: grows_def linked_def less_Suc_eq)

context comparator
begin

lemma round_at:
  assumes ok: "sl_ok cmp sl L" and i: "i < levels"
    and x: "x = sl_head sl \<or> x \<in> set (L i) \<and> before cmp sl k x"
  obtains bs where "lpath sl i (Some x) (x # bs) None" "set bs \<subseteq> set (L i)"
    "dropWhile (before cmp sl k) bs = dropWhile (before cmp sl k) (L i)"
    "FindGreaterOrEqual_round cmp sl k (Some x) (int i) =
       (if bs \<noteq> [] \<and> before cmp sl k (hd bs) then R_at (Some (hd bs)) (int i)
        else if i = 0 then R_done (head_opt bs) else R_at (Some x) (int i - 1))"
proof -
  obtain bs where bs: "lpath sl i (Some x) (x # bs) None" "set bs \<subseteq> set (L i)"
    "dropWhile (before cmp sl k) bs = dropWhile (before cmp sl k) (L i)"
    by (rule resume [OF ok i before_down_closed x])
  then obtain q where q: "link_at sl i x = Some q" "lpath sl i q bs None" by auto
  have nx: "Node_Next sl (Some x) (int i) = Inr (head_opt bs)"
    using Node_Next_link_at [OF q(1)] lpath_start [OF q(2)] by simp
  have ka: "KeyIsAfterNode cmp sl k (head_opt bs) = Inr (bs \<noteq> [] \<and> before cmp sl k (hd bs))"
  proof (cases bs)
    case (Cons b cs)
    then have "b < length (sl_arena sl)" using sl_ok_arena [OF ok i, of b] bs(2) by auto
    then show ?thesis using Cons by (simp add: KeyIsAfterNode_Some)
  qed simp
  have "head_opt bs = Some (hd bs)" if "bs \<noteq> []" using that by (cases bs) auto
  then show ?thesis
    using that [OF bs] nx ka by (auto simp: FindGreaterOrEqual_round_def)
qed

lemma round_keeps:
  assumes ok: "sl_ok cmp sl L" and r: "reader_ok cmp k sl L (R_at p level)"
  shows "reader_ok cmp k sl L (FindGreaterOrEqual_round cmp sl k p level)"
proof -
  obtain x i where p: "p = Some x" "level = int i" and i: "i < levels"
    and x: "x = sl_head sl \<or> x \<in> set (L i) \<and> before cmp sl k x"
    using r by (auto simp: reader_ok_def)
  obtain bs where bs: "set bs \<subseteq> set (L i)"
    "FindGreaterOrEqual_round cmp sl k (Some x) (int i) =
       (if bs \<noteq> [] \<and> before cmp sl k (hd bs) then R_at (Some (hd bs)) (int i)
        else if i = 0 then R_done (head_opt bs) else R_at (Some x) (int i - 1))"
    by (rule round_at [OF ok i x])
  show ?thesis
  proof (cases "bs \<noteq> [] \<and> before cmp sl k (hd bs)")
    case True
    then have "hd bs \<in> set (L i)" using bs(1) by (cases bs) auto
    then show ?thesis using True bs(2) p i by (auto simp: reader_ok_def)
  next
    case False
    show ?thesis
    proof (cases i)
      case (Suc j)
      have "x = sl_head sl \<or> x \<in> set (L j) \<and> before cmp sl k x"
        using x sl_ok_subset [OF ok, of j] i Suc by auto
      then show ?thesis using False bs(2) p i Suc by (auto simp: reader_ok_def)
    qed (use False bs(2) p in \<open>auto simp: reader_ok_def\<close>)
  qed
qed

section \<open>Every step keeps it\<close>

definition cinv ::
  "('k list) \<Rightarrow> 'k \<Rightarrow> ('k, 'r) csys \<Rightarrow> bool" where
  "cinv ks k s \<longleftrightarrow> (\<exists>L. sl_ok cmp (cs_list s) L \<and> writer_ok cmp (cs_list s) L (cs_writer s) \<and>
     reader_ok cmp k (cs_list s) L (cs_reader s) \<and> set ks \<subseteq> key_at (cs_list s) ` set (L 0))"

lemma grows_keys:
  "grows sl L sl' L' \<Longrightarrow> set ks \<subseteq> key_at sl ` set (L 0) \<Longrightarrow> set ks \<subseteq> key_at sl' ` set (L' 0)"
proof
  fix q
  assume g: "grows sl L sl' L'" and "set ks \<subseteq> key_at sl ` set (L 0)" and "q \<in> set ks"
  then obtain a where a: "a \<in> set (L 0)" "q = key_at sl a" by blast
  moreover have "set (L 0) \<subseteq> set (L' 0) \<and> (\<forall>a \<in> set (L 0). key_at sl' a = key_at sl a)"
    using g levels_pos unfolding grows_def by blast
  ultimately show "q \<in> key_at sl' ` set (L' 0)" by (intro image_eqI [of _ _ a]) auto
qed

lemma begin_grows:
  assumes ok: "sl_ok cmp sl L" and c: "Contains cmp sl new = Some (Inr False)"
    and b: "Insert_begin nd cmp rn sl new = Some (Inr (x, prev, height, s))"
  shows "grows sl L s L" and "sl_ok cmp s L" and "writer_ok cmp s L (W_prepare x prev 0 (nat height))"
proof -
  have "\<forall>a \<in> set (L 0). cmp (key_at sl a) new \<noteq> 0"
    using Contains_rep [of sl "map (key_at sl) (L 0)" new] ok c by (auto simp: sl_rep_def)
  then obtain n h where n: "x = Some n" "height = int h" "ready cmp s L n h prev" "1 \<le> h"
    "map (key_at s) (L 0) = map (key_at sl) (L 0)" "sl_head s = sl_head sl"
    by (rule Insert_begin_ok [OF ok, of new nd rn]) (use b in auto)
  show "sl_ok cmp s L" using n(3) by (simp add: ready_def)
  have "key_at s a = key_at sl a" if "i < levels" "a \<in> set (L i)" for i a
    using n(5) sl_ok_subset0 [OF ok that(1)] that(2) by (auto simp: map_eq_conv)
  then show "grows sl L s L" using n(6) by (simp add: grows_def)
  have "linked cmp s L n 0 = L" by (simp add: linked_def fun_eq_iff)
  then show "writer_ok cmp s L (W_prepare x prev 0 (nat height))"
    unfolding writer_ok_def using n(1-4) by (auto intro!: exI [of _ s] exI [of _ L] simp: same_nodes_def)
qed

lemma prepare_grows:
  assumes ok: "sl_ok cmp sl L" and w: "writer_ok cmp sl L (W_prepare x prev m h)"
    and p: "Insert_prepare sl x prev (int m) = Inr s"
  shows "grows sl L s L" and "sl_ok cmp s L" and "writer_ok cmp s L (W_publish x prev m h)"
proof -
  obtain n s0 L0 where n: "m < h" "x = Some n" "ready cmp s0 L0 n h prev" "L = linked cmp s0 L0 n m"
    "same_nodes s0 sl" using w by (auto simp: writer_ok_def)
  obtain s1 where "Insert_prepare sl (Some n) prev (int m) = Inr s1" "sl_ok cmp s1 L" "key_at s1 = key_at s0"
    using link_stage_round [OF n(3,1) ok [unfolded n(4)] n(5)] n(4) by metis
  then have s1: "sl_ok cmp s L" "key_at s = key_at s0" using p n(2) by simp_all
  have hd: "sl_head s = sl_head sl"
    using p n(2) by (auto simp: Insert_prepare_def obind_eq_Inr Node_NoBarrier_SetNext_def
        Node_SetNext_def split: if_splits)
  show "sl_ok cmp s L" by (rule s1(1))
  show "grows sl L s L" using s1(2) hd n(5) by (simp add: grows_def same_nodes_def)
  show "writer_ok cmp s L (W_publish x prev m h)"
    unfolding writer_ok_def using n ok p by auto
qed

lemma publish_grows:
  assumes ok: "sl_ok cmp sl L" and w: "writer_ok cmp sl L (W_publish x prev m h)"
    and p: "Insert_publish sl x prev (int m) = Inr s"
  obtains L' where "grows sl L s L'" "sl_ok cmp s L'"
    "writer_ok cmp s L' (if Suc m < h then W_prepare x prev (Suc m) h else W_idle)"
proof -
  obtain n s0 L0 t where n: "m < h" "x = Some n" "ready cmp s0 L0 n h prev" "L = linked cmp s0 L0 n m"
    "sl_ok cmp t L" "same_nodes s0 t" "Insert_prepare t x prev (int m) = Inr sl"
    using w by (auto simp: writer_ok_def)
  obtain s1 s2 where st: "Insert_prepare t (Some n) prev (int m) = Inr s1" "key_at s1 = key_at s0"
    "Insert_publish s1 (Some n) prev (int m) = Inr s2" "sl_ok cmp s2 (linked cmp s0 L0 n (Suc m))"
    "same_nodes s0 s2"
    using link_stage_round [OF n(3,1) n(5) [unfolded n(4)] n(6)] by metis
  have e: "s1 = sl" "s2 = s" using st(1,3) n(2,7) p by simp_all
  have hd: "sl_head s = sl_head sl"
    using p n(2) by (auto simp: Insert_publish_def obind_eq_Inr Node_SetNext_def split: if_splits)
  have "grows sl L s (linked cmp s0 L0 n (Suc m))"
    unfolding n(4) by (rule grows_linked) (use st(2,5) e hd in \<open>simp_all add: same_nodes_def\<close>)
  moreover have "writer_ok cmp s (linked cmp s0 L0 n (Suc m))
      (if Suc m < h then W_prepare x prev (Suc m) h else W_idle)"
    using n(2,3) st(5) e by (auto simp: writer_ok_def)
  ultimately show ?thesis using that st(4) e by blast
qed

lemma cstep_cinv:
  assumes st: "cstep nd cmp rn k s s'" and inv: "cinv ks k s"
  shows "cinv ks k s'"
proof -
  obtain L where ok: "sl_ok cmp (cs_list s) L" and w: "writer_ok cmp (cs_list s) L (cs_writer s)"
    and r: "reader_ok cmp k (cs_list s) L (cs_reader s)"
    and ks: "set ks \<subseteq> key_at (cs_list s) ` set (L 0)"
    using inv by (auto simp: cinv_def)
  have ext: "cinv ks k s'" if "grows (cs_list s) L (cs_list s') L'" "sl_ok cmp (cs_list s') L'"
      "writer_ok cmp (cs_list s') L' (cs_writer s')" "cs_reader s' = cs_reader s" for L'
    unfolding cinv_def
    using that grows_reader [OF that(1) r] grows_keys [OF that(1) ks] by (intro exI [of _ L']) simp
  from st show ?thesis
  proof (rule cstepE)
    fix height
    assume h: "1 \<le> height" "height \<le> GetMaxHeight (cs_list s)"
      and s': "s' = s\<lparr>cs_reader := R_at (Some (sl_head (cs_list s))) (height - 1)\<rparr>"
    have "height \<le> kMaxHeight" using h(2) sl_ok_height [OF ok] by (simp add: GetMaxHeight_def)
    then have "reader_ok cmp k (cs_list s) L (R_at (Some (sl_head (cs_list s))) (height - 1))"
      using h(1) by (auto simp: reader_ok_def intro!: exI [of _ "nat (height - 1)"])
    then show ?thesis using ok w ks by (auto simp: cinv_def s')
  next
    fix x level
    assume x: "cs_reader s = R_at x level"
      and s': "s' = s\<lparr>cs_reader := FindGreaterOrEqual_round cmp (cs_list s) k x level\<rparr>"
    show ?thesis using round_keeps [OF ok r [unfolded x]] ok w ks by (auto simp: cinv_def s')
  next
    fix new n prev height sl
    assume "cs_writer s = W_idle" "Contains cmp (cs_list s) new = Some (Inr False)"
      "Insert_begin nd cmp rn (cs_list s) new = Some (Inr (n, prev, height, sl))"
      and s': "s' = s\<lparr>cs_list := sl, cs_writer := W_prepare n prev 0 (nat height)\<rparr>"
    from begin_grows [OF ok this(2,3)] show ?thesis by (intro ext [of L]) (simp_all add: s')
  next
    fix n prev m h sl
    assume x: "cs_writer s = W_prepare n prev m h" and p: "Insert_prepare (cs_list s) n prev (int m) = Inr sl"
      and s': "s' = s\<lparr>cs_list := sl, cs_writer := W_publish n prev m h\<rparr>"
    from prepare_grows [OF ok w [unfolded x] p] show ?thesis by (intro ext [of L]) (simp_all add: s')
  next
    fix n prev m h sl
    assume x: "cs_writer s = W_publish n prev m h" and p: "Insert_publish (cs_list s) n prev (int m) = Inr sl"
      and s': "s' = s\<lparr>cs_list := sl,
        cs_writer := (if Suc m < h then W_prepare n prev (Suc m) h else W_idle)\<rparr>"
    obtain L' where "grows (cs_list s) L sl L'" "sl_ok cmp sl L'"
      "writer_ok cmp sl L' (if Suc m < h then W_prepare n prev (Suc m) h else W_idle)"
      by (rule publish_grows [OF ok w [unfolded x] p])
    then show ?thesis by (intro ext [of L']) (simp_all add: s')
  qed
qed

lemma creach_cinv: "creach nd cmp rn k ks s \<Longrightarrow> cinv ks k s"
proof (induction rule: creach.induct)
  case (init s)
  then show ?case by (auto simp: cinv_def sl_rep_def writer_ok_def reader_ok_def)
next
  case (step s s')
  then show ?case using cstep_cinv by blast
qed

section \<open>What a reader gets\<close>

lemma round_done:
  assumes ok: "sl_ok cmp sl L" and r: "reader_ok cmp k sl L (R_at p level)"
    and d: "FindGreaterOrEqual_round cmp sl k p level = R_done q"
  shows "FindGreaterOrEqual cmp sl k None = Some (Inr (q, None))"
proof -
  obtain x i where p: "p = Some x" "level = int i" and i: "i < levels"
    and x: "x = sl_head sl \<or> x \<in> set (L i) \<and> before cmp sl k x"
    using r by (auto simp: reader_ok_def)
  obtain bs where bs: "dropWhile (before cmp sl k) bs = dropWhile (before cmp sl k) (L i)"
    "FindGreaterOrEqual_round cmp sl k (Some x) (int i) =
       (if bs \<noteq> [] \<and> before cmp sl k (hd bs) then R_at (Some (hd bs)) (int i)
        else if i = 0 then R_done (head_opt bs) else R_at (Some x) (int i - 1))"
    by (rule round_at [OF ok i x])
  have e: "\<not> (bs \<noteq> [] \<and> before cmp sl k (hd bs))" "i = 0" "q = head_opt bs"
    using d bs(2) p by (auto split: if_splits)
  then have "dropWhile (before cmp sl k) bs = bs" by (cases bs) auto
  then have "q = head_opt (dropWhile (before cmp sl k) (L 0))" using e(2,3) bs(1) by simp
  then show ?thesis
    using FindGE_ok [OF ok, of None k] by (simp add: prev_fits_def fill_prev_def)
qed

text \<open>What is left to a reader: its level, and the nodes before its key it has not passed.\<close>

definition ahead :: "('k, 'r) skiplist \<Rightarrow> (nat \<Rightarrow> addr list) \<Rightarrow> 'k \<Rightarrow> addr \<Rightarrow> addr set" where
  "ahead sl L k x = {a \<in> set (L 0). before cmp sl k a \<and> (x = sl_head sl \<or> key_less cmp sl x a)}"

lemma finite_ahead [simp]: "finite (ahead sl L k x)"
  by (simp add: ahead_def)

lemma lpath_unique: "lpath sl i p as None \<Longrightarrow> lpath sl i p bs None \<Longrightarrow> as = bs"
  by (induction as arbitrary: p bs) (case_tac bs; auto)+

lemma chain_after:
  assumes ok: "sl_ok cmp sl L" and i: "i < levels" and x: "x \<in> set (L i)"
    and bs: "lpath sl i (Some x) (x # bs) None" and b: "b \<in> set bs"
  shows "key_less cmp sl x b"
proof -
  obtain as cs where L: "L i = as @ x # cs" using x by (auto dest: split_list)
  have "lpath sl i (Some (sl_head sl)) ((sl_head sl # as) @ x # cs) None"
    using sl_ok_path [OF ok i] unfolding L by simp
  then have "lpath sl i (Some x) (x # cs) None" unfolding lpath_append by auto
  then have "x # bs = x # cs" by (rule lpath_unique [OF bs])
  then have "bs = cs" by simp
  then show ?thesis using sl_ok_sorted [OF ok i] b unfolding L by (simp add: sorted_wrt_append)
qed

lemma ahead_advance:
  assumes ok: "sl_ok cmp sl L" and i: "i < levels"
    and x: "x = sl_head sl \<or> x \<in> set (L i)"
    and bs: "lpath sl i (Some x) (x # bs) None" "set bs \<subseteq> set (L i)"
    and b: "b \<in> set bs" "before cmp sl k b"
  shows "ahead sl L k b \<subset> ahead sl L k x"
proof
  have bL: "b \<in> set (L i)" using b(1) bs(2) by blast
  then have b0: "b \<in> set (L 0)" "b \<noteq> sl_head sl"
    using sl_ok_subset0 [OF ok i] sl_ok_head [OF ok i] by auto
  have xb: "x = sl_head sl \<or> key_less cmp sl x b"
    using x chain_after [OF ok i _ bs(1) b(1)] by blast
  then show "ahead sl L k b \<subseteq> ahead sl L k x"
    using b0(2) cmp_less_trans [of "key_at sl x" "key_at sl b"] by (auto simp: ahead_def)
  have "b \<in> ahead sl L k x" "b \<notin> ahead sl L k b"
    using b0 b(2) xb by (auto simp: ahead_def)
  then show "ahead sl L k b \<noteq> ahead sl L k x" by blast
qed

end

text \<open>A reader that runs alone for \<open>n\<close> rounds.\<close>

fun reader_alone :: "('k \<Rightarrow> 'k \<Rightarrow> int) \<Rightarrow> ('k, 'r) skiplist \<Rightarrow> 'k \<Rightarrow> nat \<Rightarrow> reader \<Rightarrow> reader" where
  "reader_alone cmp sl k 0 r = r"
| "reader_alone cmp sl k (Suc n) r =
     (case r of R_at x level \<Rightarrow> reader_alone cmp sl k n (FindGreaterOrEqual_round cmp sl k x level)
      | _ \<Rightarrow> r)"

context comparator
begin

lemma reader_alone_done:
  assumes ok: "sl_ok cmp sl L" and r: "reader_ok cmp k sl L (R_at (Some x) (int i))"
  shows "\<exists>n q. n \<le> Suc (i + card (ahead sl L k x)) \<and>
           reader_alone cmp sl k n (R_at (Some x) (int i)) = R_done q"
  using r
proof (induction "i + card (ahead sl L k x)" arbitrary: i x rule: less_induct)
  case less
  have i: "i < levels" and x: "x = sl_head sl \<or> x \<in> set (L i) \<and> before cmp sl k x"
    using less.prems by (auto simp: reader_ok_def)
  obtain bs where bs: "lpath sl i (Some x) (x # bs) None" "set bs \<subseteq> set (L i)"
    "FindGreaterOrEqual_round cmp sl k (Some x) (int i) =
       (if bs \<noteq> [] \<and> before cmp sl k (hd bs) then R_at (Some (hd bs)) (int i)
        else if i = 0 then R_done (head_opt bs) else R_at (Some x) (int i - 1))"
    by (rule round_at [OF ok i x])
  have keep: "reader_ok cmp k sl L (FindGreaterOrEqual_round cmp sl k (Some x) (int i))"
    by (rule round_keeps [OF ok less.prems])
  show ?case
  proof (cases "bs \<noteq> [] \<and> before cmp sl k (hd bs)")
    case True
    have "card (ahead sl L k (hd bs)) < card (ahead sl L k x)"
      by (rule psubset_card_mono [OF finite_ahead ahead_advance [OF ok i _ bs(1,2)]])
        (use x True in auto)
    then obtain n q where "n \<le> Suc (i + card (ahead sl L k (hd bs)))"
        "reader_alone cmp sl k n (R_at (Some (hd bs)) (int i)) = R_done q"
      using less.hyps [of i "hd bs"] keep bs(3) True by auto
    then show ?thesis
      using bs(3) True \<open>card (ahead sl L k (hd bs)) < card (ahead sl L k x)\<close>
      by (intro exI [of _ "Suc n"] exI [of _ q]) simp
  next
    case False
    show ?thesis
    proof (cases i)
      case 0
      then show ?thesis using bs(3) False by (intro exI [of _ 1]) auto
    next
      case (Suc j)
      then obtain n q where "n \<le> Suc (j + card (ahead sl L k x))"
          "reader_alone cmp sl k n (R_at (Some x) (int j)) = R_done q"
        using less.hyps [of j x] keep bs(3) False by auto
      then show ?thesis
        using bs(3) False Suc by (intro exI [of _ "Suc n"] exI [of _ q]) auto
    qed
  qed
qed

lemma ahead_bound:
  assumes "sl_ok cmp sl L"
  shows "card (ahead sl L k x) \<le> length (filter (\<lambda>y. cmp y k < 0) (map (key_at sl) (L 0)))"
proof -
  have "card (ahead sl L k x) \<le> card (set (filter (before cmp sl k) (L 0)))"
    by (intro card_mono) (auto simp: ahead_def)
  also have "\<dots> \<le> length (filter (before cmp sl k) (L 0))" by (rule card_length)
  finally show ?thesis by (simp add: filter_map comp_def)
qed

lemma reader_facts:
  assumes "creach nd cmp rn k ks s" and r: "cs_reader s = R_at x level"
  shows "\<exists>ks'. sl_rep cmp (cs_list s) ks' \<and> set ks \<subseteq> set ks' \<and>
     (\<forall>e. FindGreaterOrEqual_round cmp (cs_list s) k x level \<noteq> R_fault e) \<and>
     (\<forall>q. FindGreaterOrEqual_round cmp (cs_list s) k x level = R_done q \<longrightarrow>
        FindGreaterOrEqual cmp (cs_list s) k None = Some (Inr (q, None))) \<and>
     (\<exists>n q. n \<le> Suc (nat level + length (filter (\<lambda>y. cmp y k < 0) ks')) \<and>
        reader_alone cmp (cs_list s) k n (R_at x level) = R_done q)"
proof -
  obtain L where ok: "sl_ok cmp (cs_list s) L" and ro: "reader_ok cmp k (cs_list s) L (R_at x level)"
    and ks: "set ks \<subseteq> key_at (cs_list s) ` set (L 0)"
    using creach_cinv [OF assms(1)] r by (auto simp: cinv_def)
  obtain a i where a: "x = Some a" "level = int i" using ro by (auto simp: reader_ok_def)
  obtain n q where n: "n \<le> Suc (i + card (ahead (cs_list s) L k a))"
    "reader_alone cmp (cs_list s) k n (R_at (Some a) (int i)) = R_done q"
    using reader_alone_done [OF ok] ro a by blast
  have "\<forall>e. FindGreaterOrEqual_round cmp (cs_list s) k x level \<noteq> R_fault e"
    using round_keeps [OF ok ro] by (auto simp: reader_ok_def)
  moreover have "n \<le> Suc (nat level + length (filter (\<lambda>y. cmp y k < 0) (map (key_at (cs_list s)) (L 0))))"
    using n(1) ahead_bound [OF ok, of k a] a(2) by simp
  ultimately show ?thesis
    using ok ks round_done [OF ok ro] n(2) a
    by (intro exI [of _ "map (key_at (cs_list s)) (L 0)"]) (auto simp: sl_rep_def)
qed

end

end
