(* ===== verification/SkipListProps.thy ===== *)
theory SkipListProps
  imports SkipListSpec
begin

text \<open>
  The properties of the skip list, each followed by a theorem that applies it to a concrete
  list of byte-string keys. \<open>sl_rep cmp sl ks\<close> (\<open>SkipListSearch\<close>) says that \<open>sl\<close> is well
  formed and holds exactly the keys \<open>ks\<close>, in this order; \<open>iter_at\<close> (\<open>SkipListSpec\<close>) where an
  iterator stands.
\<close>

context comparator
begin

lemma insert_all_new:
  assumes "sorted_wrt (\<lambda>x y. cmp x y \<noteq> 0) new"
  shows "\<exists>sl sl' ks. SkipList any_key seed = Inr sl \<and>
     insert_all (Insert nd cmp rnd_Next) sl new = Some (Inr sl') \<and> sl_rep cmp sl' ks \<and>
     set ks = set new \<and> sorted_wrt (\<lambda>x y. cmp x y < 0) ks \<and>
     (\<forall>k. Contains cmp sl' k = Some (Inr (\<exists>x \<in> set new. cmp x k = 0)))"
proof -
  obtain sl where new: "SkipList any_key seed = Inr sl" and "sl_rep cmp sl []"
    using SkipList_rep by metis
  from skiplist.insert_all_rep [OF this(2) _ assms] show ?thesis
    using new skiplist.has_rep by fastforce
qed

end

section \<open>Construction and insertion\<close>

text \<open>
  The constructor returns, without a fault, an empty well-formed list, whatever key the
  head node is given.
\<close>

theorem SkipList_empty: "\<exists>sl. SkipList any_key seed = Inr sl \<and> sl_rep cmp sl []"
  by (rule SkipList_rep)

text \<open>
  C38: \<open>RandomHeight\<close> returns for every random generator, its two asserts hold, and the height
  is between 1 and \<open>kMaxHeight\<close>; only the generator's state changes.
\<close>

theorem RandomHeight_bounds:
  "\<exists>h r. RandomHeight rnd_Next sl = Inr (h, sl\<lparr>sl_rnd := r\<rparr>) \<and> 1 \<le> h \<and> h \<le> kMaxHeight"
  by (rule RandomHeight_ok [of rnd_Next sl]) blast

text \<open>
  C1: inserting a key that compares equal to none in the list returns, without a fault, a
  well-formed list that holds the key at its place in the order and every old key, for any
  sequence of random heights and with or without asserts.
\<close>

theorem Insert_refines:
  assumes "comparator cmp" and "sl_rep cmp sl ks" and "\<forall>x \<in> set ks. cmp x k \<noteq> 0"
  shows "\<exists>sl'. Insert nd cmp rnd_Next sl k = Some (Inr sl') \<and> sl_rep cmp sl' (insert_key cmp k ks)"
  using comparator.Insert_rep [OF assms] .

theorem Insert_refines_witness:
  "\<exists>(sl :: (8 word list, nat) skiplist) sl'. sl_rep bytes_compare sl [[1], [3]] \<and>
     Insert False bytes_compare (\<lambda>r. (of_nat r, r + 1)) sl [2] = Some (Inr sl') \<and>
     sl_rep bytes_compare sl' [[1], [2], [3]]"
proof -
  obtain sl :: "(8 word list, nat) skiplist" where sl: "sl_rep bytes_compare sl [[1], [3]]"
    by (rule bytes_list_two)
  from Insert_refines [OF bytes.comparator_axioms this, of "[2]" False "\<lambda>r. (of_nat r, r + 1)"] sl
  show ?thesis by (auto simp: insert_key_def)
qed

text \<open>
  C12: no store of \<open>Insert\<close> exposes a broken list. Once the new node is allocated, the state
  before the linking loop, after every round of it, and between the two stores of every
  round is well formed; it holds the old keys before the first round is complete and the
  old keys with the new one from then on. The loop runs at least one round.
\<close>

theorem Insert_every_store:
  assumes "comparator cmp" and "sl_rep cmp sl ks" and "\<forall>x \<in> set ks. cmp x k \<noteq> 0"
  shows "\<exists>x prev h s. Insert_begin nd cmp rnd_Next sl k = Some (Inr (x, prev, int h, s)) \<and> 1 \<le> h \<and>
     (\<forall>m \<le> h. \<exists>s1. Insert_link m 0 s x prev = Inr s1 \<and>
        sl_rep cmp s1 (if m = 0 then ks else insert_key cmp k ks) \<and>
        (m < h \<longrightarrow> (\<exists>s2. Insert_prepare s1 x prev (int m) = Inr s2 \<and>
           sl_rep cmp s2 (if m = 0 then ks else insert_key cmp k ks))))"
  by (rule comparator.Insert_stages [OF assms, of nd rnd_Next]) blast

theorem Insert_every_store_witness:
  "\<exists>(sl :: (8 word list, nat) skiplist) x prev h s.
     Insert_begin True bytes_compare (\<lambda>r. (4, r)) sl [2] = Some (Inr (x, prev, int h, s)) \<and> 1 \<le> h \<and>
     sl_rep bytes_compare s [[1], [3]] \<and>
     (\<exists>s1. Insert_link 1 0 s x prev = Inr s1 \<and> sl_rep bytes_compare s1 [[1], [2], [3]])"
proof -
  obtain sl :: "(8 word list, nat) skiplist" where "sl_rep bytes_compare sl [[1], [3]]"
    by (rule bytes_list_two)
  from Insert_every_store [OF bytes.comparator_axioms this, of "[2]" True "\<lambda>r. (4, r)"]
  obtain x prev h s where beg: "Insert_begin True bytes_compare (\<lambda>r. (4, r)) sl [2] =
      Some (Inr (x, prev, int h, s))" "1 \<le> h"
    and st: "\<forall>m \<le> h. \<exists>s1. Insert_link m 0 s x prev = Inr s1 \<and>
        sl_rep bytes_compare s1 (if m = 0 then [[1], [3]] else insert_key bytes_compare [2] [[1], [3]])"
    by (simp del: Insert_link.simps) metis
  from st [rule_format, of 0] st [rule_format, of 1] beg show ?thesis
    by (simp add: insert_key_def del: Insert_link.simps(2)) (metis One_nat_def)
qed

text \<open>
  With asserts compiled in, inserting a key that compares equal to one in the list
  stops at the assert against duplicates and changes nothing.
\<close>

theorem Insert_duplicate_aborts:
  assumes "comparator cmp" and "sl_rep cmp sl ks" and "x \<in> set ks" and "cmp x k = 0"
  shows "Insert False cmp rnd_Next sl k = Some (Inl AssertFailed)"
  using comparator.Insert_duplicate [OF assms] .

theorem Insert_duplicate_aborts_witness:
  "\<exists>sl :: (8 word list, nat) skiplist. sl_rep bytes_compare sl [[1], [3]] \<and>
     Insert False bytes_compare (\<lambda>r. (1, r)) sl [3] = Some (Inl AssertFailed)"
proof -
  obtain sl :: "(8 word list, nat) skiplist" where sl: "sl_rep bytes_compare sl [[1], [3]]"
    by (rule bytes_list_two)
  from Insert_duplicate_aborts [OF bytes.comparator_axioms this, of "[3]" "[3]" "\<lambda>r. (1, r)"] sl
  show ?thesis by auto
qed

text \<open>
  C22: any keys of which no two compare equal, inserted in any order into a new list, give a
  sorted list of exactly these keys, and \<open>Contains\<close> then answers whether a key compares
  equal to one of them.
\<close>

theorem Insert_any_order:
  assumes "comparator cmp" and "sorted_wrt (\<lambda>x y. cmp x y \<noteq> 0) new"
  shows "\<exists>sl sl' ks. SkipList any_key seed = Inr sl \<and>
     insert_all (Insert nd cmp rnd_Next) sl new = Some (Inr sl') \<and> sl_rep cmp sl' ks \<and>
     set ks = set new \<and> sorted_wrt (\<lambda>x y. cmp x y < 0) ks \<and>
     (\<forall>k. Contains cmp sl' k = Some (Inr (\<exists>x \<in> set new. cmp x k = 0)))"
  using comparator.insert_all_new [OF assms] .

theorem Insert_any_order_witness:
  "\<exists>(sl :: (8 word list, nat) skiplist) sl' ks. SkipList [] 7 = Inr sl \<and>
     insert_all (Insert False bytes_compare (\<lambda>r. (of_nat r, r + 1))) sl [[3], [1], [1, 2]] =
       Some (Inr sl') \<and>
     sl_rep bytes_compare sl' ks \<and> set ks = {[3], [1], [1, 2]} \<and>
     Contains bytes_compare sl' [1, 2] = Some (Inr True) \<and>
     Contains bytes_compare sl' [2] = Some (Inr False)"
proof -
  have "sorted_wrt (\<lambda>x y. bytes_compare x y \<noteq> 0) [[3], [1], [1, 2]]" by simp
  from Insert_any_order [OF bytes.comparator_axioms this, of "[]" "7 :: nat" False
      "\<lambda>r. (of_nat r, r + 1)"]
  obtain sl :: "(8 word list, nat) skiplist" and sl' ks where
    "SkipList [] 7 = Inr sl" "insert_all (Insert False bytes_compare (\<lambda>r. (of_nat r, r + 1))) sl
       [[3], [1], [1, 2]] = Some (Inr sl')" "sl_rep bytes_compare sl' ks"
    "set ks = set [[3], [1], [1, 2]]"
    and has: "Contains bytes_compare sl' k =
      Some (Inr (\<exists>x \<in> set [[3], [1], [1, 2]]. bytes_compare x k = 0))" for k
    by blast
  moreover from has [of "[1, 2]"] have "Contains bytes_compare sl' [1, 2] = Some (Inr True)" by simp
  moreover from has [of "[2]"] have "Contains bytes_compare sl' [2] = Some (Inr False)" by simp
  ultimately show ?thesis
    by (intro exI [of _ sl] exI [of _ sl'] exI [of _ ks] conjI) (simp_all del: insert_all.simps)
qed

section \<open>Searching and iterating\<close>

text \<open>
  C23: \<open>FindGreaterOrEqual\<close> returns on every well-formed list, without a fault; its node is
  the first one whose key is not less than the target, and null if there is none.
\<close>

theorem FindGreaterOrEqual_first:
  assumes "comparator cmp" and "sl_rep cmp sl ks"
  shows "\<exists>node. FindGreaterOrEqual cmp sl k None = Some (Inr (node, None)) \<and>
     (case node of None \<Rightarrow> \<forall>x \<in> set ks. cmp x k < 0
      | Some a \<Rightarrow> \<exists>i < length ks. Node_key sl node = Inr (ks ! i) \<and> \<not> cmp (ks ! i) k < 0 \<and>
                   (\<forall>j < i. cmp (ks ! j) k < 0))"
proof -
  let ?P = "\<lambda>x. cmp x k < 0"
  obtain node where node: "FindGreaterOrEqual cmp sl k None = Some (Inr (node, None))"
    and at: "iter_at cmp sl ks (length (takeWhile ?P ks)) node"
    using Seek_at [OF assms, of None k] by (auto simp: prev_fits_def)
  show ?thesis
  proof (cases "length (takeWhile ?P ks) < length ks")
    case True
    have less: "?P (ks ! j)" if "j < length (takeWhile ?P ks)" for j
      using set_takeWhileD [OF nth_mem [OF that]] takeWhile_nth [OF that] by simp
    obtain a where a: "node = Some a" "Node_key sl node = Inr (ks ! length (takeWhile ?P ks))"
      using iter_at_key [OF at True] by blast
    have "\<exists>i < length ks. Node_key sl node = Inr (ks ! i) \<and> \<not> ?P (ks ! i) \<and> (\<forall>j < i. ?P (ks ! j))"
      using nth_length_takeWhile [OF True] True a(2) less
      by (intro exI [of _ "length (takeWhile ?P ks)"]) simp
    with node a(1) show ?thesis by simp
  next
    case False
    then have "take (length (takeWhile ?P ks)) ks = ks" by (intro take_all) simp
    then have "takeWhile ?P ks = ks" using takeWhile_eq_take [of ?P ks] by (simp only:)
    then have "\<forall>x \<in> set ks. ?P x" unfolding takeWhile_eq_all_conv .
    with False at node show ?thesis by (auto simp: iter_at_def)
  qed
qed

theorem FindGreaterOrEqual_first_witness:
  "\<exists>(sl :: (8 word list, nat) skiplist) node. sl_rep bytes_compare sl [[1], [3]] \<and>
     FindGreaterOrEqual bytes_compare sl [9] None = Some (Inr (node, None))"
proof -
  obtain sl :: "(8 word list, nat) skiplist" where sl: "sl_rep bytes_compare sl [[1], [3]]"
    by (rule bytes_list_two)
  from FindGreaterOrEqual_first [OF bytes.comparator_axioms this, of "[9]"] sl
  show ?thesis by blast
qed

text \<open>
  C26: \<open>Contains\<close> returns, and says whether a key of the list compares equal.
\<close>

theorem Contains_iff:
  assumes "comparator cmp" and "sl_rep cmp sl ks"
  shows "Contains cmp sl k = Some (Inr (\<exists>x \<in> set ks. cmp x k = 0))"
  using comparator.Contains_rep [OF assms] .

theorem Contains_iff_witness:
  "\<exists>sl :: (8 word list, nat) skiplist. sl_rep bytes_compare sl [[1], [3]] \<and>
     Contains bytes_compare sl [3] = Some (Inr True)"
proof -
  obtain sl :: "(8 word list, nat) skiplist" where sl: "sl_rep bytes_compare sl [[1], [3]]"
    by (rule bytes_list_two)
  from Contains_iff [OF bytes.comparator_axioms this, of "[3]"] sl show ?thesis by auto
qed

text \<open>
  C34: a forward iteration (\<open>SeekToFirst\<close>, then \<open>Next\<close> while \<open>Valid\<close>) ends, and yields
  every key exactly once, in order.
\<close>

theorem forward_iteration:
  assumes "sl_rep cmp sl ks"
  shows "\<exists>node. Iterator_SeekToFirst sl = Inr node \<and> scan sl node [] = Some (Inr ks)"
  using SeekToFirst_at [OF assms] scan_from by fastforce

theorem forward_iteration_witness:
  "\<exists>(sl :: (8 word list, nat) skiplist) node. sl_rep bytes_compare sl [[1], [3]] \<and>
     Iterator_SeekToFirst sl = Inr node \<and> scan sl node [] = Some (Inr [[1], [3]])"
proof -
  obtain sl :: "(8 word list, nat) skiplist" where sl: "sl_rep bytes_compare sl [[1], [3]]"
    by (rule bytes_list_two)
  from forward_iteration [OF this] sl show ?thesis by blast
qed

text \<open>
  \<open>SeekToLast\<close> returns, and stands on the largest key; on an empty list the iterator is
  invalid.
\<close>

theorem SeekToLast_largest:
  assumes "sl_rep cmp sl ks"
  shows "\<exists>node. Iterator_SeekToLast sl = Some (Inr node) \<and> (Iterator_Valid node \<longleftrightarrow> ks \<noteq> []) \<and>
     (ks \<noteq> [] \<longrightarrow> Iterator_key sl node = Inr (last ks))"
proof -
  obtain node where node: "Iterator_SeekToLast sl = Some (Inr node)"
    "if ks = [] then node = None else iter_at cmp sl ks (length ks - 1) node"
    using SeekToLast_at [OF assms] by blast
  then show ?thesis
    using iter_at_step(1,2) [of cmp sl ks "length ks - 1" node]
    by (cases "ks = []") (auto simp: Iterator_Valid_def last_conv_nth)
qed

theorem SeekToLast_largest_witness:
  "\<exists>(sl :: (8 word list, nat) skiplist) node. sl_rep bytes_compare sl [[1], [3]] \<and>
     Iterator_SeekToLast sl = Some (Inr node) \<and> Iterator_key sl node = Inr [3]"
proof -
  obtain sl :: "(8 word list, nat) skiplist" where sl: "sl_rep bytes_compare sl [[1], [3]]"
    by (rule bytes_list_two)
  from SeekToLast_largest [OF this] sl show ?thesis by auto
qed

text \<open>
  For a target that compares equal to no key, \<open>FindLessThan\<close> returns the last node
  before it, or the head if there is none, as its documentation says.
\<close>

theorem FindLessThan_absent:
  assumes "comparator cmp" and "sl_rep cmp sl ks" and "\<forall>x \<in> set ks. cmp x k \<noteq> 0"
  shows "\<exists>p. FindLessThan nd cmp sl k = Some (Inr p) \<and>
     (if \<exists>x \<in> set ks. cmp x k < 0
      then Node_key sl (null_if_head sl p) = Inr (last (takeWhile (\<lambda>x. cmp x k < 0) ks))
      else p = Some (sl_head sl))"
proof -
  let ?tw = "takeWhile (\<lambda>x. cmp x k < 0) ks"
  obtain p where p: "FindLessThan nd cmp sl k = Some (Inr p)"
    "if length ?tw = 0 then p = Some (sl_head sl)
     else iter_at cmp sl ks (length ?tw - 1) (null_if_head sl p)"
    using comparator.FindLessThan_no_equal [OF assms, of nd] by blast
  show ?thesis
  proof (cases "?tw = []")
    case True
    have "\<not> cmp x k < 0" if "x \<in> set ks" for x
      using sorted_wrt_takeWhile_all [OF comparator.sl_rep_sorted [OF assms(1,2)], of x "\<lambda>x. cmp x k < 0"]
        that True comparator.cmp_less_trans [OF assms(1)]
      by (metis append_Nil takeWhile_dropWhile_id)
    with p True show ?thesis by auto
  next
    case False
    then have "\<exists>x \<in> set ks. cmp x k < 0" by (cases ks) (auto split: if_splits)
    moreover have "length ?tw - 1 < length ?tw" using False by simp
    then have len: "length ?tw - 1 < length ks" and "last ?tw = ks ! (length ?tw - 1)"
      using length_takeWhile_le [of "\<lambda>x. cmp x k < 0" ks] takeWhile_nth last_conv_nth [OF False]
      by (linarith, metis)
    ultimately show ?thesis using p False iter_at_key [OF _ len, of cmp sl "null_if_head sl p"] by auto
  qed
qed

theorem FindLessThan_absent_witness:
  "\<exists>(sl :: (8 word list, nat) skiplist) p. sl_rep bytes_compare sl [[1], [3]] \<and>
     FindLessThan False bytes_compare sl [2] = Some (Inr p) \<and>
     Node_key sl (null_if_head sl p) = Inr [1]"
proof -
  obtain sl :: "(8 word list, nat) skiplist" where sl: "sl_rep bytes_compare sl [[1], [3]]"
    by (rule bytes_list_two)
  from FindLessThan_absent [OF bytes.comparator_axioms this, of "[2]" False] sl show ?thesis by auto
qed

text \<open>
  C27: \<open>Prev\<close> never moves an iterator that stands on a key. The loop of \<open>FindLessThan\<close>
  goes on while the next key is not greater than the target, so with the asserts compiled
  out it comes back to the node it was asked about, and with them it stops at the assert at
  the top of the loop.
\<close>

theorem Prev_does_not_move:
  assumes "comparator cmp" and "iter_at cmp sl ks i node" and "i < length ks"
  shows "Iterator_Prev True cmp sl node = Some (Inr node) \<and>
         Iterator_Prev False cmp sl node = Some (Inl AssertFailed)"
  using comparator.FindLessThan_at_equal [OF assms] iter_at_step(2) [OF assms(2,3)]
  by (simp add: Iterator_Prev_def)

theorem Prev_does_not_move_witness:
  "\<exists>(sl :: (8 word list, nat) skiplist) node. Iterator_SeekToLast sl = Some (Inr node) \<and>
     Iterator_key sl node = Inr [3] \<and> Iterator_Prev True bytes_compare sl node = Some (Inr node)"
proof -
  obtain sl :: "(8 word list, nat) skiplist" where sl: "sl_rep bytes_compare sl [[1], [3]]"
    by (rule bytes_list_two)
  obtain node where node: "Iterator_SeekToLast sl = Some (Inr node)"
    "iter_at bytes_compare sl [[1], [3]] 1 node"
    using SeekToLast_at [OF sl] by auto
  from Prev_does_not_move [OF bytes.comparator_axioms node(2)] iter_at_step(2) [OF node(2)] node(1)
  show ?thesis by auto
qed

end
