(* ===== verification/SkipListReaders.thy ===== *)
theory SkipListReaders
  imports SkipListConcurrent SkipListProps
begin

text \<open>
  Properties of a search that runs beside inserts (\<open>SkipListConcurrent\<close>), with an instance: a
  reader has started on a list of two keys and an insert has begun.
\<close>

text \<open>
  C5: a search that runs beside inserts is linearizable. Whatever stores of inserts fall between its
  loads, no load of the search faults, and when it returns, it returns what
  \<open>FindGreaterOrEqual\<close> returns when run in one go on the list as it is at the last load; the list is
  well formed then and still holds every key it held when the run began.
\<close>

theorem reader_linearizable:
  assumes "comparator cmp" and "creach nd cmp rnd_Next k ks s" and "cs_reader s = R_at x level"
  shows "(\<forall>e. FindGreaterOrEqual_round cmp (cs_list s) k x level \<noteq> R_fault e) \<and>
     (\<forall>q. FindGreaterOrEqual_round cmp (cs_list s) k x level = R_done q \<longrightarrow>
        FindGreaterOrEqual cmp (cs_list s) k None = Some (Inr (q, None))) \<and>
     (\<exists>ks'. sl_rep cmp (cs_list s) ks' \<and> set ks \<subseteq> set ks')"
  using comparator.reader_facts [OF assms] by blast

text \<open>
  C24: a search beside inserts terminates when it runs alone. From every state the two can reach, the
  reader returns after at most as many rounds as its level, plus one, plus the number of keys before
  its target, whatever the insert it interrupted has left half done.
\<close>

theorem reader_finishes:
  assumes "comparator cmp" and "creach nd cmp rnd_Next k ks s" and "cs_reader s = R_at x level"
  shows "\<exists>ks' n q. sl_rep cmp (cs_list s) ks' \<and>
     n \<le> Suc (nat level + length (filter (\<lambda>y. cmp y k < 0) ks')) \<and>
     reader_alone cmp (cs_list s) k n (R_at x level) = R_done q"
  using comparator.reader_facts [OF assms] by blast

text \<open>The instance.\<close>

lemma example_run:
  obtains s :: "(8 word list, nat) csys" where
    "creach False bytes_compare (\<lambda>r. (of_nat r, r + 1)) [3] [[1], [3]] s"
    "cs_reader s = R_at (Some (sl_head (cs_list s))) 0" "cs_writer s \<noteq> W_idle"
proof -
  let ?rn = "\<lambda>r :: nat. (of_nat r :: u32, r + 1)"
  obtain sl :: "(8 word list, nat) skiplist" where sl: "sl_rep bytes_compare sl [[1], [3]]"
    by (rule bytes_list_two)
  define s0 where "s0 = \<lparr>cs_list = sl, cs_writer = W_idle, cs_reader = R_idle\<rparr>"
  have "creach False bytes_compare ?rn [3] [[1], [3]] s0"
    by (rule creach.init) (simp_all add: s0_def sl)
  moreover obtain L where ok: "sl_ok bytes_compare sl L" and L: "map (key_at sl) (L 0) = [[1], [3]]"
    using sl by (auto simp: sl_rep_def)
  have c: "Contains bytes_compare sl [2] = Some (Inr False)"
    using bytes.Contains_rep [OF sl, of "[2]"] by simp
  have fresh: "\<forall>x \<in> set [[1], [3]]. bytes_compare x [2] \<noteq> 0" by simp
  obtain x prev h s where
    b: "Insert_begin False bytes_compare ?rn sl [2] = Some (Inr (x, prev, int h, s))"
    by (rule bytes.Insert_stages [OF sl fresh, of False ?rn]) (erule that)
  define s1 where "s1 = s0\<lparr>cs_list := s, cs_writer := W_prepare x prev 0 (nat (int h))\<rparr>"
  have "cstep False bytes_compare ?rn [3] s0 s1"
    unfolding s1_def by (rule cstep.insert_begin) (use c b in \<open>simp_all add: s0_def\<close>)
  ultimately have r1: "creach False bytes_compare ?rn [3] [[1], [3]] s1" by (rule creach.step)
  have "1 \<le> GetMaxHeight s"
    using bytes.begin_grows(2) [OF ok c b] sl_ok_height(1) by (auto simp: GetMaxHeight_def)
  then have "cstep False bytes_compare ?rn [3] s1 (s1\<lparr>cs_reader := R_at (Some (sl_head (cs_list s1))) (1 - 1)\<rparr>)"
    by (intro cstep.start) (simp_all add: s1_def s0_def)
  with r1 have "creach False bytes_compare ?rn [3] [[1], [3]]
      (s1\<lparr>cs_reader := R_at (Some (sl_head (cs_list s1))) (1 - 1)\<rparr>)" by (rule creach.step)
  then show ?thesis by (rule that) (simp_all add: s1_def)
qed

theorem reader_linearizable_witness:
  "\<exists>s :: (8 word list, nat) csys. cs_writer s \<noteq> W_idle \<and>
     (\<forall>e. FindGreaterOrEqual_round bytes_compare (cs_list s) [3] (Some (sl_head (cs_list s))) 0 \<noteq> R_fault e) \<and>
     (\<exists>ks'. sl_rep bytes_compare (cs_list s) ks' \<and> {[1], [3]} \<subseteq> set ks')"
proof -
  obtain s :: "(8 word list, nat) csys" where
    s: "creach False bytes_compare (\<lambda>r. (of_nat r, r + 1)) [3] [[1], [3]] s"
    "cs_reader s = R_at (Some (sl_head (cs_list s))) 0" "cs_writer s \<noteq> W_idle"
    by (rule example_run)
  from reader_linearizable [OF bytes.comparator_axioms s(1,2)] s(3) show ?thesis by auto
qed

theorem reader_finishes_witness:
  "\<exists>(s :: (8 word list, nat) csys) ks' n q. sl_rep bytes_compare (cs_list s) ks' \<and>
     n \<le> Suc (length (filter (\<lambda>y. bytes_compare y [3] < 0) ks')) \<and>
     reader_alone bytes_compare (cs_list s) [3] n (R_at (Some (sl_head (cs_list s))) 0) = R_done q"
proof -
  obtain s :: "(8 word list, nat) csys" where
    s: "creach False bytes_compare (\<lambda>r. (of_nat r, r + 1)) [3] [[1], [3]] s"
    "cs_reader s = R_at (Some (sl_head (cs_list s))) 0"
    by (rule example_run)
  from reader_finishes [OF bytes.comparator_axioms s] show ?thesis by auto
qed

end
