(* ===== verification/Status.thy ===== *)
theory Status
  imports LdbPrelude
begin

text \<open>
  Statuses and slices: \<open>include/leveldb/status.h\<close> and \<open>include/leveldb/slice.h\<close>.

  A \<open>Slice\<close>, like a \<open>std::string\<close>, is the list of its bytes. The constructor of \<open>Status\<close>
  from a code and two messages is not in the repository, so a status is kept as the call
  that built it. \<open>Status::ok\<close> is a stub that returns true for every status. The
  operations of the other components therefore take the predicate they call for \<open>s.ok()\<close> as
  an argument \<open>ok\<close>: the code at this commit is the instance \<open>ok = Status_ok\<close>, and the
  instance \<open>ok = Status_is_default\<close> is what the comments of \<open>db.h\<close> and \<open>table.h\<close> describe
  ("return OK on success, and a non-OK status on error").
\<close>

type_synonym slice = string

datatype code = kNotFound | kCorruption | kNotSupported | kInvalidArgument | kIOError

datatype status = Status_default | Status code slice slice

definition Status_OK :: status where
  "Status_OK = Status_default"

definition Status_ok :: "status \<Rightarrow> bool" where
  "Status_ok s = True"

definition Status_NotFound :: "slice \<Rightarrow> slice \<Rightarrow> status" where
  "Status_NotFound msg msg2 = Status kNotFound msg msg2"

definition Status_Corruption :: "slice \<Rightarrow> slice \<Rightarrow> status" where
  "Status_Corruption msg msg2 = Status kCorruption msg msg2"

definition Status_NotSupported :: "slice \<Rightarrow> slice \<Rightarrow> status" where
  "Status_NotSupported msg msg2 = Status kNotSupported msg msg2"

definition Status_InvalidArgument :: "slice \<Rightarrow> slice \<Rightarrow> status" where
  "Status_InvalidArgument msg msg2 = Status kInvalidArgument msg msg2"

definition Status_IOError :: "slice \<Rightarrow> slice \<Rightarrow> status" where
  "Status_IOError msg msg2 = Status kIOError msg msg2"

definition Status_is_default :: "status \<Rightarrow> bool" where
  "Status_is_default s \<longleftrightarrow> s = Status_default"

definition Slice_empty :: slice where
  "Slice_empty = ''''"

definition Slice_of_string :: "string \<Rightarrow> slice" where
  "Slice_of_string s = s"

text \<open>\<open>start_with\<close> and \<open>remove_prefix\<close> are the members of \<open>Slice\<close> the file names use.\<close>

definition start_with :: "slice \<Rightarrow> slice \<Rightarrow> bool" where
  "start_with s p \<longleftrightarrow> take (length p) s = p"

definition remove_prefix :: "slice \<Rightarrow> nat \<Rightarrow> slice" where
  "remove_prefix s n = drop n s"

lemma Status_is_default_simps [simp]:
  "Status_is_default Status_OK"
  "\<not> Status_is_default (Status_NotFound a b)"
  "\<not> Status_is_default (Status_Corruption a b)"
  "\<not> Status_is_default (Status_NotSupported a b)"
  "\<not> Status_is_default (Status_InvalidArgument a b)"
  "\<not> Status_is_default (Status_IOError a b)"
  by (simp_all add: Status_is_default_def Status_OK_def Status_NotFound_def Status_Corruption_def
      Status_NotSupported_def Status_InvalidArgument_def Status_IOError_def)

lemma Status_ok_simp [simp]: "Status_ok s"
  by (simp add: Status_ok_def)

text \<open>
  At this commit no status is an error to its caller: \<open>ok()\<close> holds also for the statuses
  the error constructors build, which differ from \<open>OK()\<close>.
\<close>

lemma Status_ok_constant:
  "Status_ok s \<and> Status_ok (Status_IOError a b) \<and> Status_IOError a b \<noteq> Status_OK \<and>
   Status_ok (Status_NotFound a b) \<and> Status_NotFound a b \<noteq> Status_OK \<and>
   Status_ok (Status_Corruption a b) \<and> Status_Corruption a b \<noteq> Status_OK"
  by (simp add: Status_OK_def Status_IOError_def Status_NotFound_def Status_Corruption_def)

end
