(* ===== verification/Dbformat.thy ===== *)
theory Dbformat
  imports Status
begin

text \<open>
  Internal keys: \<open>db/dbformat.h\<close>. An \<open>InternalKey\<close> is its \<open>rep_\<close>. \<open>AppendInternalKey\<close>,
  \<open>ParsedInternalKey\<close> and \<open>ExtractUserKey\<close> are not in the repository and are arguments.
\<close>

type_synonym ikey = string

definition kMaxSequenceNumber :: u64 where
  "kMaxSequenceNumber = push_bit 56 1 - 1"

definition InternalKey_default :: ikey where
  "InternalKey_default = ''''"

definition InternalKey ::
  "(string \<Rightarrow> 'p \<Rightarrow> string) \<Rightarrow> (slice \<Rightarrow> u64 \<Rightarrow> 'v \<Rightarrow> 'p) \<Rightarrow> slice \<Rightarrow> u64 \<Rightarrow> 'v \<Rightarrow> ikey" where
  "InternalKey AppendInternalKey ParsedInternalKey user_key s t =
     AppendInternalKey InternalKey_default (ParsedInternalKey user_key s t)"

definition InternalKey_DecodeFrom :: "slice \<Rightarrow> bool \<times> ikey" where
  "InternalKey_DecodeFrom s = (s \<noteq> '''', s)"

definition InternalKey_Encode :: "ikey \<Rightarrow> slice outcome" where
  "InternalKey_Encode rep = obind (cpp_assert (rep \<noteq> '''')) (\<lambda>_. Inr rep)"

definition InternalKey_user_key :: "(slice \<Rightarrow> slice) \<Rightarrow> ikey \<Rightarrow> slice" where
  "InternalKey_user_key ExtractUserKey rep = ExtractUserKey rep"

definition InternalKey_SetFrom :: "(string \<Rightarrow> 'p \<Rightarrow> string) \<Rightarrow> 'p \<Rightarrow> ikey \<Rightarrow> ikey" where
  "InternalKey_SetFrom AppendInternalKey p rep = AppendInternalKey '''' p"

definition InternalKey_Clear :: "ikey \<Rightarrow> ikey" where
  "InternalKey_Clear rep = ''''"

lemma decode_encode: "InternalKey_DecodeFrom s = (b, k) \<Longrightarrow> b \<Longrightarrow> InternalKey_Encode k = Inr s"
  by (auto simp: InternalKey_DecodeFrom_def InternalKey_Encode_def cpp_assert_def)

end
