(* ===== verification/VersionEdit.thy ===== *)
theory VersionEdit
  imports Dbformat
begin

text \<open>
  Version edits: \<open>db/version_edit.h\<close> and \<open>db/version_edit.cc\<close>. \<open>std::set<std::pair<int,
  uint64_t>>\<close> is the list of its elements in order. \<open>EncodeTo\<close> and \<open>DecodeFrom\<close> have empty
  bodies at this commit.
\<close>

section \<open>File metadata\<close>

record fmeta =
  fm_refs :: int
  fm_allowed_seeks :: int
  fm_number :: u64
  fm_file_size :: u64
  fm_smallest :: ikey
  fm_largest :: ikey

text \<open>The constructor leaves \<open>number\<close> uninitialised: \<open>garbage\<close> is what it happens to be.\<close>

definition FileMetaData :: "u64 \<Rightarrow> fmeta" where
  "FileMetaData garbage =
     \<lparr>fm_refs = 0, fm_allowed_seeks = 2 ^ 30, fm_number = garbage, fm_file_size = 0,
      fm_smallest = InternalKey_default, fm_largest = InternalKey_default\<rparr>"

section \<open>Edits\<close>

text \<open>The tags of the fields of an encoded edit.\<close>

datatype tag = kComparator | kLogNumber | kNextFileNumber | kLastSequence | kCompactPointer |
  kDeleteFile | kNewFile | kPrevLogNumber

fun tag_value :: "tag \<Rightarrow> nat" where
  "tag_value kComparator = 1"
| "tag_value kLogNumber = 2"
| "tag_value kNextFileNumber = 3"
| "tag_value kLastSequence = 4"
| "tag_value kCompactPointer = 5"
| "tag_value kDeleteFile = 6"
| "tag_value kNewFile = 7"
| "tag_value kPrevLogNumber = 9"

record version_edit =
  ve_comparator :: string
  ve_log_number :: u64
  ve_prev_log_number :: u64
  ve_next_file_number :: u64
  ve_last_sequence :: u64
  ve_has_comparator :: bool
  ve_has_log_number :: bool
  ve_has_prev_log_number :: bool
  ve_has_next_file_number :: bool
  ve_has_last_sequence :: bool
  ve_compact_pointers :: "(int \<times> ikey) list"
  ve_deleted_files :: "(int \<times> u64) list"
  ve_new_files :: "(int \<times> fmeta) list"

definition VersionEdit_Clear :: "version_edit \<Rightarrow> version_edit" where
  "VersionEdit_Clear e = e\<lparr>
     ve_comparator := '''', ve_log_number := 0, ve_prev_log_number := 0,
     ve_last_sequence := 0, ve_next_file_number := 0,
     ve_has_last_sequence := False, ve_has_log_number := False,
     ve_has_prev_log_number := False, ve_has_next_file_number := False,
     ve_has_comparator := False, ve_deleted_files := [], ve_new_files := []\<rparr>"

text \<open>
  The constructor: the containers and the string start empty, the numbers and flags
  uninitialised, and \<open>Clear\<close> sets them all.
\<close>

definition VersionEdit :: version_edit where
  "VersionEdit = VersionEdit_Clear
     \<lparr>ve_comparator = '''', ve_log_number = 0, ve_prev_log_number = 0, ve_next_file_number = 0,
      ve_last_sequence = 0, ve_has_comparator = False, ve_has_log_number = False,
      ve_has_prev_log_number = False, ve_has_next_file_number = False,
      ve_has_last_sequence = False, ve_compact_pointers = [], ve_deleted_files = [],
      ve_new_files = []\<rparr>"

definition SetComparatorName :: "slice \<Rightarrow> version_edit \<Rightarrow> version_edit" where
  "SetComparatorName name e = e\<lparr>ve_has_comparator := True, ve_comparator := name\<rparr>"

definition SetLogNumber :: "u64 \<Rightarrow> version_edit \<Rightarrow> version_edit" where
  "SetLogNumber num e = e\<lparr>ve_has_log_number := True, ve_log_number := num\<rparr>"

definition SetPrevLogNumber :: "u64 \<Rightarrow> version_edit \<Rightarrow> version_edit" where
  "SetPrevLogNumber num e = e\<lparr>ve_has_prev_log_number := True, ve_prev_log_number := num\<rparr>"

definition SetNextFile :: "u64 \<Rightarrow> version_edit \<Rightarrow> version_edit" where
  "SetNextFile num e = e\<lparr>ve_has_next_file_number := True, ve_next_file_number := num\<rparr>"

definition SetLastSequence :: "u64 \<Rightarrow> version_edit \<Rightarrow> version_edit" where
  "SetLastSequence seq e = e\<lparr>ve_has_last_sequence := True, ve_last_sequence := seq\<rparr>"

definition SetCompactPointer :: "int \<Rightarrow> ikey \<Rightarrow> version_edit \<Rightarrow> version_edit" where
  "SetCompactPointer level k e = e\<lparr>ve_compact_pointers := ve_compact_pointers e @ [(level, k)]\<rparr>"

definition AddFile ::
  "u64 \<Rightarrow> int \<Rightarrow> u64 \<Rightarrow> u64 \<Rightarrow> ikey \<Rightarrow> ikey \<Rightarrow> version_edit \<Rightarrow> version_edit" where
  "AddFile garbage level file file_size smallest largest e =
     (let f = (FileMetaData garbage)\<lparr>fm_number := file, fm_file_size := file_size,
                fm_smallest := smallest, fm_largest := largest\<rparr>
      in e\<lparr>ve_new_files := ve_new_files e @ [(level, f)]\<rparr>)"

text \<open>The order of \<open>std::pair<int, uint64_t>\<close>.\<close>

fun pair_less :: "int \<times> u64 \<Rightarrow> int \<times> u64 \<Rightarrow> bool" where
  "pair_less (l, n) (l', n') \<longleftrightarrow> l < l' \<or> (\<not> l' < l \<and> n < n')"

definition RemoveFile :: "int \<Rightarrow> u64 \<Rightarrow> version_edit \<Rightarrow> version_edit" where
  "RemoveFile level file e =
     e\<lparr>ve_deleted_files := set_insert pair_less (level, file) (ve_deleted_files e)\<rparr>"

definition VersionEdit_EncodeTo :: "version_edit \<Rightarrow> string \<Rightarrow> string" where
  "VersionEdit_EncodeTo e dst = dst"

definition VersionEdit_DecodeFrom :: "slice \<Rightarrow> version_edit \<Rightarrow> version_edit" where
  "VersionEdit_DecodeFrom src e = e"

section \<open>Lemmas\<close>

interpretation pair_order: weak_order pair_less
proof
  show "\<not> pair_less a a" for a by (cases a) simp
  show "pair_less a b \<Longrightarrow> pair_less b c \<Longrightarrow> pair_less a c" for a b c
    by (cases a; cases b; cases c) auto
  show "\<not> pair_less a b \<Longrightarrow> \<not> pair_less b c \<Longrightarrow> \<not> pair_less a c" for a b c
    by (cases a; cases b; cases c) auto
qed

lemma pair_less_total: "\<not> pair_less p q \<Longrightarrow> \<not> pair_less q p \<Longrightarrow> p = q"
proof (cases p; cases q)
  fix l n l' n'
  assume "p = (l, n)" "q = (l', n')" "\<not> pair_less p q" "\<not> pair_less q p"
  then show "p = q" by (simp add: not_less) (metis antisym)
qed

lemma set_RemoveFile [simp]:
  "set (ve_deleted_files (RemoveFile level file e)) =
     insert (level, file) (set (ve_deleted_files e))"
proof
  show "set (ve_deleted_files (RemoveFile level file e)) \<subseteq>
      insert (level, file) (set (ve_deleted_files e))"
    using set_set_insert_subset by (simp add: RemoveFile_def)
  have "(level, file) \<in> set (set_insert pair_less (level, file) (ve_deleted_files e))"
    using set_insert_has [of "(level, file)" pair_less "ve_deleted_files e"]
      set_insert_keeps [of "ve_deleted_files e" pair_less "(level, file)"] pair_less_total by blast
  then show "insert (level, file) (set (ve_deleted_files e)) \<subseteq>
      set (ve_deleted_files (RemoveFile level file e))"
    using set_insert_keeps [of "ve_deleted_files e" pair_less "(level, file)"]
    by (simp add: RemoveFile_def)
qed

end
