(* ===== verification/VersionStore.thy ===== *)
theory VersionStore
  imports VersionEdit
begin

text \<open>
  The objects the version code shares by pointer: \<open>FileMetaData\<close>, \<open>Version\<close> and the data
  members of \<open>VersionSet\<close> (\<open>db/version_set.h\<close>). A pointer is an address of a store, which is
  undefined where nothing lives; reading there is the fault \<open>BadAddress\<close>. Arrays indexed by a
  level are lists of \<open>config::kNumLevels\<close> elements, and an index outside is \<open>OutOfBounds\<close>.
  The scores of a version are doubles, the type \<open>'d\<close>.
\<close>

section \<open>Arrays indexed by a level\<close>

definition at_level :: "int \<Rightarrow> 'a list \<Rightarrow> 'a outcome" where
  "at_level l xs = (if 0 \<le> l \<and> nat l < length xs then Inr (xs ! nat l) else Inl OutOfBounds)"

definition set_level :: "int \<Rightarrow> 'a \<Rightarrow> 'a list \<Rightarrow> 'a list outcome" where
  "set_level l x xs = (if 0 \<le> l \<and> nat l < length xs then Inr (xs[nat l := x]) else Inl OutOfBounds)"

lemma at_level_nat [simp]: "i < length xs \<Longrightarrow> at_level (int i) xs = Inr (xs ! i)"
  by (simp add: at_level_def)

lemma set_level_nat [simp]: "i < length xs \<Longrightarrow> set_level (int i) x xs = Inr (xs[i := x])"
  by (simp add: set_level_def)

section \<open>File metadata by pointer\<close>

record fstore =
  fs_at :: "nat \<Rightarrow> fmeta option"
  fs_next :: nat

definition new_file :: "fmeta \<Rightarrow> fstore \<Rightarrow> nat \<times> fstore" where
  "new_file f fs =
     (fs_next fs, fs\<lparr>fs_at := (fs_at fs)(fs_next fs \<mapsto> f), fs_next := Suc (fs_next fs)\<rparr>)"

definition deref :: "fstore \<Rightarrow> nat \<Rightarrow> fmeta outcome" where
  "deref fs p = (case fs_at fs p of None \<Rightarrow> Inl BadAddress | Some f \<Rightarrow> Inr f)"

definition store_file :: "nat \<Rightarrow> fmeta \<Rightarrow> fstore \<Rightarrow> fstore" where
  "store_file p f fs = fs\<lparr>fs_at := (fs_at fs)(p \<mapsto> f)\<rparr>"

definition free_file :: "nat \<Rightarrow> fstore \<Rightarrow> fstore" where
  "free_file p fs = fs\<lparr>fs_at := (fs_at fs)(p := None)\<rparr>"

definition live :: "fstore \<Rightarrow> nat \<Rightarrow> bool" where
  "live fs p \<longleftrightarrow> fs_at fs p \<noteq> None"

abbreviation fm :: "fstore \<Rightarrow> nat \<Rightarrow> fmeta" where
  "fm fs p \<equiv> the (fs_at fs p)"

text \<open>Every address in use is below the next one handed out.\<close>

definition store_ok :: "fstore \<Rightarrow> bool" where
  "store_ok fs \<longleftrightarrow> (\<forall>p. live fs p \<longrightarrow> p < fs_next fs)"

lemma deref_live [simp]: "live fs p \<Longrightarrow> deref fs p = Inr (fm fs p)"
  by (auto simp: deref_def live_def)

lemma deref_Some [simp]: "fs_at fs p = Some f \<Longrightarrow> deref fs p = Inr f"
  by (simp add: deref_def)

lemma store_file_simps [simp]:
  "fs_at (store_file p f fs) = (fs_at fs)(p \<mapsto> f)"
  "fs_next (store_file p f fs) = fs_next fs"
  by (simp_all add: store_file_def)

lemma store_okD: "store_ok fs \<Longrightarrow> fs_at fs p = Some f \<Longrightarrow> p < fs_next fs"
  by (auto simp: store_ok_def live_def)

lemma store_ok_fresh: "store_ok fs \<Longrightarrow> fs_at fs (fs_next fs) = None"
  by (auto simp: store_ok_def live_def)

section \<open>Versions\<close>

record 'd version =
  v_next :: nat
  v_prev :: nat
  v_refs :: int
  v_files :: "nat list list"
  v_file_to_compact :: "nat option"
  v_file_to_compact_level :: int
  v_compaction_score :: 'd
  v_compaction_level :: int

text \<open>The constructor of a \<open>Version\<close> that lives at address \<open>self\<close>; \<open>neg1\<close> is the double -1.\<close>

definition Version :: "nat \<Rightarrow> 'd \<Rightarrow> nat \<Rightarrow> 'd version" where
  "Version kNumLevels neg1 self =
     \<lparr>v_next = self, v_prev = self, v_refs = 0, v_files = replicate kNumLevels [],
      v_file_to_compact = None, v_file_to_compact_level = -1,
      v_compaction_score = neg1, v_compaction_level = -1\<rparr>"

definition NumFiles :: "'d version \<Rightarrow> int \<Rightarrow> nat outcome" where
  "NumFiles v level = obind (at_level level (v_files v)) (\<lambda>fs. Inr (length fs))"

text \<open>
  The data members of \<open>VersionSet\<close> that its operations change, with the two stores they
  live in. \<open>dummy_versions_\<close> is the version at the address \<open>vs_dummy\<close>.
\<close>

record 'd vset =
  vs_files :: fstore
  vs_versions :: "nat \<Rightarrow> 'd version option"
  vs_next_version :: nat
  vs_next_file_number :: u64
  vs_manifest_file_number :: u64
  vs_last_sequence :: u64
  vs_log_number :: u64
  vs_prev_log_number :: u64
  vs_descriptor_file :: "nat option"
  vs_descriptor_log :: "nat option"
  vs_dummy :: nat
  vs_current :: "nat option"
  vs_compact_pointer :: "string list"

definition deref_version :: "'d vset \<Rightarrow> nat \<Rightarrow> 'd version outcome" where
  "deref_version vs a = (case vs_versions vs a of None \<Rightarrow> Inl BadAddress | Some v \<Rightarrow> Inr v)"

definition store_version :: "nat \<Rightarrow> 'd version \<Rightarrow> 'd vset \<Rightarrow> 'd vset" where
  "store_version a v vs = vs\<lparr>vs_versions := (vs_versions vs)(a \<mapsto> v)\<rparr>"

definition new_version :: "nat \<Rightarrow> 'd \<Rightarrow> 'd vset \<Rightarrow> nat \<times> 'd vset" where
  "new_version kNumLevels neg1 vs =
     (let a = vs_next_version vs
      in (a, (store_version a (Version kNumLevels neg1 a) vs)\<lparr>vs_next_version := Suc a\<rparr>))"

definition NewFileNumber :: "'d vset \<Rightarrow> u64 \<times> 'd vset" where
  "NewFileNumber vs =
     (vs_next_file_number vs, vs\<lparr>vs_next_file_number := vs_next_file_number vs + 1\<rparr>)"

lemma deref_version_live [simp]: "vs_versions vs a = Some v \<Longrightarrow> deref_version vs a = Inr v"
  by (simp add: deref_version_def)

lemma store_version_simps [simp]:
  "vs_versions (store_version a v vs) = (vs_versions vs)(a \<mapsto> v)"
  "vs_files (store_version a v vs) = vs_files vs"
  by (simp_all add: store_version_def)

end
