(* ===== verification/VersionBuilder.thy ===== *)
theory VersionBuilder
  imports VersionStore
begin

text \<open>
  \<open>VersionSet::Builder\<close> of \<open>db/version_set.cc\<close>: edits are gathered per level and merged with
  the files of the base version. \<open>icmp\<close> is \<open>InternalKeyComparator::Compare\<close>; \<open>Ref\<close> and
  \<open>Unref\<close> are \<open>Version::Ref\<close> and \<open>Version::Unref\<close>, declared but not defined in the
  repository. A \<open>FileSet\<close> is the list of its pointers in order.
\<close>

section \<open>The builder\<close>

definition BySmallestKey :: "(ikey \<Rightarrow> ikey \<Rightarrow> int) \<Rightarrow> fstore \<Rightarrow> nat \<Rightarrow> nat \<Rightarrow> bool" where
  "BySmallestKey icmp fs f1 f2 =
     (let r = icmp (fm_smallest (fm fs f1)) (fm_smallest (fm fs f2))
      in if r \<noteq> 0 then r < 0 else fm_number (fm fs f1) < fm_number (fm fs f2))"

record level_state =
  ls_deleted :: "u64 set"
  ls_added :: "nat list"

record builder =
  bd_base :: nat
  bd_levels :: "level_state list"

definition Builder ::
  "(nat \<Rightarrow> 'd vset \<Rightarrow> 'd vset outcome) \<Rightarrow> nat \<Rightarrow> nat \<Rightarrow> 'd vset \<Rightarrow> (builder \<times> 'd vset) outcome" where
  "Builder Ref kNumLevels base vs =
     obind (Ref base vs) (\<lambda>vs.
       Inr (\<lparr>bd_base = base,
             bd_levels = replicate kNumLevels \<lparr>ls_deleted = {}, ls_added = []\<rparr>\<rparr>, vs))"

section \<open>Apply\<close>

definition Apply_compact_pointer :: "int \<times> ikey \<Rightarrow> string list \<Rightarrow> string list outcome" where
  "Apply_compact_pointer e cps =
     obind (InternalKey_Encode (snd e)) (\<lambda>s. set_level (fst e) s cps)"

definition Apply_deleted :: "int \<times> u64 \<Rightarrow> level_state list \<Rightarrow> level_state list outcome" where
  "Apply_deleted e levels =
     obind (at_level (fst e) levels) (\<lambda>st.
       set_level (fst e) (st\<lparr>ls_deleted := insert (snd e) (ls_deleted st)\<rparr>) levels)"

text \<open>\<open>static_cast<int>\<close> of a 64-bit value keeps its low 32 bits.\<close>

definition seeks_of_size :: "u64 \<Rightarrow> int" where
  "seeks_of_size file_size =
     (let n = sint (ucast (file_size div 16384) :: 32 word) in if n < 100 then 100 else n)"

definition Apply_new ::
  "(ikey \<Rightarrow> ikey \<Rightarrow> int) \<Rightarrow> int \<times> fmeta \<Rightarrow> level_state list \<times> fstore
   \<Rightarrow> (level_state list \<times> fstore) outcome" where
  "Apply_new icmp e s =
     (case s of (levels, fs) \<Rightarrow>
      (let level = fst e;
           f = (snd e)\<lparr>fm_refs := 1, fm_allowed_seeks := seeks_of_size (fm_file_size (snd e))\<rparr>;
           (p, fs) = new_file f fs
       in obind (at_level level levels) (\<lambda>st.
            obind (set_level level
                (st\<lparr>ls_deleted := ls_deleted st - {fm_number f},
                    ls_added := set_insert (BySmallestKey icmp fs) p (ls_added st)\<rparr>) levels)
              (\<lambda>levels. Inr (levels, fs)))))"

definition Apply ::
  "(ikey \<Rightarrow> ikey \<Rightarrow> int) \<Rightarrow> version_edit \<Rightarrow> builder \<times> 'd vset \<Rightarrow> (builder \<times> 'd vset) outcome" where
  "Apply icmp edit s =
     (case s of (b, vs) \<Rightarrow>
      obind (ofold Apply_compact_pointer (ve_compact_pointers edit) (vs_compact_pointer vs)) (\<lambda>cps.
      obind (ofold Apply_deleted (ve_deleted_files edit) (bd_levels b)) (\<lambda>levels.
      obind (ofold (Apply_new icmp) (ve_new_files edit) (levels, vs_files vs)) (\<lambda>(levels, fs).
        Inr (b\<lparr>bd_levels := levels\<rparr>, vs\<lparr>vs_compact_pointer := cps, vs_files := fs\<rparr>)))))"

section \<open>SaveTo\<close>

definition MaybeAddFile ::
  "(ikey \<Rightarrow> ikey \<Rightarrow> int) \<Rightarrow> builder \<Rightarrow> nat \<Rightarrow> int \<Rightarrow> nat \<Rightarrow> 'd vset \<Rightarrow> 'd vset outcome" where
  "MaybeAddFile icmp b v level p vs =
     obind (at_level level (bd_levels b)) (\<lambda>st.
     obind (deref (vs_files vs) p) (\<lambda>f.
     if fm_number f \<in> ls_deleted st then Inr vs
     else
       obind (deref_version vs v) (\<lambda>ver.
       obind (at_level level (v_files ver)) (\<lambda>files.
       obind
         (if level > 0 \<and> files \<noteq> [] then
            obind (deref (vs_files vs) (last files)) (\<lambda>g.
              cpp_assert (icmp (fm_largest g) (fm_smallest f) < 0))
          else Inr ()) (\<lambda>_.
       obind (set_level level (files @ [p]) (v_files ver)) (\<lambda>levels.
         Inr ((store_version v (ver\<lparr>v_files := levels\<rparr>) vs)
                \<lparr>vs_files := store_file p (f\<lparr>fm_refs := fm_refs f + 1\<rparr>) (vs_files vs)\<rparr>)))))))"

text \<open>The walk over one level: \<open>base\<close> holds the files from \<open>base_iter\<close> to \<open>base_end\<close>.\<close>

fun SaveTo_added ::
  "(ikey \<Rightarrow> ikey \<Rightarrow> int) \<Rightarrow> builder \<Rightarrow> nat \<Rightarrow> int \<Rightarrow> nat list \<Rightarrow> nat list
   \<Rightarrow> 'd vset \<Rightarrow> 'd vset outcome" where
  "SaveTo_added icmp b v level [] base vs = ofold (MaybeAddFile icmp b v level) base vs"
| "SaveTo_added icmp b v level (added_file # added) base vs =
     (let bpos = upper_bound (BySmallestKey icmp (vs_files vs)) added_file base
      in obind (ofold (MaybeAddFile icmp b v level) (take bpos base) vs) (\<lambda>vs.
         obind (MaybeAddFile icmp b v level added_file vs)
           (SaveTo_added icmp b v level added (drop bpos base))))"

definition SaveTo_level ::
  "(ikey \<Rightarrow> ikey \<Rightarrow> int) \<Rightarrow> builder \<Rightarrow> nat \<Rightarrow> int \<Rightarrow> 'd vset \<Rightarrow> 'd vset outcome" where
  "SaveTo_level icmp b v level vs =
     obind (deref_version vs (bd_base b)) (\<lambda>base.
     obind (at_level level (v_files base)) (\<lambda>base_file.
     obind (at_level level (bd_levels b)) (\<lambda>st.
       SaveTo_added icmp b v level (ls_added st) base_file vs)))"

definition SaveTo ::
  "(ikey \<Rightarrow> ikey \<Rightarrow> int) \<Rightarrow> nat \<Rightarrow> builder \<Rightarrow> nat \<Rightarrow> 'd vset \<Rightarrow> 'd vset outcome" where
  "SaveTo icmp kNumLevels b v vs =
     ofold (SaveTo_level icmp b v) (map int [0..<kNumLevels]) vs"

section \<open>The destructor\<close>

definition unref_file :: "nat \<Rightarrow> fstore \<Rightarrow> fstore outcome" where
  "unref_file p fs =
     obind (deref fs p) (\<lambda>f.
       let f = f\<lparr>fm_refs := fm_refs f - 1\<rparr>
       in Inr (if fm_refs f \<le> 0 then free_file p (store_file p f fs) else store_file p f fs))"

definition Builder_destroy ::
  "(nat \<Rightarrow> 'd vset \<Rightarrow> 'd vset outcome) \<Rightarrow> builder \<Rightarrow> 'd vset \<Rightarrow> 'd vset outcome" where
  "Builder_destroy Unref b vs =
     obind (ofold (\<lambda>st. ofold unref_file (ls_added st)) (bd_levels b) (vs_files vs)) (\<lambda>fs.
       Unref (bd_base b) (vs\<lparr>vs_files := fs\<rparr>))"

section \<open>The order of the files\<close>

text \<open>The comparator of internal keys, and the order it induces on pointers to files.\<close>

locale ikey_comparator = comparator icmp for icmp :: "ikey \<Rightarrow> ikey \<Rightarrow> int"

sublocale ikey_comparator \<subseteq> by_smallest: weak_order "BySmallestKey icmp fs" for fs
proof unfold_locales
  show "\<not> BySmallestKey icmp fs a a" for a by (simp add: BySmallestKey_def)
  show "BySmallestKey icmp fs a c" if ab: "BySmallestKey icmp fs a b" and bc: "BySmallestKey icmp fs b c"
    for a b c
  proof -
    let ?k = "\<lambda>p. fm_smallest (fm fs p)" and ?n = "\<lambda>p. fm_number (fm fs p)"
    have le: "icmp (?k a) (?k b) \<le> 0" "icmp (?k b) (?k c) \<le> 0"
      using ab bc by (auto simp: BySmallestKey_def Let_def split: if_splits)
    then have ac: "icmp (?k a) (?k c) \<le> 0" by (rule cmp_le_trans)
    show ?thesis
    proof (cases "icmp (?k a) (?k c) = 0")
      case True
      then have "icmp (?k a) (?k b) = 0" "icmp (?k b) (?k c) = 0"
        using le cmp_less_le_trans [of "?k a" "?k b" "?k c"] cmp_le_less_trans [of "?k a" "?k b" "?k c"]
        by (auto simp: le_less)
      then have "?n a < ?n b" "?n b < ?n c" using ab bc by (simp_all add: BySmallestKey_def)
      then show ?thesis using True by (simp add: BySmallestKey_def)
    next
      case False
      then show ?thesis using ac by (simp add: BySmallestKey_def)
    qed
  qed
  show "\<not> BySmallestKey icmp fs a c"
    if ab: "\<not> BySmallestKey icmp fs a b" and bc: "\<not> BySmallestKey icmp fs b c" for a b c
  proof -
    let ?k = "\<lambda>p. fm_smallest (fm fs p)" and ?n = "\<lambda>p. fm_number (fm fs p)"
    have ge: "icmp (?k b) (?k a) \<le> 0" "icmp (?k c) (?k b) \<le> 0"
      using ab bc cmp_flip_le by (auto simp: BySmallestKey_def Let_def split: if_splits)
    then have ca: "icmp (?k c) (?k a) \<le> 0" using cmp_le_trans by blast
    show ?thesis
    proof (cases "icmp (?k a) (?k c) = 0")
      case True
      then have "icmp (?k b) (?k a) = 0" "icmp (?k c) (?k b) = 0"
        using ge cmp_less_le_trans [of "?k c" "?k b" "?k a"] cmp_le_less_trans [of "?k c" "?k b" "?k a"]
          cmp_flip0 [of "?k a" "?k c"]
        by (auto simp: le_less)
      then have "\<not> ?n a < ?n b" "\<not> ?n b < ?n c"
        using ab bc cmp_flip0 by (auto simp: BySmallestKey_def)
      then show ?thesis using True by (auto simp: BySmallestKey_def)
    next
      case False
      then show ?thesis using ca cmp_flip_le [of "?k c" "?k a"] by (simp add: BySmallestKey_def)
    qed
  qed
qed

text \<open>Keys without a user comparator of their own are ordered as byte strings.\<close>

definition ikey_bytes_compare :: "ikey \<Rightarrow> ikey \<Rightarrow> int" where
  "ikey_bytes_compare a b = bytes_compare (map of_char a) (map of_char b)"

interpretation bytes_ikey: ikey_comparator ikey_bytes_compare
  by unfold_locales
    (unfold ikey_bytes_compare_def, rule bytes_compare_flip, erule (1) bytes_compare_trans)

end
