(* ===== verification/VersionSaveTo.thy ===== *)
theory VersionSaveTo
  imports VersionBuilder
begin

text \<open>
  What \<open>SaveTo\<close> computes: on every level the files that are not deleted, out of the base
  files and the added files merged by smallest key, appended to the version; with asserts, a
  fault as soon as two neighbours on a level above 0 overlap.
\<close>

section \<open>Reference counts\<close>

definition bump :: "nat \<Rightarrow> fstore \<Rightarrow> fstore" where
  "bump p fs = fs\<lparr>fs_at := (fs_at fs)
     (p := map_option (\<lambda>f. f\<lparr>fm_refs := fm_refs f + 1\<rparr>) (fs_at fs p))\<rparr>"

lemma bump_keys [simp]:
  "fm_number (fm (bump p fs) q) = fm_number (fm fs q)"
  "fm_smallest (fm (bump p fs) q) = fm_smallest (fm fs q)"
  "fm_largest (fm (bump p fs) q) = fm_largest (fm fs q)"
  "live (bump p fs) q = live fs q"
  by (cases "fs_at fs p"; simp add: bump_def live_def)+

lemma bumps_keys [simp]:
  "fm_number (fm (fold bump ps fs) q) = fm_number (fm fs q)"
  "fm_smallest (fm (fold bump ps fs) q) = fm_smallest (fm fs q)"
  "fm_largest (fm (fold bump ps fs) q) = fm_largest (fm fs q)"
  "live (fold bump ps fs) q = live fs q"
  by (induction ps arbitrary: fs) simp_all

lemma bumps_next [simp]: "fs_next (fold bump ps fs) = fs_next fs"
  by (induction ps arbitrary: fs) (simp_all add: bump_def)

lemma bump_refs:
  "live fs q \<Longrightarrow> fm_refs (fm (bump p fs) q) = fm_refs (fm fs q) + (if p = q then 1 else 0)"
  by (auto simp: bump_def live_def)

lemma bumps_refs:
  "live fs q \<Longrightarrow> fm_refs (fm (fold bump ps fs) q) = fm_refs (fm fs q) + int (count_list ps q)"
proof (induction ps arbitrary: fs)
  case (Cons p ps)
  then show ?case by (simp add: bump_refs)
qed simp

lemma bump_live: "fs_at fs p = Some f \<Longrightarrow>
  store_file p (f\<lparr>fm_refs := fm_refs f + 1\<rparr>) fs = bump p fs"
  by (simp add: bump_def store_file_def)

lemma BySmallestKey_cong:
  assumes "fm_number (fm fs' p) = fm_number (fm fs p)" "fm_smallest (fm fs' p) = fm_smallest (fm fs p)"
    and "fm_number (fm fs' q) = fm_number (fm fs q)" "fm_smallest (fm fs' q) = fm_smallest (fm fs q)"
  shows "BySmallestKey icmp fs' p q = BySmallestKey icmp fs p q"
  using assms by (simp add: BySmallestKey_def)

lemma BySmallestKey_bump [simp]: "BySmallestKey icmp (bump p fs) = BySmallestKey icmp fs"
  by (intro ext) (simp add: BySmallestKey_def)

lemma BySmallestKey_bumps [simp]: "BySmallestKey icmp (fold bump ps fs) = BySmallestKey icmp fs"
  by (intro ext) (simp add: BySmallestKey_def)

section \<open>One level\<close>

text \<open>The effect of a walk: files appended to a level of a version, each with one more reference.\<close>

definition add_files :: "nat \<Rightarrow> nat \<Rightarrow> nat list \<Rightarrow> 'd vset \<Rightarrow> 'd vset" where
  "add_files v i ps vs =
     (let ver = the (vs_versions vs v)
      in (store_version v (ver\<lparr>v_files := (v_files ver)[i := v_files ver ! i @ ps]\<rparr>) vs)
           \<lparr>vs_files := fold bump ps (vs_files vs)\<rparr>)"

definition kept :: "fstore \<Rightarrow> u64 set \<Rightarrow> nat list \<Rightarrow> nat list" where
  "kept fs D ps = filter (\<lambda>p. fm_number (fm fs p) \<notin> D) ps"

definition disjoint_keys :: "(ikey \<Rightarrow> ikey \<Rightarrow> int) \<Rightarrow> fstore \<Rightarrow> nat \<Rightarrow> nat \<Rightarrow> bool" where
  "disjoint_keys icmp fs p q \<longleftrightarrow> icmp (fm_largest (fm fs p)) (fm_smallest (fm fs q)) < 0"

text \<open>Neighbours do not overlap.\<close>

definition no_overlap :: "(ikey \<Rightarrow> ikey \<Rightarrow> int) \<Rightarrow> fstore \<Rightarrow> nat list \<Rightarrow> bool" where
  "no_overlap icmp fs ps = successively (disjoint_keys icmp fs) ps"

lemma kept_bump [simp]: "kept (bump p fs) D ps = kept fs D ps"
  by (simp add: kept_def)

lemma kept_bumps [simp]: "kept (fold bump qs fs) D ps = kept fs D ps"
  by (simp add: kept_def)

lemma disjoint_keys_bump [simp]: "disjoint_keys icmp (bump p fs) = disjoint_keys icmp fs"
  by (intro ext) (simp add: disjoint_keys_def)

lemma disjoint_keys_bumps [simp]: "disjoint_keys icmp (fold bump ps fs) = disjoint_keys icmp fs"
  by (intro ext) (simp add: disjoint_keys_def)

lemma no_overlap_bump [simp]: "no_overlap icmp (bump p fs) = no_overlap icmp fs"
  by (intro ext) (simp add: no_overlap_def)

lemma no_overlap_bumps [simp]: "no_overlap icmp (fold bump ps fs) = no_overlap icmp fs"
  by (intro ext) (simp add: no_overlap_def)

lemma add_files_simps [simp]:
  "vs_files (add_files v i ps vs) = fold bump ps (vs_files vs)"
  "vs_compact_pointer (add_files v i ps vs) = vs_compact_pointer vs"
  "vs_versions (add_files v i ps vs) = (vs_versions vs)(v \<mapsto>
     (the (vs_versions vs v))\<lparr>v_files := (v_files (the (vs_versions vs v)))
       [i := v_files (the (vs_versions vs v)) ! i @ ps]\<rparr>)"
  by (simp_all add: add_files_def Let_def store_version_def)

lemma add_files_Nil: "vs_versions vs v = Some ver \<Longrightarrow> add_files v i [] vs = vs"
  by (simp add: add_files_def store_version_def fun_upd_idem)

lemma add_files_append:
  "vs_versions vs v = Some ver \<Longrightarrow> i < length (v_files ver) \<Longrightarrow>
   add_files v i qs (add_files v i ps vs) = add_files v i (ps @ qs) vs"
  by (simp add: add_files_def store_version_def Let_def)

lemma MaybeAddFile_eq:
  assumes v: "vs_versions vs v = Some ver" and i: "i < length (v_files ver)" "i < length (bd_levels b)"
    and p: "live (vs_files vs) p" and files: "\<forall>q \<in> set (v_files ver ! i). live (vs_files vs) q"
  shows "MaybeAddFile icmp b v (int i) p vs =
    (if fm_number (fm (vs_files vs) p) \<in> ls_deleted (bd_levels b ! i) then Inr vs
     else if i = 0 \<or> v_files ver ! i = []
          \<or> disjoint_keys icmp (vs_files vs) (last (v_files ver ! i)) p
     then Inr (add_files v i [p] vs) else Inl AssertFailed)"
proof -
  have f: "fs_at (vs_files vs) p = Some (fm (vs_files vs) p)" using p by (simp add: live_def)
  show ?thesis
  proof (cases "i = 0 \<or> v_files ver ! i = []")
    case True
    then show ?thesis
      using v i f by (auto simp: MaybeAddFile_def bump_live add_files_def store_version_def)
  next
    case False
    then have "live (vs_files vs) (last (v_files ver ! i))" using files by simp
    then show ?thesis
      using v i f False
      by (simp add: MaybeAddFile_def bump_live add_files_def store_version_def disjoint_keys_def
        cpp_assert_def)
  qed
qed

text \<open>The walk over a list of files.\<close>

definition last_list :: "'a list \<Rightarrow> 'a list" where
  "last_list xs = (if xs = [] then [] else [last xs])"

lemma ofold_MaybeAddFile:
  assumes "vs_versions vs v = Some ver" and "i < length (v_files ver)" "i < length (bd_levels b)"
    and "\<forall>q \<in> set (v_files ver ! i) \<union> set ps. live (vs_files vs) q"
  shows "ofold (MaybeAddFile icmp b v (int i)) ps vs =
    (let ks = kept (vs_files vs) (ls_deleted (bd_levels b ! i)) ps
     in if i = 0 \<or> no_overlap icmp (vs_files vs) (last_list (v_files ver ! i) @ ks)
        then Inr (add_files v i ks vs) else Inl AssertFailed)"
  using assms
proof (induction ps arbitrary: vs ver)
  case Nil
  then show ?case by (simp add: kept_def add_files_Nil no_overlap_def last_list_def)
next
  case (Cons p ps)
  let ?D = "ls_deleted (bd_levels b ! i)" and ?fs = "vs_files vs" and ?gs = "v_files ver ! i"
  have eq: "MaybeAddFile icmp b v (int i) p vs =
    (if fm_number (fm ?fs p) \<in> ?D then Inr vs
     else if i = 0 \<or> ?gs = [] \<or> disjoint_keys icmp ?fs (last ?gs) p
     then Inr (add_files v i [p] vs) else Inl AssertFailed)"
    using Cons.prems by (intro MaybeAddFile_eq) auto
  consider (del) "fm_number (fm ?fs p) \<in> ?D"
    | (bad) "fm_number (fm ?fs p) \<notin> ?D" "\<not> (i = 0 \<or> ?gs = [] \<or> disjoint_keys icmp ?fs (last ?gs) p)"
    | (add) "fm_number (fm ?fs p) \<notin> ?D" "i = 0 \<or> ?gs = [] \<or> disjoint_keys icmp ?fs (last ?gs) p"
    by blast
  then show ?case
  proof cases
    case del
    then show ?thesis using Cons.IH [of vs ver] Cons.prems eq by (simp add: kept_def)
  next
    case bad
    then show ?thesis using eq
      by (simp add: kept_def no_overlap_def last_list_def)
  next
    case add
    let ?ver = "ver\<lparr>v_files := (v_files ver)[i := ?gs @ [p]]\<rparr>"
    have IH: "ofold (MaybeAddFile icmp b v (int i)) ps (add_files v i [p] vs) =
      (let ks = kept (vs_files (add_files v i [p] vs)) ?D ps
       in if i = 0 \<or> no_overlap icmp (vs_files (add_files v i [p] vs)) (last_list (v_files ?ver ! i) @ ks)
          then Inr (add_files v i ks (add_files v i [p] vs)) else Inl AssertFailed)"
      using Cons.prems by (intro Cons.IH) auto
    let ?ks = "kept ?fs ?D ps"
    have ap: "add_files v i ?ks (add_files v i [p] vs) = add_files v i (p # ?ks) vs"
      using add_files_append [of vs v ver i ?ks "[p]"] Cons.prems by simp
    have "no_overlap icmp ?fs (last_list (v_files ?ver ! i) @ ?ks) \<longleftrightarrow>
        no_overlap icmp ?fs (last_list ?gs @ p # ?ks)" if "i \<noteq> 0"
      using that add(2) Cons.prems(2)
      by (auto simp: no_overlap_def last_list_def successively_append_iff successively_Cons)
    then have iff: "(i = 0 \<or> no_overlap icmp ?fs (last_list (v_files ?ver ! i) @ ?ks)) \<longleftrightarrow>
        (i = 0 \<or> no_overlap icmp ?fs (last_list ?gs @ p # ?ks))" by blast
    have k: "kept ?fs ?D (p # ps) = p # ?ks" using add(1) by (simp add: kept_def)
    have step: "ofold (MaybeAddFile icmp b v (int i)) (p # ps) vs =
        ofold (MaybeAddFile icmp b v (int i)) ps (add_files v i [p] vs)"
      using eq add by simp
    have fs: "no_overlap icmp (vs_files (add_files v i [p] vs)) = no_overlap icmp ?fs"
      "kept (vs_files (add_files v i [p] vs)) ?D ps = ?ks"
      by simp_all
    show ?thesis unfolding step IH k Let_def fs iff ap ..
  qed
qed

text \<open>The two-sequence walk of \<open>SaveTo\<close> is one walk over the merged list.\<close>

lemma MaybeAddFile_order:
  "MaybeAddFile icmp b v level p vs = Inr u \<Longrightarrow>
   BySmallestKey icmp (vs_files u) = BySmallestKey icmp (vs_files vs)"
  by (cases "fs_at (vs_files vs) p")
    (auto simp: MaybeAddFile_def obind_eq_Inr deref_def bump_live split: if_splits)

lemma ofold_MaybeAddFile_order:
  "ofold (MaybeAddFile icmp b v level) ps vs = Inr u \<Longrightarrow>
   BySmallestKey icmp (vs_files u) = BySmallestKey icmp (vs_files vs)"
  by (induction ps arbitrary: vs) (auto simp: obind_eq_Inr dest: MaybeAddFile_order)

lemma SaveTo_added_eq:
  "SaveTo_added icmp b v level added base vs =
   ofold (MaybeAddFile icmp b v level)
     (merge_after (BySmallestKey icmp (vs_files vs)) added base) vs"
proof (induction added arbitrary: base vs)
  case (Cons x xs)
  let ?lt = "BySmallestKey icmp (vs_files vs)"
  have step: "obind (MaybeAddFile icmp b v level x u) (SaveTo_added icmp b v level xs bs) =
      ofold (MaybeAddFile icmp b v level) (x # merge_after ?lt xs bs) u"
    if u: "ofold (MaybeAddFile icmp b v level) ps vs = Inr u" for u ps bs
  proof (cases "MaybeAddFile icmp b v level x u")
    case (Inr w)
    then have "BySmallestKey icmp (vs_files w) = ?lt"
      using MaybeAddFile_order ofold_MaybeAddFile_order [OF u] by metis
    with Inr show ?thesis by (simp add: Cons.IH)
  qed simp
  show ?case
    by (cases "ofold (MaybeAddFile icmp b v level) (take (upper_bound ?lt x base) base) vs")
      (simp_all add: ofold_append step del: ofold.simps(2))
qed simp

section \<open>All levels\<close>

text \<open>The builder and the version it saves to, before \<open>SaveTo\<close>.\<close>

definition builder_ok :: "nat \<Rightarrow> builder \<Rightarrow> 'd vset \<Rightarrow> bool" where
  "builder_ok n b vs \<longleftrightarrow>
     (\<exists>base. vs_versions vs (bd_base b) = Some base \<and> length (v_files base) = n \<and>
        length (bd_levels b) = n \<and>
        (\<forall>i < n. \<forall>p \<in> set (v_files base ! i) \<union> set (ls_added (bd_levels b ! i)). live (vs_files vs) p))"

definition base_files :: "builder \<Rightarrow> 'd vset \<Rightarrow> nat \<Rightarrow> nat list" where
  "base_files b vs i = v_files (the (vs_versions vs (bd_base b))) ! i"

text \<open>The files \<open>SaveTo\<close> puts on level \<open>i\<close>.\<close>

definition saved_files :: "(ikey \<Rightarrow> ikey \<Rightarrow> int) \<Rightarrow> builder \<Rightarrow> 'd vset \<Rightarrow> nat \<Rightarrow> nat list" where
  "saved_files icmp b vs i =
     kept (vs_files vs) (ls_deleted (bd_levels b ! i))
       (merge_after (BySmallestKey icmp (vs_files vs)) (ls_added (bd_levels b ! i)) (base_files b vs i))"

text \<open>The version set after the first \<open>k\<close> levels are saved in \<open>v\<close>.\<close>

definition save_levels :: "(ikey \<Rightarrow> ikey \<Rightarrow> int) \<Rightarrow> builder \<Rightarrow> nat \<Rightarrow> 'd vset \<Rightarrow> nat \<Rightarrow> 'd vset" where
  "save_levels icmp b v vs k = fold (\<lambda>i. add_files v i (saved_files icmp b vs i)) [0..<k] vs"

definition no_overlaps :: "(ikey \<Rightarrow> ikey \<Rightarrow> int) \<Rightarrow> builder \<Rightarrow> 'd vset \<Rightarrow> nat \<Rightarrow> bool" where
  "no_overlaps icmp b vs k \<longleftrightarrow>
     (\<forall>i. 0 < i \<and> i < k \<longrightarrow> no_overlap icmp (vs_files vs) (saved_files icmp b vs i))"

lemma save_levels_Suc:
  "save_levels icmp b v vs (Suc k) = add_files v k (saved_files icmp b vs k) (save_levels icmp b v vs k)"
  by (simp add: save_levels_def)

lemma save_levels_other: "a \<noteq> v \<Longrightarrow> vs_versions (save_levels icmp b v vs k) a = vs_versions vs a"
  by (induction k) (simp_all add: save_levels_def)

lemma save_levels_files: "vs_files (save_levels icmp b v vs k) =
    fold bump (concat (map (saved_files icmp b vs) [0..<k])) (vs_files vs)"
  by (induction k) (simp_all add: save_levels_def)

lemma save_levels_version:
  assumes "vs_versions vs v = Some ver" and "k \<le> length (v_files ver)"
  shows "vs_versions (save_levels icmp b v vs k) v = Some (ver\<lparr>v_files :=
     map (\<lambda>i. v_files ver ! i @ (if i < k then saved_files icmp b vs i else []))
       [0..<length (v_files ver)]\<rparr>)"
  using assms(2)
proof (induction k)
  case 0
  then show ?case using assms(1) by (simp add: save_levels_def map_nth)
next
  case (Suc k)
  let ?n = "length (v_files ver)"
  let ?m = "\<lambda>k. map (\<lambda>i. v_files ver ! i @ (if i < k then saved_files icmp b vs i else [])) [0..<?n]"
  have "(?m k)[k := ?m k ! k @ saved_files icmp b vs k] = ?m (Suc k)"
    using Suc.prems by (intro nth_equalityI) (simp_all add: nth_list_update less_Suc_eq)
  moreover have "vs_versions (save_levels icmp b v vs k) v = Some (ver\<lparr>v_files := ?m k\<rparr>)"
    using Suc by simp
  ultimately show ?case unfolding save_levels_Suc by simp
qed

lemma saved_files_subset:
  "set (saved_files icmp b vs i) \<subseteq> set (base_files b vs i) \<union> set (ls_added (bd_levels b ! i))"
  by (auto simp: saved_files_def kept_def)

lemma SaveTo_level_eq:
  assumes ok: "builder_ok n b vs" and v: "vs_versions vs v = Some (Version n d v)" "v \<noteq> bd_base b"
    and k: "k < n"
  shows "SaveTo_level icmp b v (int k) (save_levels icmp b v vs k) =
    (if k = 0 \<or> no_overlap icmp (vs_files vs) (saved_files icmp b vs k)
     then Inr (save_levels icmp b v vs (Suc k)) else Inl AssertFailed)"
proof -
  let ?vs = "save_levels icmp b v vs k"
  obtain base where base: "vs_versions vs (bd_base b) = Some base" "length (v_files base) = n"
    "length (bd_levels b) = n"
    and lv: "\<forall>p \<in> set (v_files base ! k) \<union> set (ls_added (bd_levels b ! k)). live (vs_files vs) p"
    using ok k unfolding builder_ok_def by blast
  let ?ms = "merge_after (BySmallestKey icmp (vs_files vs)) (ls_added (bd_levels b ! k)) (v_files base ! k)"
  have base': "vs_versions ?vs (bd_base b) = Some base"
    using base(1) v(2) save_levels_other [of "bd_base b" v] by metis
  have len: "length (v_files (Version n d v)) = n" by (simp add: Version_def)
  obtain ver where ver: "vs_versions ?vs v = Some ver"
    and empty: "v_files ver ! k = []" "k < length (v_files ver)"
    using save_levels_version [OF v(1), of k icmp b] k len by (simp add: Version_def)
  have bf: "base_files b vs k = v_files base ! k" using base(1) by (simp add: base_files_def)
  have "SaveTo_level icmp b v (int k) ?vs = ofold (MaybeAddFile icmp b v (int k)) ?ms ?vs"
    using base base' k by (simp add: SaveTo_level_def SaveTo_added_eq save_levels_files)
  also have "\<dots> = (let ks = kept (vs_files ?vs) (ls_deleted (bd_levels b ! k)) ?ms
     in if k = 0 \<or> no_overlap icmp (vs_files ?vs) (last_list (v_files ver ! k) @ ks)
        then Inr (add_files v k ks ?vs) else Inl AssertFailed)"
    by (rule ofold_MaybeAddFile [OF ver empty(2)])
      (use lv base k empty(1) in \<open>auto simp: save_levels_files\<close>)
  also have "kept (vs_files ?vs) (ls_deleted (bd_levels b ! k)) ?ms = saved_files icmp b vs k"
    by (simp add: saved_files_def bf save_levels_files)
  finally show ?thesis
    by (simp add: empty(1) last_list_def save_levels_Suc save_levels_files Let_def)
qed

lemma SaveTo_eq:
  assumes ok: "builder_ok n b vs" and v: "vs_versions vs v = Some (Version n d v)" "v \<noteq> bd_base b"
  shows "SaveTo icmp n b v vs =
    (if no_overlaps icmp b vs n then Inr (save_levels icmp b v vs n) else Inl AssertFailed)"
proof -
  have "ofold (SaveTo_level icmp b v) (map int [0..<k]) vs =
      (if no_overlaps icmp b vs k then Inr (save_levels icmp b v vs k) else Inl AssertFailed)"
    if "k \<le> n" for k
    using that
  proof (induction k)
    case 0
    then show ?case by (simp add: no_overlaps_def save_levels_def)
  next
    case (Suc k)
    then show ?case
      using SaveTo_level_eq [OF ok v, of k icmp]
      by (auto simp: ofold_append no_overlaps_def less_Suc_eq)
  qed
  then show ?thesis by (simp add: SaveTo_def)
qed

context ikey_comparator
begin

lemma sorted_kept_merge:
  "sorted_wrt (BySmallestKey icmp fs) added \<Longrightarrow>
   sorted_wrt (\<lambda>p q. \<not> BySmallestKey icmp fs q p) base \<Longrightarrow>
   sorted_wrt (\<lambda>p q. \<not> BySmallestKey icmp fs q p)
     (kept fs D (merge_after (BySmallestKey icmp fs) added base))"
  unfolding kept_def by (intro sorted_wrt_filter by_smallest.sorted_merge_after)

end

end
