(* ===== verification/VersionApply.thy ===== *)
theory VersionApply
  imports VersionSaveTo
begin

text \<open>
  What \<open>Apply\<close> does to a builder: the abstract effect of an edit on the set of file numbers
  of a level, the invariant of a builder, and that both are kept by every edit whose levels
  are in range.
\<close>

section \<open>The abstract effect of an edit\<close>

definition new_numbers :: "nat \<Rightarrow> (int \<times> fmeta) list \<Rightarrow> u64 set" where
  "new_numbers i news = {fm_number f | f. (int i, f) \<in> set news}"

definition edit_numbers :: "nat \<Rightarrow> version_edit \<Rightarrow> u64 set \<Rightarrow> u64 set" where
  "edit_numbers i e S =
     (S - {m. (int i, m) \<in> set (ve_deleted_files e)}) \<union> new_numbers i (ve_new_files e)"

definition numbers :: "fstore \<Rightarrow> nat list \<Rightarrow> u64 set" where
  "numbers fs ps = (\<lambda>p. fm_number (fm fs p)) ` set ps"

text \<open>The file numbers a builder stands for on level \<open>i\<close>.\<close>

definition shown :: "builder \<Rightarrow> 'd vset \<Rightarrow> nat \<Rightarrow> u64 set" where
  "shown b vs i =
     (numbers (vs_files vs) (base_files b vs i)
        \<union> numbers (vs_files vs) (ls_added (bd_levels b ! i))) - ls_deleted (bd_levels b ! i)"

definition level_in :: "nat \<Rightarrow> int \<Rightarrow> bool" where
  "level_in n l \<longleftrightarrow> 0 \<le> l \<and> l < int n"

definition edit_ok :: "nat \<Rightarrow> version_edit \<Rightarrow> bool" where
  "edit_ok n e \<longleftrightarrow>
     list_all (\<lambda>(l, k). level_in n l \<and> k \<noteq> '''') (ve_compact_pointers e) \<and>
     list_all (\<lambda>(l, m). level_in n l) (ve_deleted_files e) \<and>
     list_all (\<lambda>(l, f). level_in n l) (ve_new_files e)"

lemma numbers_kept: "numbers fs (kept fs D ps) = numbers fs ps - D"
  by (auto simp: numbers_def kept_def)

lemma numbers_bumps [simp]: "numbers (fold bump qs fs) ps = numbers fs ps"
  by (simp add: numbers_def)

lemma numbers_merge_after [simp]: "numbers fs (merge_after lt xs ys) = numbers fs xs \<union> numbers fs ys"
  by (simp add: numbers_def image_Un)

lemma numbers_saved_files: "numbers (vs_files vs) (saved_files icmp b vs i) = shown b vs i"
  by (simp add: saved_files_def numbers_kept shown_def Un_commute)

section \<open>Stores that only grow\<close>

definition extends :: "fstore \<Rightarrow> fstore \<Rightarrow> bool" where
  "extends fs fs' \<longleftrightarrow> (\<forall>p. live fs p \<longrightarrow> fs_at fs' p = fs_at fs p)"

lemma extends_refl [simp]: "extends fs fs"
  by (simp add: extends_def)

lemma extends_live: "extends fs fs' \<Longrightarrow> live fs p \<Longrightarrow> live fs' p \<and> fm fs' p = fm fs p"
  by (simp add: extends_def live_def)

lemma extends_trans: "extends fs fs' \<Longrightarrow> extends fs' fs'' \<Longrightarrow> extends fs fs''"
  by (simp add: extends_def live_def)

lemma extends_numbers:
  "extends fs fs' \<Longrightarrow> \<forall>p \<in> set ps. live fs p \<Longrightarrow> numbers fs' ps = numbers fs ps"
  using extends_live by (fastforce simp: numbers_def)

lemma extends_sorted:
  assumes "extends fs fs'" and "\<forall>p \<in> set ps. live fs p" and "sorted_wrt (BySmallestKey icmp fs) ps"
  shows "sorted_wrt (BySmallestKey icmp fs') ps"
  using assms(3)
proof (rule sorted_wrt_mono_rel [rotated])
  fix p q
  assume "p \<in> set ps" "q \<in> set ps" "BySmallestKey icmp fs p q"
  then show "BySmallestKey icmp fs' p q"
    using extends_live [OF assms(1)] assms(2) BySmallestKey_cong [of fs' p fs q icmp] by simp
qed

text \<open>The added files of a level: pointers to files that live, in order.\<close>

definition added_ok :: "(ikey \<Rightarrow> ikey \<Rightarrow> int) \<Rightarrow> fstore \<Rightarrow> level_state \<Rightarrow> bool" where
  "added_ok icmp fs st \<longleftrightarrow>
     sorted_wrt (BySmallestKey icmp fs) (ls_added st) \<and> (\<forall>p \<in> set (ls_added st). live fs p)"

lemma extends_added_ok: "extends fs fs' \<Longrightarrow> added_ok icmp fs st \<Longrightarrow> added_ok icmp fs' st"
  unfolding added_ok_def using extends_sorted extends_live by blast

section \<open>Deleted files\<close>

lemma Apply_deleted_loop:
  assumes "\<forall>(l, m) \<in> set ds. level_in (length levels) l"
  shows "\<exists>levels'. ofold Apply_deleted ds levels = Inr levels' \<and> length levels' = length levels \<and>
    (\<forall>i < length levels. ls_added (levels' ! i) = ls_added (levels ! i) \<and>
       ls_deleted (levels' ! i) = ls_deleted (levels ! i) \<union> {m. (int i, m) \<in> set ds})"
  using assms
proof (induction ds arbitrary: levels)
  case (Cons d ds)
  obtain l m where d: "d = (l, m)" by (cases d)
  obtain j where j: "l = int j" "j < length levels"
    using Cons.prems d by (auto simp: level_in_def intro: nonneg_int_cases)
  let ?lv = "levels[j := (levels ! j)\<lparr>ls_deleted := insert m (ls_deleted (levels ! j))\<rparr>]"
  have "\<forall>(l, m) \<in> set ds. level_in (length ?lv) l" using Cons.prems by simp
  from Cons.IH [OF this] obtain levels' where l': "ofold Apply_deleted ds ?lv = Inr levels'"
    "length levels' = length levels"
    "\<forall>i < length levels. ls_added (levels' ! i) = ls_added (?lv ! i) \<and>
       ls_deleted (levels' ! i) = ls_deleted (?lv ! i) \<union> {m. (int i, m) \<in> set ds}" by auto
  have "ofold Apply_deleted (d # ds) levels = Inr levels'"
    using l'(1) j by (simp add: d Apply_deleted_def)
  moreover have "ls_added (levels' ! i) = ls_added (levels ! i) \<and>
      ls_deleted (levels' ! i) = ls_deleted (levels ! i) \<union> {m. (int i, m) \<in> set (d # ds)}"
    if "i < length levels" for i
    using l'(3) that j d by (auto simp: nth_list_update)
  ultimately show ?case using l'(2) by blast
qed simp

section \<open>Compact pointers\<close>

lemma Apply_compact_pointer_loop:
  assumes "\<forall>(l, k) \<in> set es. level_in (length cps) l \<and> k \<noteq> ''''"
  shows "ofold Apply_compact_pointer es cps = Inr (fold (\<lambda>(l, k). (\<lambda>c. c[nat l := k])) es cps)"
  using assms
proof (induction es arbitrary: cps)
  case (Cons e es)
  obtain l k where e: "e = (l, k)" by (cases e)
  obtain j where j: "l = int j" "j < length cps" "k \<noteq> ''''"
    using Cons.prems e by (auto simp: level_in_def intro: nonneg_int_cases)
  have "\<forall>(l, k' :: ikey) \<in> set es. level_in (length (cps[j := k])) l \<and> k' \<noteq> ''''"
    using Cons.prems by simp
  from Cons.IH [OF this] show ?case
    using j by (simp add: e Apply_compact_pointer_def InternalKey_Encode_def)
qed simp

lemma length_fold_pointers [simp]:
  "length (fold (\<lambda>(l, k). (\<lambda>c. c[nat l := k])) es cps) = length cps"
  by (induction es arbitrary: cps) (auto split: prod.splits)

section \<open>New files\<close>

text \<open>What \<open>Apply\<close> stores for a new file.\<close>

definition applied_file :: "fmeta \<Rightarrow> fmeta" where
  "applied_file f = f\<lparr>fm_refs := 1, fm_allowed_seeks := seeks_of_size (fm_file_size f)\<rparr>"

definition alloc :: "fmeta \<Rightarrow> fstore \<Rightarrow> fstore" where
  "alloc f fs = snd (new_file f fs)"

lemma alloc_simps [simp]:
  "fs_at (alloc f fs) = (fs_at fs)(fs_next fs \<mapsto> f)"
  "fs_next (alloc f fs) = Suc (fs_next fs)"
  by (simp_all add: alloc_def new_file_def)

lemma alloc_live [simp]: "live (alloc f fs) p \<longleftrightarrow> p = fs_next fs \<or> live fs p"
  by (simp add: live_def)

lemma extends_alloc: "store_ok fs \<Longrightarrow> extends fs (alloc f fs)"
  by (auto simp: extends_def store_ok_def)

lemma store_ok_alloc: "store_ok fs \<Longrightarrow> store_ok (alloc f fs)"
  by (auto simp: store_ok_def less_Suc_eq)

definition add_new :: "(ikey \<Rightarrow> ikey \<Rightarrow> int) \<Rightarrow> fmeta \<Rightarrow> fstore \<Rightarrow> level_state \<Rightarrow> level_state" where
  "add_new icmp f fs st =
     st\<lparr>ls_deleted := ls_deleted st - {fm_number f},
        ls_added := set_insert (BySmallestKey icmp (alloc f fs)) (fs_next fs) (ls_added st)\<rparr>"

lemma Apply_new_eq:
  assumes "j < length levels"
  shows "Apply_new icmp (int j, f) (levels, fs) =
    Inr (levels[j := add_new icmp (applied_file f) fs (levels ! j)], alloc (applied_file f) fs)"
  using assms
  by (simp add: Apply_new_def applied_file_def add_new_def alloc_def new_file_def Let_def)

context ikey_comparator
begin

lemma numbers_set_insert:
  "numbers fs (set_insert (BySmallestKey icmp fs) p ps) = insert (fm_number (fm fs p)) (numbers fs ps)"
proof
  show "numbers fs (set_insert (BySmallestKey icmp fs) p ps) \<subseteq> insert (fm_number (fm fs p)) (numbers fs ps)"
    using set_set_insert_subset [of "BySmallestKey icmp fs" p ps] by (auto simp: numbers_def)
  have "fm_number (fm fs p) = fm_number (fm fs q)"
    if "\<not> BySmallestKey icmp fs p q" "\<not> BySmallestKey icmp fs q p" for q
    using that cmp_flip [of "fm_smallest (fm fs p)" "fm_smallest (fm fs q)"]
      cmp_flip0 [of "fm_smallest (fm fs p)" "fm_smallest (fm fs q)"]
    by (auto simp: BySmallestKey_def Let_def split: if_splits)
  then have "fm_number (fm fs p) \<in> numbers fs (set_insert (BySmallestKey icmp fs) p ps)"
    using set_insert_has [of p "BySmallestKey icmp fs" ps]
      set_insert_keeps [of ps "BySmallestKey icmp fs" p]
    unfolding numbers_def by (metis image_eqI subsetD)
  then show "insert (fm_number (fm fs p)) (numbers fs ps)
      \<subseteq> numbers fs (set_insert (BySmallestKey icmp fs) p ps)"
    using set_insert_keeps [of ps "BySmallestKey icmp fs" p] by (auto simp: numbers_def)
qed

lemma add_new_ok:
  assumes "store_ok fs" and ok: "added_ok icmp fs st"
  shows "added_ok icmp (alloc f fs) (add_new icmp f fs st)"
    and "numbers (alloc f fs) (ls_added (add_new icmp f fs st)) =
      insert (fm_number f) (numbers fs (ls_added st))"
proof -
  have ext: "extends fs (alloc f fs)" using assms(1) by (rule extends_alloc)
  have old: "added_ok icmp (alloc f fs) st" using extends_added_ok [OF ext ok] .
  then show "added_ok icmp (alloc f fs) (add_new icmp f fs st)"
    using by_smallest.sorted_set_insert
      set_set_insert_subset [of "BySmallestKey icmp (alloc f fs)" "fs_next fs" "ls_added st"]
    by (fastforce simp: added_ok_def add_new_def)
  show "numbers (alloc f fs) (ls_added (add_new icmp f fs st)) =
      insert (fm_number f) (numbers fs (ls_added st))"
    using extends_numbers [OF ext, of "ls_added st"] ok
    by (simp add: add_new_def numbers_set_insert added_ok_def del: alloc_simps) simp
qed

lemma Apply_new_loop:
  assumes "\<forall>(l, f) \<in> set news. level_in (length levels) l" and "store_ok fs"
    and "\<forall>i < length levels. added_ok icmp fs (levels ! i)"
  shows "\<exists>levels' fs'. ofold (Apply_new icmp) news (levels, fs) = Inr (levels', fs') \<and>
    length levels' = length levels \<and> store_ok fs' \<and> extends fs fs' \<and>
    (\<forall>i < length levels. added_ok icmp fs' (levels' ! i) \<and>
       ls_deleted (levels' ! i) = ls_deleted (levels ! i) - new_numbers i news \<and>
       numbers fs' (ls_added (levels' ! i)) = numbers fs (ls_added (levels ! i)) \<union> new_numbers i news)"
  using assms
proof (induction news arbitrary: levels fs)
  case Nil
  then show ?case by (simp add: new_numbers_def)
next
  case (Cons e news)
  obtain l f where e: "e = (l, f)" by (cases e)
  obtain j where j: "l = int j" "j < length levels"
    using Cons.prems e by (auto simp: level_in_def intro: nonneg_int_cases)
  let ?f = "applied_file f"
  let ?lv = "levels[j := add_new icmp ?f fs (levels ! j)]" and ?fs = "alloc ?f fs"
  have num: "fm_number ?f = fm_number f" by (simp add: applied_file_def)
  have ext: "extends fs ?fs" using Cons.prems(2) by (rule extends_alloc)
  have "\<forall>(l, f' :: fmeta) \<in> set news. level_in (length ?lv) l" using Cons.prems(1) by simp
  moreover have "store_ok ?fs" using Cons.prems(2) by (rule store_ok_alloc)
  moreover have "\<forall>i < length ?lv. added_ok icmp ?fs (?lv ! i)"
    using j(2) Cons.prems(3) add_new_ok(1) [OF Cons.prems(2), of "levels ! j" ?f] extends_added_ok [OF ext]
    by (auto simp: nth_list_update)
  ultimately obtain levels' fs' where r: "ofold (Apply_new icmp) news (?lv, ?fs) = Inr (levels', fs')"
    "length levels' = length levels" "store_ok fs'" "extends ?fs fs'"
    "\<forall>i < length levels. added_ok icmp fs' (levels' ! i) \<and>
       ls_deleted (levels' ! i) = ls_deleted (?lv ! i) - new_numbers i news \<and>
       numbers fs' (ls_added (levels' ! i)) = numbers ?fs (ls_added (?lv ! i)) \<union> new_numbers i news"
    using Cons.IH [of ?lv ?fs] by auto
  have "ofold (Apply_new icmp) (e # news) (levels, fs) = Inr (levels', fs')"
    using r(1) j by (simp add: e Apply_new_eq)
  moreover have "added_ok icmp fs' (levels' ! i) \<and>
       ls_deleted (levels' ! i) = ls_deleted (levels ! i) - new_numbers i (e # news) \<and>
       numbers fs' (ls_added (levels' ! i)) =
         numbers fs (ls_added (levels ! i)) \<union> new_numbers i (e # news)"
    if i: "i < length levels" for i
  proof (cases "i = j")
    case True
    then have "new_numbers i (e # news) = insert (fm_number f) (new_numbers i news)"
      using e j by (auto simp: new_numbers_def)
    then show ?thesis
      using r(5) i True add_new_ok(2) [OF Cons.prems(2), of "levels ! j" ?f] Cons.prems(3) num
      by (auto simp: add_new_def)
  next
    case False
    then have "new_numbers i (e # news) = new_numbers i news"
      using e j by (auto simp: new_numbers_def)
    moreover have "numbers ?fs (ls_added (levels ! i)) = numbers fs (ls_added (levels ! i))"
      using extends_numbers [OF ext] Cons.prems(3) i by (simp add: added_ok_def)
    ultimately show ?thesis using r(5) i False by simp
  qed
  ultimately show ?case using r(2,3) extends_trans [OF ext r(4)] by blast
qed

end

section \<open>Apply as a whole\<close>

text \<open>The invariant of a builder between edits.\<close>

definition building :: "(ikey \<Rightarrow> ikey \<Rightarrow> int) \<Rightarrow> nat \<Rightarrow> builder \<Rightarrow> 'd vset \<Rightarrow> bool" where
  "building icmp n b vs \<longleftrightarrow>
     store_ok (vs_files vs) \<and> builder_ok n b vs \<and> length (vs_compact_pointer vs) = n \<and>
     (\<forall>i < n. added_ok icmp (vs_files vs) (bd_levels b ! i))"

lemma Apply_invariant:
  assumes cmp: "ikey_comparator icmp" and inv: "building icmp n b vs" and e: "edit_ok n e"
  shows "\<exists>b' vs'. Apply icmp e (b, vs) = Inr (b', vs') \<and> building icmp n b' vs' \<and>
    bd_base b' = bd_base b \<and> vs_versions vs' = vs_versions vs \<and>
    vs_compact_pointer vs' =
      fold (\<lambda>(l, k). (\<lambda>c. c[nat l := k])) (ve_compact_pointers e) (vs_compact_pointer vs) \<and>
    extends (vs_files vs) (vs_files vs') \<and>
    (\<forall>i < n. shown b' vs' i = edit_numbers i e (shown b vs i))"
proof -
  note ok = inv [unfolded building_def]
  obtain base where base: "vs_versions vs (bd_base b) = Some base" "length (v_files base) = n"
    "length (bd_levels b) = n"
    and base_live: "\<forall>i < n. \<forall>p \<in> set (v_files base ! i). live (vs_files vs) p"
    using ok unfolding builder_ok_def by blast
  let ?cps = "fold (\<lambda>(l, k). (\<lambda>c. c[nat l := k])) (ve_compact_pointers e) (vs_compact_pointer vs)"
  have cps: "ofold Apply_compact_pointer (ve_compact_pointers e) (vs_compact_pointer vs) = Inr ?cps"
    using e ok by (intro Apply_compact_pointer_loop) (auto simp: edit_ok_def list_all_iff)
  have "\<forall>(l, m :: u64) \<in> set (ve_deleted_files e). level_in (length (bd_levels b)) l"
    using e base(3) by (auto simp: edit_ok_def list_all_iff)
  from Apply_deleted_loop [OF this] obtain lv where
    lv: "ofold Apply_deleted (ve_deleted_files e) (bd_levels b) = Inr lv" "length lv = n"
    "\<forall>i < n. ls_added (lv ! i) = ls_added (bd_levels b ! i) \<and> ls_deleted (lv ! i) =
       ls_deleted (bd_levels b ! i) \<union> {m. (int i, m) \<in> set (ve_deleted_files e)}"
    using base(3) by auto
  have "\<forall>(l, f :: fmeta) \<in> set (ve_new_files e). level_in (length lv) l"
    using e lv(2) by (auto simp: edit_ok_def list_all_iff)
  moreover have "\<forall>i < length lv. added_ok icmp (vs_files vs) (lv ! i)"
    using ok lv(2,3) by (simp add: added_ok_def)
  ultimately obtain lv' fs' where r: "ofold (Apply_new icmp) (ve_new_files e) (lv, vs_files vs) = Inr (lv', fs')"
    "length lv' = n" "store_ok fs'" "extends (vs_files vs) fs'"
    "\<forall>i < n. added_ok icmp fs' (lv' ! i) \<and>
       ls_deleted (lv' ! i) = ls_deleted (lv ! i) - new_numbers i (ve_new_files e) \<and>
       numbers fs' (ls_added (lv' ! i)) =
         numbers (vs_files vs) (ls_added (lv ! i)) \<union> new_numbers i (ve_new_files e)"
    using ikey_comparator.Apply_new_loop [OF cmp, of "ve_new_files e" lv "vs_files vs"] ok lv(2) by auto
  let ?b = "b\<lparr>bd_levels := lv'\<rparr>" and ?vs = "vs\<lparr>vs_compact_pointer := ?cps, vs_files := fs'\<rparr>"
  have "Apply icmp e (b, vs) = Inr (?b, ?vs)" using cps lv(1) r(1) by (simp add: Apply_def)
  moreover have "builder_ok n ?b ?vs"
    unfolding builder_ok_def using base r(2,5) base_live extends_live [OF r(4)]
    by (auto simp: added_ok_def)
  then have "building icmp n ?b ?vs" using r(3,5) ok by (simp add: building_def)
  moreover have "shown ?b ?vs i = edit_numbers i e (shown b vs i)" if i: "i < n" for i
  proof -
    have "base_files ?b ?vs i = base_files b vs i" by (simp add: base_files_def)
    moreover have "numbers fs' (base_files b vs i) = numbers (vs_files vs) (base_files b vs i)"
      using extends_numbers [OF r(4)] base(1) base_live i by (simp add: base_files_def)
    ultimately show ?thesis
      using r(5) lv(3) i by (auto simp: shown_def edit_numbers_def)
  qed
  ultimately show ?thesis using r(4) by fastforce
qed

lemma Apply_sequence:
  assumes cmp: "ikey_comparator icmp" and "building icmp n b vs" and "list_all (edit_ok n) es"
  shows "\<exists>b' vs'. ofold (Apply icmp) es (b, vs) = Inr (b', vs') \<and> building icmp n b' vs' \<and>
    bd_base b' = bd_base b \<and> vs_versions vs' = vs_versions vs \<and>
    extends (vs_files vs) (vs_files vs') \<and>
    (\<forall>i < n. shown b' vs' i = fold (edit_numbers i) es (shown b vs i))"
  using assms(2,3)
proof (induction es arbitrary: b vs)
  case (Cons e es)
  obtain b1 vs1 where 1: "Apply icmp e (b, vs) = Inr (b1, vs1)" "building icmp n b1 vs1"
    "bd_base b1 = bd_base b" "vs_versions vs1 = vs_versions vs" "extends (vs_files vs) (vs_files vs1)"
    "\<forall>i < n. shown b1 vs1 i = edit_numbers i e (shown b vs i)"
    using Apply_invariant [OF cmp Cons.prems(1), of e] Cons.prems(2) by auto
  obtain b2 vs2 where 2: "ofold (Apply icmp) es (b1, vs1) = Inr (b2, vs2)" "building icmp n b2 vs2"
    "bd_base b2 = bd_base b1" "vs_versions vs2 = vs_versions vs1" "extends (vs_files vs1) (vs_files vs2)"
    "\<forall>i < n. shown b2 vs2 i = fold (edit_numbers i) es (shown b1 vs1 i)"
    using Cons.IH [OF 1(2)] Cons.prems(2) by auto
  have "ofold (Apply icmp) (e # es) (b, vs) = Inr (b2, vs2)" using 1(1) 2(1) by simp
  then show ?case using 1 2 extends_trans [OF 1(5) 2(5)] by auto
qed simp

end
