(* ===== verification/VersionRefs.thy ===== *)
theory VersionRefs
  imports VersionApply "HOL-Library.Multiset"
begin

text \<open>
  The life of a builder in \<open>VersionSet::LogAndApply\<close>: made on the current version, given one
  edit, saved to a new version, destroyed; and the reference counts of the files through it.
\<close>

definition build_version ::
  "(nat \<Rightarrow> 'd vset \<Rightarrow> 'd vset outcome) \<Rightarrow> (nat \<Rightarrow> 'd vset \<Rightarrow> 'd vset outcome)
   \<Rightarrow> (ikey \<Rightarrow> ikey \<Rightarrow> int) \<Rightarrow> nat \<Rightarrow> version_edit \<Rightarrow> nat \<Rightarrow> nat \<Rightarrow> 'd vset \<Rightarrow> 'd vset outcome" where
  "build_version Ref Unref icmp kNumLevels edit current v vs =
     obind (Builder Ref kNumLevels current vs) (\<lambda>s.
     obind (Apply icmp edit s) (\<lambda>(b, vs).
     obind (SaveTo icmp kNumLevels b v vs) (\<lambda>vs.
       Builder_destroy Unref b vs)))"

section \<open>Reference counting of versions\<close>

text \<open>
  The documented behaviour of \<open>Version::Ref\<close> and of \<open>Version::Unref\<close> on a version that
  keeps other references.
\<close>

definition Ref_increments :: "(nat \<Rightarrow> 'd vset \<Rightarrow> 'd vset outcome) \<Rightarrow> bool" where
  "Ref_increments Ref \<longleftrightarrow> (\<forall>a vs v. vs_versions vs a = Some v \<longrightarrow>
     Ref a vs = Inr (store_version a (v\<lparr>v_refs := v_refs v + 1\<rparr>) vs))"

definition Unref_decrements :: "(nat \<Rightarrow> 'd vset \<Rightarrow> 'd vset outcome) \<Rightarrow> bool" where
  "Unref_decrements Unref \<longleftrightarrow> (\<forall>a vs v. vs_versions vs a = Some v \<longrightarrow> 1 < v_refs v \<longrightarrow>
     Unref a vs = Inr (store_version a (v\<lparr>v_refs := v_refs v - 1\<rparr>) vs))"

text \<open>A version whose files live.\<close>

definition version_ok :: "nat \<Rightarrow> nat \<Rightarrow> 'd vset \<Rightarrow> bool" where
  "version_ok n a vs \<longleftrightarrow>
     (\<exists>v. vs_versions vs a = Some v \<and> length (v_files v) = n \<and>
        (\<forall>i < n. \<forall>p \<in> set (v_files v ! i). live (vs_files vs) p))"

definition vset_ok :: "nat \<Rightarrow> nat \<Rightarrow> 'd vset \<Rightarrow> bool" where
  "vset_ok n base vs \<longleftrightarrow>
     store_ok (vs_files vs) \<and> length (vs_compact_pointer vs) = n \<and> version_ok n base vs"

definition level_files :: "nat \<Rightarrow> 'd vset \<Rightarrow> nat \<Rightarrow> nat list" where
  "level_files a vs i = v_files (the (vs_versions vs a)) ! i"

definition all_added :: "level_state list \<Rightarrow> nat list" where
  "all_added levels = concat (map ls_added levels)"

lemma Builder_building:
  assumes "Ref_increments Ref" and ok: "vset_ok n base vs"
  shows "\<exists>b vs1. Builder Ref n base vs = Inr (b, vs1) \<and> building icmp n b vs1 \<and> bd_base b = base \<and>
    vs_files vs1 = vs_files vs \<and> all_added (bd_levels b) = [] \<and>
    vs_versions vs1 = (vs_versions vs)(base \<mapsto>
      (the (vs_versions vs base))\<lparr>v_refs := v_refs (the (vs_versions vs base)) + 1\<rparr>) \<and>
    (\<forall>i < n. ls_added (bd_levels b ! i) = [] \<and> base_files b vs1 i = level_files base vs i \<and>
       shown b vs1 i = numbers (vs_files vs) (level_files base vs i))"
proof -
  obtain v where v: "vs_versions vs base = Some v" "length (v_files v) = n"
    "\<forall>i < n. \<forall>p \<in> set (v_files v ! i). live (vs_files vs) p"
    using ok unfolding vset_ok_def version_ok_def by blast
  let ?vs = "store_version base (v\<lparr>v_refs := v_refs v + 1\<rparr>) vs"
  let ?b = "\<lparr>bd_base = base, bd_levels = replicate n \<lparr>ls_deleted = {}, ls_added = []\<rparr>\<rparr>"
  have "Builder Ref n base vs = Inr (?b, ?vs)"
    using assms(1) v(1) by (simp add: Builder_def Ref_increments_def)
  moreover have "vs_compact_pointer ?vs = vs_compact_pointer vs" by (simp add: store_version_def)
  then have "building icmp n ?b ?vs"
    using v ok by (simp add: building_def builder_ok_def vset_ok_def added_ok_def)
  moreover have "all_added (bd_levels ?b) = []" by (simp add: all_added_def)
  ultimately show ?thesis
    using v by (intro exI [of _ ?b] exI [of _ ?vs])
      (simp add: shown_def base_files_def level_files_def numbers_def)
qed

section \<open>Every new file is in exactly one set\<close>

lemma mset_set_insert:
  assumes "\<forall>q \<in> set ps. lt p q \<or> lt q p"
  shows "mset (set_insert lt p ps) = add_mset p (mset ps)"
  using assms by (induction ps) auto

lemma mset_all_added_update:
  assumes "j < length levels" and "mset (ls_added st) = add_mset p (mset (ls_added (levels ! j)))"
  shows "mset (all_added (levels[j := st])) = add_mset p (mset (all_added levels))"
proof -
  have "levels = take j levels @ levels ! j # drop (Suc j) levels"
    using assms(1) by (rule id_take_nth_drop)
  then have "all_added levels = all_added (take j levels) @ ls_added (levels ! j)
      @ all_added (drop (Suc j) levels)"
    by (metis (no_types, lifting) all_added_def concat.simps(2) concat_append list.simps(9) map_append)
  moreover have "all_added (levels[j := st]) = all_added (take j levels) @ ls_added st
      @ all_added (drop (Suc j) levels)"
    using assms(1) by (simp add: all_added_def upd_conv_take_nth_drop)
  ultimately show ?thesis using assms(2) by simp
qed

context ikey_comparator
begin

lemma BySmallestKey_total:
  "fm_number (fm fs p) \<noteq> fm_number (fm fs q) \<Longrightarrow> BySmallestKey icmp fs p q \<or> BySmallestKey icmp fs q p"
  using cmp_flip [of "fm_smallest (fm fs q)" "fm_smallest (fm fs p)"]
    cmp_flip0 [of "fm_smallest (fm fs p)" "fm_smallest (fm fs q)"]
  by (auto simp: BySmallestKey_def Let_def)

lemma Apply_new_mset:
  assumes "\<forall>(l, f) \<in> set news. level_in (length levels) l" and "store_ok fs"
    and "\<forall>p \<in> set (all_added levels). live fs p"
    and "distinct (map (fm_number \<circ> snd) news)"
    and "fm_number ` snd ` set news \<inter> numbers fs (all_added levels) = {}"
    and "ofold (Apply_new icmp) news (levels, fs) = Inr (levels', fs')"
  shows "mset (all_added levels') = mset (all_added levels) + mset [fs_next fs..<fs_next fs'] \<and>
    fs_next fs \<le> fs_next fs' \<and>
    (\<forall>p. live fs' p \<longleftrightarrow> live fs p \<or> fs_next fs \<le> p \<and> p < fs_next fs') \<and>
    (\<forall>p. \<not> live fs p \<longrightarrow> live fs' p \<longrightarrow> fm_refs (fm fs' p) = 1) \<and> extends fs fs'"
  using assms
proof (induction news arbitrary: levels fs)
  case (Cons e news)
  obtain l f where e: "e = (l, f)" by (cases e)
  obtain j where j: "l = int j" "j < length levels"
    using Cons.prems e by (auto simp: level_in_def intro: nonneg_int_cases)
  let ?f = "applied_file f" and ?p = "fs_next fs"
  let ?st = "add_new icmp ?f fs (levels ! j)" and ?fs = "alloc ?f fs"
  let ?lv = "levels[j := ?st]"
  have num: "fm_number ?f = fm_number f" by (simp add: applied_file_def)
  have ext: "extends fs ?fs" using Cons.prems(2) by (rule extends_alloc)
  have sub: "set (ls_added (levels ! j)) \<subseteq> set (all_added levels)"
    using nth_mem [OF j(2)] by (auto simp: all_added_def)
  have "fm_number (fm ?fs ?p) \<noteq> fm_number (fm ?fs q)" if q: "q \<in> set (ls_added (levels ! j))" for q
  proof -
    have "live fs q" using q sub Cons.prems(3) by auto
    then have "fm ?fs q = fm fs q" using extends_live [OF ext] by blast
    moreover have "fm_number (fm fs q) \<in> numbers fs (all_added levels)"
      using q sub by (auto simp: numbers_def)
    moreover have "fm_number f \<notin> numbers fs (all_added levels)" using Cons.prems(5) e by auto
    ultimately show ?thesis using num by auto
  qed
  then have ins: "mset (ls_added ?st) = add_mset ?p (mset (ls_added (levels ! j)))"
    using BySmallestKey_total by (auto simp: add_new_def simp del: alloc_simps intro!: mset_set_insert)
  then have ms: "mset (all_added ?lv) = add_mset ?p (mset (all_added levels))"
    using j(2) by (intro mset_all_added_update)
  then have set': "set (all_added ?lv) = insert ?p (set (all_added levels))"
    by (metis set_mset_add_mset_insert set_mset_mset)
  have numbers': "numbers ?fs (all_added ?lv) = insert (fm_number f) (numbers fs (all_added levels))"
    using extends_numbers [OF ext Cons.prems(3)] num by (simp add: numbers_def set')
  have run: "ofold (Apply_new icmp) news (?lv, ?fs) = Inr (levels', fs')"
    using Cons.prems(6) j by (simp add: e Apply_new_eq)
  have "mset (all_added levels') = mset (all_added ?lv) + mset [fs_next ?fs..<fs_next fs'] \<and>
    fs_next ?fs \<le> fs_next fs' \<and>
    (\<forall>p. live fs' p \<longleftrightarrow> live ?fs p \<or> fs_next ?fs \<le> p \<and> p < fs_next fs') \<and>
    (\<forall>p. \<not> live ?fs p \<longrightarrow> live fs' p \<longrightarrow> fm_refs (fm fs' p) = 1) \<and> extends ?fs fs'"
  proof (rule Cons.IH [OF _ store_ok_alloc [OF Cons.prems(2)] _ _ _ run])
    show "\<forall>(l, f' :: fmeta) \<in> set news. level_in (length ?lv) l" using Cons.prems(1) by simp
    show "\<forall>p \<in> set (all_added ?lv). live ?fs p" using Cons.prems(3) by (simp add: set')
    show "distinct (map (fm_number \<circ> snd) news)"
      using Cons.prems(4) by (simp only: list.map distinct.simps)
    show "fm_number ` snd ` set news \<inter> numbers ?fs (all_added ?lv) = {}"
      using Cons.prems(4,5) e unfolding numbers' by auto
  qed
  note r = this
  have le: "Suc ?p \<le> fs_next fs'" using r by simp
  have up: "[?p..<fs_next fs'] = ?p # [Suc ?p..<fs_next fs']" using le by (simp add: upt_conv_Cons)
  have "mset (all_added levels') = mset (all_added levels) + mset [?p..<fs_next fs']"
    using r ms unfolding up by simp
  moreover have "\<forall>p. live fs' p \<longleftrightarrow> live fs p \<or> ?p \<le> p \<and> p < fs_next fs'"
    using r le by (auto simp: Suc_le_eq)
  moreover have "fm_refs (fm fs' p) = 1" if "\<not> live fs p" "live fs' p" for p
  proof (cases "p = ?p")
    case True
    then have "fm fs' p = ?f" using r extends_live [of ?fs fs' p] by simp
    then show ?thesis by (simp add: applied_file_def)
  next
    case False
    then show ?thesis using r that by simp
  qed
  moreover have "extends fs fs'" using r extends_trans [OF ext] by blast
  ultimately show ?case using le by (metis Suc_leD)
qed auto

end

section \<open>The destructor\<close>

lemma ofold_concat: "ofold (\<lambda>x. ofold f (g x)) xs s = ofold f (concat (map g xs)) s"
  by (induction xs arbitrary: s) (simp_all add: ofold_append obind_def split: sum.splits)

definition dropped :: "fmeta \<Rightarrow> fmeta option" where
  "dropped f = (if fm_refs f \<le> 1 then None else Some (f\<lparr>fm_refs := fm_refs f - 1\<rparr>))"

lemma unref_files:
  assumes "distinct ps" and "\<forall>p \<in> set ps. live fs p"
  shows "\<exists>fs'. ofold unref_file ps fs = Inr fs' \<and> fs_next fs' = fs_next fs \<and>
    (\<forall>q. fs_at fs' q = (if q \<in> set ps then dropped (fm fs q) else fs_at fs q))"
  using assms
proof (induction ps arbitrary: fs)
  case (Cons p ps)
  let ?f = "fm fs p"
  let ?fs = "if fm_refs ?f \<le> 1 then free_file p (store_file p (?f\<lparr>fm_refs := fm_refs ?f - 1\<rparr>) fs)
    else store_file p (?f\<lparr>fm_refs := fm_refs ?f - 1\<rparr>) fs"
  have u: "unref_file p fs = Inr ?fs" using Cons.prems by (simp add: unref_file_def Let_def)
  have at: "fs_at ?fs q = (if q = p then dropped ?f else fs_at fs q)" for q
    by (simp add: dropped_def free_file_def store_file_def)
  then have "\<forall>q \<in> set ps. live ?fs q" using Cons.prems by (auto simp: live_def)
  then obtain fs' where r: "ofold unref_file ps ?fs = Inr fs'"
    "\<forall>q. fs_at fs' q = (if q \<in> set ps then dropped (fm ?fs q) else fs_at ?fs q)"
    and next_at: "fs_next fs' = fs_next ?fs"
    using Cons.IH [of ?fs] Cons.prems(1) by auto
  have "fs_at fs' q = (if q \<in> set (p # ps) then dropped (fm fs q) else fs_at fs q)" for q
    using r(2) at Cons.prems(1) by auto
  moreover have "fs_next fs' = fs_next fs" using next_at by (simp add: free_file_def)
  moreover have "ofold unref_file (p # ps) fs = Inr fs'" using u r(1) by simp
  ultimately show ?case by blast
qed simp

section \<open>Through the whole life of a builder\<close>

text \<open>
  How often a version refers to a file, and the new numbers of an edit: each used once and
  by no file of the base version.
\<close>

definition refs_from :: "nat \<Rightarrow> 'd vset \<Rightarrow> nat \<Rightarrow> int" where
  "refs_from a vs p = int (count_list (concat (v_files (the (vs_versions vs a)))) p)"

definition fresh_numbers :: "version_edit \<Rightarrow> bool" where
  "fresh_numbers e \<longleftrightarrow> distinct (map (fm_number \<circ> snd) (ve_new_files e))"

lemma Apply_fresh:
  assumes cmp: "ikey_comparator icmp" and inv: "building icmp n b vs" and e: "edit_ok n e"
    and fresh: "fresh_numbers e" and none: "\<forall>i < n. ls_added (bd_levels b ! i) = []"
    and run: "Apply icmp e (b, vs) = Inr (b', vs')"
  shows "mset (all_added (bd_levels b')) = mset [fs_next (vs_files vs)..<fs_next (vs_files vs')] \<and>
    (\<forall>p. live (vs_files vs') p \<longleftrightarrow> live (vs_files vs) p
       \<or> fs_next (vs_files vs) \<le> p \<and> p < fs_next (vs_files vs')) \<and>
    (\<forall>p. \<not> live (vs_files vs) p \<longrightarrow> live (vs_files vs') p \<longrightarrow> fm_refs (fm (vs_files vs') p) = 1) \<and>
    extends (vs_files vs) (vs_files vs')"
proof -
  have len: "length (bd_levels b) = n" using inv unfolding building_def builder_ok_def by blast
  have del: "\<forall>(l, m :: u64) \<in> set (ve_deleted_files e). level_in (length (bd_levels b)) l"
    using e len by (auto simp: edit_ok_def list_all_iff)
  obtain lv where lv: "ofold Apply_deleted (ve_deleted_files e) (bd_levels b) = Inr lv" "length lv = n"
    "\<forall>i < n. ls_added (lv ! i) = []"
    using Apply_deleted_loop [OF del] len none by auto
  then have nil: "all_added lv = []" by (auto simp: all_added_def in_set_conv_nth)
  have "ofold (Apply_new icmp) (ve_new_files e) (lv, vs_files vs) = Inr (bd_levels b', vs_files vs')"
    using run lv(1) by (auto simp: Apply_def obind_eq_Inr)
  moreover have "\<forall>(l, f :: fmeta) \<in> set (ve_new_files e). level_in (length lv) l"
    using e lv(2) by (auto simp: edit_ok_def list_all_iff)
  ultimately show ?thesis
    using ikey_comparator.Apply_new_mset [OF cmp, of "ve_new_files e" lv "vs_files vs" "bd_levels b'" "vs_files vs'"]
      inv fresh nil by (auto simp: building_def fresh_numbers_def numbers_def)
qed

lemma save_levels_refs:
  assumes "vs_versions vs v = Some (Version n d v)"
  shows "refs_from v (save_levels icmp b v vs n) p =
    int (count_list (concat (map (saved_files icmp b vs) [0..<n])) p)"
proof -
  have eq: "map (\<lambda>i. v_files (Version n d v) ! i @ (if i < n then saved_files icmp b vs i else [])) [0..<n]
      = map (saved_files icmp b vs) [0..<n]"
    by (simp add: Version_def)
  have len: "length (v_files (Version n d v)) = n" by (simp add: Version_def)
  show ?thesis
    using save_levels_version [OF assms, of n icmp b, unfolded len, OF order_refl, unfolded eq]
    by (simp add: refs_from_def)
qed

lemma build_version_refs:
  assumes cmp: "ikey_comparator icmp" and Ref: "Ref_increments Ref" and Unref: "Unref_decrements Unref"
    and ok: "vset_ok n base vs" and held: "0 < v_refs (the (vs_versions vs base))"
    and v: "vs_versions vs v = Some (Version n d v)" "v \<noteq> base"
    and e: "edit_ok n e" "fresh_numbers e"
    and run: "build_version Ref Unref icmp n e base v vs = Inr vs'"
  shows "live (vs_files vs) p \<Longrightarrow> live (vs_files vs') p \<and>
      fm_refs (fm (vs_files vs') p) = fm_refs (fm (vs_files vs) p) + refs_from v vs' p"
    and "\<not> live (vs_files vs) p \<Longrightarrow> live (vs_files vs') p \<longleftrightarrow> 0 < refs_from v vs' p"
    and "\<not> live (vs_files vs) p \<Longrightarrow> live (vs_files vs') p \<Longrightarrow>
      fm_refs (fm (vs_files vs') p) = refs_from v vs' p"
    and "vs_versions vs' base = vs_versions vs base"
proof -
  obtain b vs1 where 1: "Builder Ref n base vs = Inr (b, vs1)" "building icmp n b vs1" "bd_base b = base"
    "vs_files vs1 = vs_files vs" "vs_versions vs1 = (vs_versions vs)(base \<mapsto>
      (the (vs_versions vs base))\<lparr>v_refs := v_refs (the (vs_versions vs base)) + 1\<rparr>)"
    "\<forall>i < n. ls_added (bd_levels b ! i) = []"
    using Builder_building [OF Ref ok, of icmp] by blast
  obtain b2 vs2 where 2: "Apply icmp e (b, vs1) = Inr (b2, vs2)" "building icmp n b2 vs2"
    "bd_base b2 = base" "vs_versions vs2 = vs_versions vs1"
    using Apply_invariant [OF cmp 1(2) e(1)] 1(3) by auto
  note fresh = Apply_fresh [OF cmp 1(2) e(1) e(2) 1(6) 2(1), unfolded 1(4)]
  let ?new = "[fs_next (vs_files vs)..<fs_next (vs_files vs2)]"
  have v2: "vs_versions vs2 v = Some (Version n d v)" using v 1(5) 2(4) by simp
  have bok: "builder_ok n b2 vs2" using 2(2) by (simp add: building_def)
  let ?vs3 = "save_levels icmp b2 v vs2 n"
  let ?c = "\<lambda>p. int (count_list (concat (map (saved_files icmp b2 vs2) [0..<n])) p)"
  have 3: "SaveTo icmp n b2 v vs2 = Inr ?vs3" and run3: "Builder_destroy Unref b2 ?vs3 = Inr vs'"
    using run 1(1) 2(1) SaveTo_eq [OF bok v2, of icmp] 2(3) v(2)
    by (auto simp: build_version_def split: if_splits)
  have new: "set (all_added (bd_levels b2)) = set ?new" "distinct (all_added (bd_levels b2))"
    using fresh mset_eq_setD mset_eq_imp_distinct_iff distinct_upt by metis+
  have "\<forall>p \<in> set (all_added (bd_levels b2)). live (vs_files ?vs3) p"
    using fresh by (simp add: new(1) save_levels_files)
  from unref_files [OF new(2) this] obtain fs' where
    fs': "ofold unref_file (all_added (bd_levels b2)) (vs_files ?vs3) = Inr fs'"
    "\<forall>q. fs_at fs' q = (if q \<in> set ?new then dropped (fm (vs_files ?vs3) q) else fs_at (vs_files ?vs3) q)"
    unfolding new(1) by blast
  have base3: "vs_versions ?vs3 base = vs_versions vs1 base"
    using save_levels_other [of base v icmp b2 vs2 n] v(2) 2(4) by simp
  obtain w where w: "vs_versions vs base = Some w" using ok by (auto simp: vset_ok_def version_ok_def)
  then have w3: "vs_versions ?vs3 base = Some (w\<lparr>v_refs := v_refs w + 1\<rparr>)" using base3 1(5) by simp
  have "Builder_destroy Unref b2 ?vs3 = Unref base (?vs3\<lparr>vs_files := fs'\<rparr>)"
    using fs'(1) 2(3) by (simp add: Builder_destroy_def ofold_concat all_added_def)
  also have "\<dots> = Inr (store_version base w (?vs3\<lparr>vs_files := fs'\<rparr>))"
    using Unref [unfolded Unref_decrements_def, rule_format,
        of "?vs3\<lparr>vs_files := fs'\<rparr>" base "w\<lparr>v_refs := v_refs w + 1\<rparr>"] w3 held w by simp
  finally have vs': "vs' = store_version base w (?vs3\<lparr>vs_files := fs'\<rparr>)" using run3 by simp
  then have files': "vs_files vs' = fs'" by simp
  show "vs_versions vs' base = vs_versions vs base" using vs' w by simp
  have c: "refs_from v vs' p = ?c p" for p
    using save_levels_refs [OF v2, of icmp b2 p] v(2) by (simp add: vs' refs_from_def)
  have refs3: "fm_refs (fm (vs_files ?vs3) p) = fm_refs (fm (vs_files vs2) p) + ?c p"
    if "live (vs_files vs2) p" for p
    using bumps_refs [OF that] by (simp add: save_levels_files)
  have old: "live (vs_files vs2) p \<and> fm (vs_files vs2) p = fm (vs_files vs) p \<and> p \<notin> set ?new"
    if "live (vs_files vs) p" for p
    using that fresh extends_live store_okD [of "vs_files vs" p] ok
    by (fastforce simp: vset_ok_def live_def)
  show "live (vs_files vs') p \<and>
      fm_refs (fm (vs_files vs') p) = fm_refs (fm (vs_files vs) p) + refs_from v vs' p"
    if p: "live (vs_files vs) p"
  proof -
    have at: "fs_at fs' p = fs_at (vs_files ?vs3) p" using fs'(2) old [OF p] by auto
    have "live (vs_files ?vs3) p" using old [OF p] by (simp add: save_levels_files)
    then have "live fs' p" using at by (simp add: live_def)
    then show ?thesis using at refs3 [of p] old [OF p] c files' by simp
  qed
  have gone: "fs_at fs' p = None" if "\<not> live (vs_files vs) p" "p \<notin> set ?new"
  proof -
    have "\<not> live (vs_files vs2) p" using fresh that by auto
    then have "\<not> live (vs_files ?vs3) p" by (simp add: save_levels_files)
    then show ?thesis using fs'(2) that(2) by (auto simp: live_def)
  qed
  have count: "p \<in> set ?new \<Longrightarrow> fs_at fs' p = dropped (fm (vs_files ?vs3) p)"
    "p \<in> set ?new \<Longrightarrow> \<not> live (vs_files vs) p \<Longrightarrow> fm_refs (fm (vs_files ?vs3) p) = 1 + ?c p"
    using fs'(2) refs3 [of p] fresh by auto
  have unused: "?c p = 0" if "\<not> live (vs_files vs) p" "p \<notin> set ?new"
  proof -
    have "\<not> live (vs_files vs2) p" using fresh that by auto
    moreover have "\<forall>i < n. \<forall>q \<in> set (saved_files icmp b2 vs2 i). live (vs_files vs2) q"
      using bok saved_files_subset [of icmp b2 vs2]
      unfolding builder_ok_def base_files_def by fastforce
    ultimately have "p \<notin> set (concat (map (saved_files icmp b2 vs2) [0..<n]))" by auto
    then show ?thesis by (simp add: count_list_0_iff)
  qed
  show "live (vs_files vs') p \<longleftrightarrow> 0 < refs_from v vs' p" if p: "\<not> live (vs_files vs) p"
  proof (cases "p \<in> set ?new")
    case True
    then show ?thesis using count p c files' by (auto simp: live_def dropped_def)
  next
    case False
    then show ?thesis using gone [OF p] unused [OF p] c files' by (simp add: live_def)
  qed
  show "fm_refs (fm (vs_files vs') p) = refs_from v vs' p"
    if p: "\<not> live (vs_files vs) p" "live (vs_files vs') p"
  proof -
    have new: "p \<in> set ?new" using gone [OF p(1)] p(2) files' unfolding live_def by metis
    then show ?thesis using count [OF new] p c files' by (auto simp: live_def dropped_def split: if_splits)
  qed
qed

end
