(* ===== verification/Filename.thy ===== *)
theory Filename
  imports Status
begin

text \<open>
  File names and the CURRENT file: \<open>db/filename.cc\<close>.

  \<open>pad6\<close> is the conversion \<open>%06llu\<close> of \<open>snprintf\<close>, and \<open>buf100\<close> what a buffer of 100
  characters keeps of the output. The operations of \<open>Env\<close> that \<open>SetCurrentFile\<close> calls
  (\<open>RenameFile\<close>, \<open>RemoveFile\<close>, and the undefined \<open>WriteStringToFileSync\<close>) are arguments
  over an abstract state of the environment; \<open>posix_files\<close> states what the code relies
  on: how each of them changes the contents of files.
\<close>

section \<open>Numbers in file names\<close>

definition digit_char :: "nat \<Rightarrow> char" where
  "digit_char d = char_of (48 + d)"

fun decimal :: "nat \<Rightarrow> string" where
  "decimal n = (if n < 10 then [digit_char n] else decimal (n div 10) @ [digit_char (n mod 10)])"

declare decimal.simps [simp del]

definition pad6 :: "nat \<Rightarrow> string" where
  "pad6 n = replicate (6 - length (decimal n)) CHR ''0'' @ decimal n"

definition buf100 :: "string \<Rightarrow> string" where
  "buf100 s = take 99 s"

section \<open>File names\<close>

definition MakeFileName :: "string \<Rightarrow> u64 \<Rightarrow> string \<Rightarrow> string" where
  "MakeFileName dbname number suffix =
     dbname @ buf100 (''/'' @ pad6 (unat number) @ ''.'' @ suffix)"

definition LogFileName :: "string \<Rightarrow> u64 \<Rightarrow> string outcome" where
  "LogFileName dbname number =
     obind (cpp_assert (number > 0)) (\<lambda>_. Inr (MakeFileName dbname number ''log''))"

definition DescriptorFileName :: "string \<Rightarrow> u64 \<Rightarrow> string outcome" where
  "DescriptorFileName dbname number =
     obind (cpp_assert (number > 0)) (\<lambda>_.
       Inr (dbname @ buf100 (''/MANIFEST-'' @ pad6 (unat number))))"

definition TempFileName :: "string \<Rightarrow> u64 \<Rightarrow> string outcome" where
  "TempFileName dbname number =
     obind (cpp_assert (number > 0)) (\<lambda>_. Inr (MakeFileName dbname number ''dbtmp''))"

definition CurrentFileName :: "string \<Rightarrow> string" where
  "CurrentFileName dbname = dbname @ ''/CURRENT''"

text \<open>
  \<open>write_sync data fname\<close>, \<open>rename from to\<close> and \<open>remove fname\<close> act on the environment
  \<open>env\<close>; the statuses of the first two decide what happens, the status of \<open>remove\<close> is ignored.
\<close>

definition SetCurrentFile ::
  "(status \<Rightarrow> bool) \<Rightarrow> (slice \<Rightarrow> string \<Rightarrow> 'e \<Rightarrow> status \<times> 'e) \<Rightarrow>
   (string \<Rightarrow> string \<Rightarrow> 'e \<Rightarrow> status \<times> 'e) \<Rightarrow> (string \<Rightarrow> 'e \<Rightarrow> status \<times> 'e) \<Rightarrow>
   string \<Rightarrow> u64 \<Rightarrow> 'e \<Rightarrow> (status \<times> 'e) outcome" where
  "SetCurrentFile ok write_sync rename remove dbname descriptor_number env =
     obind (DescriptorFileName dbname descriptor_number) (\<lambda>manifest.
     obind (cpp_assert (start_with manifest (dbname @ ''/''))) (\<lambda>_.
     let contents = remove_prefix manifest (length dbname + 1) in
     obind (TempFileName dbname descriptor_number) (\<lambda>tmp.
     let (s, env1) = write_sync (contents @ [CHR 10]) tmp env;
         (s', env2) = (if ok s then rename tmp (CurrentFileName dbname) env1 else (s, env1));
         env3 = (if \<not> ok s' then snd (remove tmp env2) else env2)
     in Inr (s', env3))))"

section \<open>Decimal digits\<close>

definition digit_value :: "char \<Rightarrow> nat" where
  "digit_value c = of_char c - 48"

definition number_value :: "string \<Rightarrow> nat" where
  "number_value s = foldl (\<lambda>n c. 10 * n + digit_value c) 0 s"

lemma digit_value_digit_char [simp]: "d < 10 \<Longrightarrow> digit_value (digit_char d) = d"
  by (simp add: digit_value_def digit_char_def)

lemma number_value_snoc [simp]: "number_value (s @ [c]) = 10 * number_value s + digit_value c"
  by (simp add: number_value_def)

lemma number_value_decimal [simp]: "number_value (decimal n) = n"
proof (induction n rule: decimal.induct)
  case (1 n)
  show ?case
  proof (cases "n < 10")
    case True
    then show ?thesis by (simp add: decimal.simps [of n] number_value_def)
  next
    case False
    with "1.IH" show ?thesis by (simp add: decimal.simps [of n])
  qed
qed

lemma number_value_pad6 [simp]: "number_value (pad6 n) = n"
proof -
  have zeros: "foldl (\<lambda>n c. 10 * n + digit_value c) 0 (replicate m CHR ''0'') = 0" for m
    by (induction m) (simp_all add: digit_value_def)
  have "number_value (pad6 n) = number_value (decimal n)"
    unfolding pad6_def number_value_def by (simp add: zeros)
  then show ?thesis by simp
qed

lemma length_decimal: "n < 10 ^ Suc k \<Longrightarrow> length (decimal n) \<le> Suc k"
proof (induction n arbitrary: k rule: decimal.induct)
  case (1 n)
  show ?case
  proof (cases "n < 10")
    case True
    then show ?thesis by (simp add: decimal.simps [of n])
  next
    case False
    with "1.prems" obtain j where k: "k = Suc j" by (cases k) auto
    with "1.prems" have "n div 10 < 10 ^ Suc j" by simp
    with "1.IH" [OF False this] False k show ?thesis by (simp add: decimal.simps [of n])
  qed
qed

lemma length_pad6_u64: "length (pad6 (unat (number :: u64))) \<le> 20"
proof -
  have "unat number < 2 ^ 64" using unsigned_less [of number] by simp
  also have "\<dots> < (10 :: nat) ^ Suc 19" by simp
  finally have "length (decimal (unat number)) \<le> Suc 19" by (rule length_decimal)
  then show ?thesis by (simp add: pad6_def)
qed

lemma digits_pad6: "c \<in> set (pad6 n) \<Longrightarrow> \<exists>d < 10. c = digit_char d"
proof -
  have "\<exists>d < 10. c = digit_char d" if "c \<in> set (decimal n)" for n
    using that
  proof (induction n rule: decimal.induct)
    case (1 n)
    show ?case
    proof (cases "n < 10")
      case True
      with "1.prems" show ?thesis by (subst (asm) decimal.simps) auto
    next
      case False
      with "1" show ?thesis by (subst (asm) (2) decimal.simps) (auto intro: exI [of _ "n mod 10"])
    qed
  qed
  moreover have "\<exists>d < 10. CHR ''0'' = digit_char d"
  proof (intro exI conjI)
    show "CHR ''0'' = digit_char 0" by code_simp
  qed simp
  ultimately show "c \<in> set (pad6 n) \<Longrightarrow> \<exists>d < 10. c = digit_char d"
    by (auto simp: pad6_def split: if_splits)
qed

lemma digit_char_ne:
  assumes "d < 10"
  shows "digit_char d \<noteq> CHR ''.''" "digit_char d \<noteq> CHR ''M''" "digit_char d \<noteq> CHR ''C''"
proof -
  have "of_char (digit_char d) = 48 + d" using assms by (simp add: digit_char_def)
  then have "\<And>c. of_char c < (48 :: nat) \<or> 57 < (of_char c :: nat) \<Longrightarrow> digit_char d \<noteq> c"
    using assms by auto
  then show "digit_char d \<noteq> CHR ''.''" "digit_char d \<noteq> CHR ''M''" "digit_char d \<noteq> CHR ''C''"
    by simp_all
qed

section \<open>Names are never cut and never clash\<close>

lemma MakeFileName_full:
  assumes "length suffix \<le> 60"
  shows "MakeFileName dbname number suffix =
         dbname @ CHR ''/'' # pad6 (unat number) @ CHR ''.'' # suffix"
  using assms length_pad6_u64 [of number] by (simp add: MakeFileName_def buf100_def)

lemma DescriptorFileName_full:
  "number > 0 \<Longrightarrow> DescriptorFileName dbname number =
     Inr (dbname @ ''/MANIFEST-'' @ pad6 (unat number))"
  using length_pad6_u64 [of number] by (simp add: DescriptorFileName_def buf100_def)

lemma takeWhile_pad6: "takeWhile (\<lambda>c. c \<noteq> CHR ''.'') (pad6 n @ CHR ''.'' # s) = pad6 n"
  using digits_pad6 digit_char_ne(1) by (subst takeWhile_append2) fastforce+

text \<open>The number can be read back from the name.\<close>

lemma MakeFileName_number:
  assumes "length s \<le> 60"
  shows "number_value (takeWhile (\<lambda>c. c \<noteq> CHR ''.'')
           (drop (length dbname + 1) (MakeFileName dbname n s))) = unat n"
  unfolding MakeFileName_full [OF assms] by (simp add: takeWhile_pad6)

lemma MakeFileName_inj:
  assumes "length s \<le> 60" "length t \<le> 60" "MakeFileName dbname n s = MakeFileName dbname m t"
  shows "n = m \<and> s = t"
proof -
  have "unat n = unat m"
    using MakeFileName_number [OF assms(1), of dbname n] MakeFileName_number [OF assms(2), of dbname m]
      assms(3) by simp
  then show ?thesis
    using assms(3) unfolding MakeFileName_full [OF assms(1)] MakeFileName_full [OF assms(2)]
    by (simp add: word_unat_eq_iff)
qed

lemma pad6_nonempty: "pad6 n \<noteq> []"
  unfolding pad6_def by (subst decimal.simps) simp

lemma pad6_not_letter:
  assumes "c = CHR ''M'' \<or> c = CHR ''C''"
  shows "pad6 n @ xs \<noteq> c # ys"
proof
  assume "pad6 n @ xs = c # ys"
  then have "c \<in> set (pad6 n)" using pad6_nonempty [of n] by (cases "pad6 n") auto
  with digits_pad6 obtain d where d: "d < 10" "c = digit_char d" by blast
  from digit_char_ne(2,3) [OF d(1)] d(2) assms show False by simp
qed

lemma log_name: "n > 0 \<Longrightarrow> LogFileName db n = Inr (MakeFileName db n ''log'')"
  by (simp add: LogFileName_def)

lemma tmp_name: "n > 0 \<Longrightarrow> TempFileName db n = Inr (MakeFileName db n ''dbtmp'')"
  by (simp add: TempFileName_def)

lemma pad6_inj:
  assumes "pad6 (unat n) = pad6 (unat m)"
  shows "n = m"
proof -
  from arg_cong [OF assms, of number_value] have "unat n = unat m" by (simp only: number_value_pad6)
  then show ?thesis unfolding word_unat_eq_iff .
qed

lemma current_not_temp: "CurrentFileName db \<noteq> MakeFileName db n ''dbtmp''"
proof
  assume "CurrentFileName db = MakeFileName db n ''dbtmp''"
  then have "pad6 (unat n) @ ''.dbtmp'' = CHR ''C'' # ''URRENT''"
    by (simp add: CurrentFileName_def MakeFileName_full)
  with pad6_not_letter [of "CHR ''C''"] show False by blast
qed

lemma current_not_log: "CurrentFileName db \<noteq> MakeFileName db n ''log''"
proof
  assume "CurrentFileName db = MakeFileName db n ''log''"
  then have "pad6 (unat n) @ ''.log'' = CHR ''C'' # ''URRENT''"
    by (simp add: CurrentFileName_def MakeFileName_full)
  with pad6_not_letter [of "CHR ''C''"] show False by blast
qed

text \<open>
  C39: for positive numbers the names exist (their assert holds), none is cut by the
  100-character buffer, and the log, temporary and descriptor files of one database never
  share a name, neither with one another for any numbers, nor two of a kind for different
  numbers, nor any of them with CURRENT.
\<close>

theorem file_names_distinct:
  assumes "n > 0" and "m > 0"
  shows "(LogFileName db n = LogFileName db m \<longleftrightarrow> n = m) \<and>
         (TempFileName db n = TempFileName db m \<longleftrightarrow> n = m) \<and>
         (DescriptorFileName db n = DescriptorFileName db m \<longleftrightarrow> n = m) \<and>
         LogFileName db n \<noteq> TempFileName db m \<and> LogFileName db n \<noteq> DescriptorFileName db m \<and>
         TempFileName db n \<noteq> DescriptorFileName db m \<and>
         Inr (CurrentFileName db) \<notin> {LogFileName db n, TempFileName db n, DescriptorFileName db n} \<and>
         LogFileName db n = Inr (db @ ''/'' @ pad6 (unat n) @ ''.log'') \<and>
         DescriptorFileName db n = Inr (db @ ''/MANIFEST-'' @ pad6 (unat n))"
proof (intro conjI)
  note full = log_name tmp_name DescriptorFileName_full
  show "LogFileName db n = LogFileName db m \<longleftrightarrow> n = m"
    using assms MakeFileName_inj [of "''log''" "''log''" db n m] by (auto simp: log_name)
  show "TempFileName db n = TempFileName db m \<longleftrightarrow> n = m"
    using assms MakeFileName_inj [of "''dbtmp''" "''dbtmp''" db n m] by (auto simp: tmp_name)
  show "DescriptorFileName db n = DescriptorFileName db m \<longleftrightarrow> n = m"
    using assms pad6_inj by (auto simp: DescriptorFileName_full)
  show "LogFileName db n \<noteq> TempFileName db m"
    using assms MakeFileName_inj [of "''log''" "''dbtmp''" db n m] by (auto simp: log_name tmp_name)
  show "LogFileName db n \<noteq> DescriptorFileName db m"
    using assms pad6_not_letter [of "CHR ''M''"] by (simp add: full MakeFileName_full)
  show "TempFileName db n \<noteq> DescriptorFileName db m"
    using assms pad6_not_letter [of "CHR ''M''"] by (simp add: full MakeFileName_full)
  show "Inr (CurrentFileName db) \<notin> {LogFileName db n, TempFileName db n, DescriptorFileName db n}"
    using assms current_not_temp [of db n] current_not_log [of db n]
    by (auto simp: full) (simp add: CurrentFileName_def)
  show "LogFileName db n = Inr (db @ ''/'' @ pad6 (unat n) @ ''.log'')"
    using assms by (simp add: log_name MakeFileName_full)
  show "DescriptorFileName db n = Inr (db @ ''/MANIFEST-'' @ pad6 (unat n))"
    by (rule DescriptorFileName_full [OF assms(1)])
qed

theorem file_names_distinct_witness:
  "LogFileName ''/tmp/test'' 7 = Inr ''/tmp/test/000007.log'' \<and>
   LogFileName ''/tmp/test'' 7 \<noteq> TempFileName ''/tmp/test'' 1234567"
proof -
  have "(7 :: u64) > 0" "(1234567 :: u64) > 0" by simp_all
  note names = file_names_distinct [OF this, of "''/tmp/test''"]
  have "pad6 (unat (7 :: u64)) = ''000007''" by code_simp
  then have "''/tmp/test'' @ ''/'' @ pad6 (unat (7 :: u64)) @ ''.log'' = ''/tmp/test/000007.log''"
    by simp
  with names show ?thesis by metis
qed

section \<open>Installing a descriptor as CURRENT\<close>

text \<open>
  What \<open>SetCurrentFile\<close> relies on. \<open>files e\<close> are the contents of the files in the
  environment \<open>e\<close>. Writing and syncing a file that succeeds leaves the data in it, and one
  that fails may leave anything there; renaming is all or nothing; removing concerns the
  named file only.
\<close>

definition posix_files ::
  "(status \<Rightarrow> bool) \<Rightarrow> ('e \<Rightarrow> string \<rightharpoonup> string) \<Rightarrow> (slice \<Rightarrow> string \<Rightarrow> 'e \<Rightarrow> status \<times> 'e) \<Rightarrow>
   (string \<Rightarrow> string \<Rightarrow> 'e \<Rightarrow> status \<times> 'e) \<Rightarrow> (string \<Rightarrow> 'e \<Rightarrow> status \<times> 'e) \<Rightarrow> bool" where
  "posix_files ok files write_sync rename remove \<longleftrightarrow>
     (\<forall>data f e s e'. write_sync data f e = (s, e') \<longrightarrow>
        (\<forall>g. g \<noteq> f \<longrightarrow> files e' g = files e g) \<and> (ok s \<longrightarrow> files e' f = Some data)) \<and>
     (\<forall>a b e s e'. rename a b e = (s, e') \<longrightarrow>
        files e' = (if ok s then (files e)(b := files e a, a := None) else files e)) \<and>
     (\<forall>f e s e'. remove f e = (s, e') \<longrightarrow> (\<forall>g. g \<noteq> f \<longrightarrow> files e' g = files e g))"



end
