(* ===== verification/VersionSet.thy ===== *)
theory VersionSet
  imports VersionRefs Filename
begin

text \<open>
  \<open>VersionSet\<close> of \<open>db/version_set.cc\<close>: \<open>AppendVersion\<close>, \<open>Finalize\<close> (defined under the name
  \<open>Finallize\<close>), \<open>WriteSnapshot\<close> and \<open>LogAndApply\<close>. What the code calls and the repository
  does not define is a field of \<open>vs_ops\<close>: the operations of \<open>Env\<close>, of its files and of
  \<open>log::Writer::AddRecord\<close> act on a world \<open>'w\<close>; \<open>Unlock\<close> and \<open>Lock\<close> of the mutex may change
  everything, since other threads run in between; the doubles \<open>'d\<close> come with their division,
  comparison and conversions. A pointer to a log writer is the pointer to the file it writes
  to. \<open>Log\<close> only prints and is left out.
\<close>

record ('d, 'w) vs_ops =
  vo_Ref :: "nat \<Rightarrow> 'd vset \<Rightarrow> 'd vset outcome"
  vo_Unref :: "nat \<Rightarrow> 'd vset \<Rightarrow> 'd vset outcome"
  vo_delete_version :: "nat \<Rightarrow> 'd vset \<Rightarrow> 'd vset outcome"
  vo_NewWritableFile :: "string \<Rightarrow> 'w \<Rightarrow> status \<times> nat option \<times> 'w"
  vo_delete_file :: "nat option \<Rightarrow> 'w \<Rightarrow> 'w"
  vo_AddRecord :: "nat \<Rightarrow> string \<Rightarrow> 'w \<Rightarrow> status \<times> 'w"
  vo_Sync :: "nat \<Rightarrow> 'w \<Rightarrow> status \<times> 'w"
  vo_WriteStringToFileSync :: "slice \<Rightarrow> string \<Rightarrow> 'w \<Rightarrow> status \<times> 'w"
  vo_RenameFile :: "string \<Rightarrow> string \<Rightarrow> 'w \<Rightarrow> status \<times> 'w"
  vo_RemoveFile :: "string \<Rightarrow> 'w \<Rightarrow> status \<times> 'w"
  vo_Unlock :: "'d vset \<times> 'w \<Rightarrow> 'd vset \<times> 'w"
  vo_Lock :: "'d vset \<times> 'w \<Rightarrow> 'd vset \<times> 'w"

record 'd double_ops =
  do_neg1 :: 'd
  do_gt :: "'d \<Rightarrow> 'd \<Rightarrow> bool"
  do_div :: "'d \<Rightarrow> 'd \<Rightarrow> 'd"
  do_of_nat :: "nat \<Rightarrow> 'd"
  do_kL0_CompactionTrigger :: 'd
  do_TotalFileSize :: "fmeta list \<Rightarrow> u64"
  do_MaxByteForLevel :: "int \<Rightarrow> 'd"

section \<open>AppendVersion\<close>

definition update_version ::
  "nat \<Rightarrow> ('d version \<Rightarrow> 'd version) \<Rightarrow> 'd vset \<Rightarrow> 'd vset outcome" where
  "update_version a f vs = obind (deref_version vs a) (\<lambda>v. Inr (store_version a (f v) vs))"

definition AppendVersion ::
  "(nat \<Rightarrow> 'd vset \<Rightarrow> 'd vset outcome) \<Rightarrow> (nat \<Rightarrow> 'd vset \<Rightarrow> 'd vset outcome)
   \<Rightarrow> nat \<Rightarrow> 'd vset \<Rightarrow> 'd vset outcome" where
  "AppendVersion Ref Unref v vs =
     obind (deref_version vs v) (\<lambda>ver.
     obind (cpp_assert (v_refs ver = 0)) (\<lambda>_.
     obind (cpp_assert (vs_current vs \<noteq> Some v)) (\<lambda>_.
     obind (case vs_current vs of None \<Rightarrow> Inr vs | Some c \<Rightarrow> Unref c vs) (\<lambda>vs.
     obind (Ref v (vs\<lparr>vs_current := Some v\<rparr>)) (\<lambda>vs.
     obind (deref_version vs (vs_dummy vs)) (\<lambda>dummy.
     obind (update_version v (\<lambda>x. x\<lparr>v_prev := v_prev dummy\<rparr>) vs) (\<lambda>vs.
     obind (update_version v (\<lambda>x. x\<lparr>v_next := vs_dummy vs\<rparr>) vs) (\<lambda>vs.
     obind (deref_version vs v) (\<lambda>ver.
     obind (update_version (v_prev ver) (\<lambda>x. x\<lparr>v_next := v\<rparr>) vs) (\<lambda>vs.
     obind (deref_version vs v) (\<lambda>ver.
       update_version (v_next ver) (\<lambda>x. x\<lparr>v_prev := v\<rparr>) vs)))))))))))"

section \<open>Finalize\<close>

definition level_score :: "'d double_ops \<Rightarrow> fstore \<Rightarrow> int \<Rightarrow> nat list \<Rightarrow> 'd" where
  "level_score D fs level files =
     (if level = 0 then do_div D (do_of_nat D (length files)) (do_kL0_CompactionTrigger D)
      else do_div D (do_of_nat D (unat (do_TotalFileSize D (map (fm fs) files))))
             (do_MaxByteForLevel D level))"

definition Finalize_step ::
  "'d double_ops \<Rightarrow> fstore \<Rightarrow> 'd version \<Rightarrow> int \<Rightarrow> int \<times> 'd \<Rightarrow> (int \<times> 'd) outcome" where
  "Finalize_step D fs ver level best =
     obind (at_level level (v_files ver)) (\<lambda>files.
       let score = level_score D fs level files
       in Inr (if do_gt D score (snd best) then (level, score) else best))"

definition Finalize :: "'d double_ops \<Rightarrow> nat \<Rightarrow> nat \<Rightarrow> 'd vset \<Rightarrow> 'd vset outcome" where
  "Finalize D kNumLevels v vs =
     obind (deref_version vs v) (\<lambda>ver.
     obind (ofold (Finalize_step D (vs_files vs) ver) (map int [0..<kNumLevels - 1]) (-1, do_neg1 D))
       (\<lambda>(best_level, best_score).
         Inr (store_version v (ver\<lparr>v_compaction_level := best_level,
                                   v_compaction_score := best_score\<rparr>) vs)))"

section \<open>WriteSnapshot\<close>

definition Snapshot_pointers :: "string list \<Rightarrow> int \<Rightarrow> version_edit \<Rightarrow> version_edit outcome" where
  "Snapshot_pointers cps level edit =
     obind (at_level level cps) (\<lambda>cp.
       Inr (if cp \<noteq> '''' then SetCompactPointer level (snd (InternalKey_DecodeFrom cp)) edit else edit))"

definition Snapshot_file :: "fstore \<Rightarrow> int \<Rightarrow> nat \<Rightarrow> version_edit \<Rightarrow> version_edit outcome" where
  "Snapshot_file fs level p edit =
     obind (deref fs p) (\<lambda>f.
       Inr (AddFile 0 level (fm_number f) (fm_file_size f) (fm_smallest f) (fm_largest f) edit))"

definition Snapshot_files :: "fstore \<Rightarrow> nat list list \<Rightarrow> int \<Rightarrow> version_edit \<Rightarrow> version_edit outcome" where
  "Snapshot_files fs levels level edit =
     obind (at_level level levels) (\<lambda>files. ofold (Snapshot_file fs level) files edit)"

text \<open>The edit \<open>WriteSnapshot\<close> builds; \<open>name\<close> is the name of the user comparator.\<close>

definition snapshot_edit :: "string \<Rightarrow> nat \<Rightarrow> 'd vset \<Rightarrow> version_edit outcome" where
  "snapshot_edit name kNumLevels vs =
     obind (ofold (Snapshot_pointers (vs_compact_pointer vs)) (map int [0..<kNumLevels])
              (SetComparatorName name VersionEdit)) (\<lambda>edit.
     case vs_current vs of
       None \<Rightarrow> if kNumLevels = 0 then Inr edit else Inl NullDeref
     | Some c \<Rightarrow> obind (deref_version vs c) (\<lambda>current.
         ofold (Snapshot_files (vs_files vs) (v_files current)) (map int [0..<kNumLevels]) edit))"

definition WriteSnapshot ::
  "('d, 'w) vs_ops \<Rightarrow> string \<Rightarrow> nat \<Rightarrow> nat \<Rightarrow> 'd vset \<times> 'w \<Rightarrow> (status \<times> 'd vset \<times> 'w) outcome" where
  "WriteSnapshot ops name kNumLevels log s =
     (case s of (vs, w) \<Rightarrow>
      obind (snapshot_edit name kNumLevels vs) (\<lambda>edit.
        let (st, w) = vo_AddRecord ops log (VersionEdit_EncodeTo edit '''') w
        in Inr (st, vs, w)))"

section \<open>LogAndApply\<close>

text \<open>Lines 305-317: the edit is completed.\<close>

definition LogAndApply_edit :: "version_edit \<Rightarrow> 'd vset \<Rightarrow> version_edit outcome" where
  "LogAndApply_edit edit vs =
     obind
       (if ve_has_log_number edit then
          obind (cpp_assert (vs_log_number vs \<le> ve_log_number edit)) (\<lambda>_.
          obind (cpp_assert (ve_log_number edit < vs_next_file_number vs)) (\<lambda>_. Inr edit))
        else Inr (SetLogNumber (vs_log_number vs) edit)) (\<lambda>edit.
     let edit = (if \<not> ve_has_prev_log_number edit then SetPrevLogNumber (vs_prev_log_number vs) edit
                 else edit)
     in Inr (SetLastSequence (vs_last_sequence vs) (SetNextFile (vs_next_file_number vs) edit)))"

text \<open>Lines 319-326: the new version is built and finalized.\<close>

definition LogAndApply_version ::
  "('d, 'w) vs_ops \<Rightarrow> 'd double_ops \<Rightarrow> (ikey \<Rightarrow> ikey \<Rightarrow> int) \<Rightarrow> nat \<Rightarrow> version_edit \<Rightarrow> 'd vset
   \<Rightarrow> (nat \<times> 'd vset) outcome" where
  "LogAndApply_version ops D icmp kNumLevels edit vs =
     (let (v, vs) = new_version kNumLevels (do_neg1 D) vs
      in case vs_current vs of
           None \<Rightarrow> Inl NullDeref
         | Some current \<Rightarrow>
             obind (build_version (vo_Ref ops) (vo_Unref ops) icmp kNumLevels edit current v vs) (\<lambda>vs.
             obind (Finalize D kNumLevels v vs) (\<lambda>vs. Inr (v, vs))))"

text \<open>Lines 330-343: the descriptor is opened on first use, with a snapshot.\<close>

definition LogAndApply_descriptor ::
  "(status \<Rightarrow> bool) \<Rightarrow> ('d, 'w) vs_ops \<Rightarrow> string \<Rightarrow> string \<Rightarrow> nat \<Rightarrow> version_edit \<Rightarrow> 'd vset \<times> 'w
   \<Rightarrow> (status \<times> string \<times> version_edit \<times> 'd vset \<times> 'w) outcome" where
  "LogAndApply_descriptor ok ops name dbname kNumLevels edit s =
     (case s of (vs, w) \<Rightarrow>
      if vs_descriptor_file vs \<noteq> None then Inr (Status_default, '''', edit, vs, w)
      else
        obind (DescriptorFileName dbname (vs_manifest_file_number vs)) (\<lambda>new_manifest_file.
        let edit = SetNextFile (vs_next_file_number vs) edit;
            (st, file, w) = vo_NewWritableFile ops new_manifest_file w;
            vs = vs\<lparr>vs_descriptor_file := file\<rparr>
        in if \<not> ok st then Inr (st, new_manifest_file, edit, vs, w)
           else let vs = vs\<lparr>vs_descriptor_log := file\<rparr>
             in case file of
                  None \<Rightarrow> Inl NullDeref
                | Some log \<Rightarrow> obind (WriteSnapshot ops name kNumLevels log (vs, w)) (\<lambda>(st, vs, w).
                    Inr (st, new_manifest_file, edit, vs, w))))"

text \<open>Lines 345-365: the record is written with the mutex released; the status of \<open>Sync\<close> is dropped.\<close>

definition LogAndApply_record ::
  "(status \<Rightarrow> bool) \<Rightarrow> ('d, 'w) vs_ops \<Rightarrow> version_edit \<Rightarrow> status \<Rightarrow> 'd vset \<times> 'w
   \<Rightarrow> (status \<times> 'd vset \<times> 'w) outcome" where
  "LogAndApply_record ok ops edit st s =
     (case s of (vs, w) \<Rightarrow>
      if \<not> ok st then Inr (st, vs, w)
      else case vs_descriptor_log vs of
          None \<Rightarrow> Inl NullDeref
        | Some log \<Rightarrow>
            (let (st, w) = vo_AddRecord ops log (VersionEdit_EncodeTo edit '''') w
             in if \<not> ok st then Inr (st, vs, w)
                else case vs_descriptor_file vs of
                    None \<Rightarrow> Inl NullDeref
                  | Some file \<Rightarrow> (case vo_Sync ops file w of (_, w) \<Rightarrow> Inr (st, vs, w))))"

definition LogAndApply_current ::
  "(status \<Rightarrow> bool) \<Rightarrow> ('d, 'w) vs_ops \<Rightarrow> string \<Rightarrow> string \<Rightarrow> status \<Rightarrow> 'd vset \<times> 'w
   \<Rightarrow> (status \<times> 'd vset \<times> 'w) outcome" where
  "LogAndApply_current ok ops dbname new_manifest_file st s =
     (case s of (vs, w) \<Rightarrow>
      if ok st \<and> new_manifest_file \<noteq> '''' then
        obind (SetCurrentFile ok (vo_WriteStringToFileSync ops) (vo_RenameFile ops) (vo_RemoveFile ops)
                 dbname (vs_manifest_file_number vs) w) (\<lambda>(st, w). Inr (st, vs, w))
      else Inr (st, vs, w))"

text \<open>Lines 367-381: the version is installed, or everything is undone.\<close>

definition LogAndApply_install ::
  "(status \<Rightarrow> bool) \<Rightarrow> ('d, 'w) vs_ops \<Rightarrow> string \<Rightarrow> version_edit \<Rightarrow> nat \<Rightarrow> status \<Rightarrow> 'd vset \<times> 'w
   \<Rightarrow> ('d vset \<times> 'w) outcome" where
  "LogAndApply_install ok ops new_manifest_file edit v st s =
     (case s of (vs, w) \<Rightarrow>
      if ok st then
        obind (AppendVersion (vo_Ref ops) (vo_Unref ops) v vs) (\<lambda>vs.
          Inr (vs\<lparr>vs_log_number := ve_log_number edit, vs_prev_log_number := ve_prev_log_number edit\<rparr>, w))
      else
        obind (vo_delete_version ops v vs) (\<lambda>vs.
          if new_manifest_file \<noteq> '''' then
            let w = vo_delete_file ops (vs_descriptor_file vs) w;
                vs = vs\<lparr>vs_descriptor_log := None, vs_descriptor_file := None\<rparr>
            in Inr (vs, snd (vo_RemoveFile ops new_manifest_file w))
          else Inr (vs, w)))"

definition LogAndApply ::
  "(status \<Rightarrow> bool) \<Rightarrow> ('d, 'w) vs_ops \<Rightarrow> 'd double_ops \<Rightarrow> (ikey \<Rightarrow> ikey \<Rightarrow> int) \<Rightarrow> string \<Rightarrow> string \<Rightarrow> nat
   \<Rightarrow> version_edit \<Rightarrow> 'd vset \<times> 'w \<Rightarrow> (status \<times> version_edit \<times> 'd vset \<times> 'w) outcome" where
  "LogAndApply ok ops D icmp name dbname kNumLevels edit s =
     (case s of (vs, w) \<Rightarrow>
      obind (LogAndApply_edit edit vs) (\<lambda>edit.
      obind (LogAndApply_version ops D icmp kNumLevels edit vs) (\<lambda>(v, vs).
      obind (LogAndApply_descriptor ok ops name dbname kNumLevels edit (vs, w))
        (\<lambda>(st, new_manifest_file, edit, s).
      obind (LogAndApply_record ok ops edit st (vo_Unlock ops s)) (\<lambda>(st, s).
      obind (LogAndApply_current ok ops dbname new_manifest_file st s) (\<lambda>(st, s).
      obind (LogAndApply_install ok ops new_manifest_file edit v st (vo_Lock ops s)) (\<lambda>s.
        Inr (st, edit, s))))))))"

end
