(* ===== verification/VersionBuilderProps.thy ===== *)
theory VersionBuilderProps
  imports VersionRefs
begin

text \<open>
  The properties of \<open>VersionSet::Builder\<close>, each with an instance: a version set of two levels
  whose current version at address 1 holds one file on level 1, an empty new version at
  address 2, and edits on them.
\<close>

section \<open>The instance\<close>

definition ex_Ref :: "nat \<Rightarrow> 'd vset \<Rightarrow> 'd vset outcome" where
  "ex_Ref a vs = obind (deref_version vs a) (\<lambda>v. Inr (store_version a (v\<lparr>v_refs := v_refs v + 1\<rparr>) vs))"

definition ex_Unref :: "nat \<Rightarrow> 'd vset \<Rightarrow> 'd vset outcome" where
  "ex_Unref a vs = obind (deref_version vs a) (\<lambda>v. Inr (store_version a (v\<lparr>v_refs := v_refs v - 1\<rparr>) vs))"

definition ex_file :: "u64 \<Rightarrow> ikey \<Rightarrow> ikey \<Rightarrow> fmeta" where
  "ex_file num smallest largest = (FileMetaData 0)\<lparr>fm_refs := 1, fm_number := num,
     fm_file_size := 5 * 2 ^ 21, fm_smallest := smallest, fm_largest := largest\<rparr>"

definition ex_vset :: "int vset" where
  "ex_vset =
     \<lparr>vs_files = \<lparr>fs_at = (\<lambda>p. if p = 0 then Some (ex_file 5 ''b'' ''c'') else None), fs_next = 1\<rparr>,
      vs_versions = (\<lambda>a. if a = 0 then Some (Version 2 (-1) 0)
        else if a = 1 then Some ((Version 2 (-1) 1)\<lparr>v_refs := 1, v_files := [[], [0]]\<rparr>)
        else if a = 2 then Some (Version 2 (-1) 2) else None),
      vs_next_version = 3, vs_next_file_number = 9, vs_manifest_file_number = 1,
      vs_last_sequence = 0, vs_log_number = 0, vs_prev_log_number = 0,
      vs_descriptor_file = None, vs_descriptor_log = None, vs_dummy = 0, vs_current = Some 1,
      vs_compact_pointer = ['''', '''']\<rparr>"

definition ex_edit :: version_edit where
  "ex_edit = AddFile 0 1 7 (2 ^ 22) ''d'' ''e'' (AddFile 0 0 8 (2 ^ 20) ''a'' ''f'' VersionEdit)"

definition ex_edit2 :: version_edit where
  "ex_edit2 = RemoveFile 1 5 VersionEdit"

lemma ex_Ref: "Ref_increments ex_Ref"
  by (simp add: Ref_increments_def ex_Ref_def)

lemma ex_Unref: "Unref_decrements ex_Unref"
  by (simp add: Unref_decrements_def ex_Unref_def)

lemma ex_vset_ok: "vset_ok 2 1 ex_vset"
  by (auto simp: vset_ok_def version_ok_def ex_vset_def store_ok_def live_def less_2_cases_iff
      split: if_splits)

lemma ex_edits_ok: "list_all (edit_ok 2) [ex_edit, ex_edit2]" "edit_ok 2 ex_edit"
  by code_simp+

lemma ex_new_version: "vs_versions ex_vset 2 = Some (Version 2 (-1) 2)"
  by (simp add: ex_vset_def)

section \<open>Edits\<close>

text \<open>C2: a builder made on a version and given any sequence of edits with levels in range
  returns from every \<open>Apply\<close>. \<open>SaveTo\<close> on an empty version then either stops at its overlap
  assert, exactly when two neighbours of a level above 0 overlap, or returns, and then on
  every level the new version has the file numbers obtained by applying the edits one after
  the other to those of the base version: delete the deleted ones, add the new ones.\<close>

theorem Builder_applies_edits:
  assumes "ikey_comparator icmp" and "Ref_increments Ref" and "vset_ok n base vs"
    and "list_all (edit_ok n) es" and "vs_versions vs v = Some (Version n d v)" and "v \<noteq> base"
  shows "\<exists>b vs1. obind (Builder Ref n base vs) (ofold (Apply icmp) es) = Inr (b, vs1) \<and>
    (if no_overlaps icmp b vs1 n
     then \<exists>vs2. SaveTo icmp n b v vs1 = Inr vs2 \<and>
       (\<forall>i < n. numbers (vs_files vs2) (level_files v vs2 i) =
          fold (edit_numbers i) es (numbers (vs_files vs) (level_files base vs i)))
     else SaveTo icmp n b v vs1 = Inl AssertFailed)"
proof -
  obtain b0 vs0 where 0: "Builder Ref n base vs = Inr (b0, vs0)" "building icmp n b0 vs0" "bd_base b0 = base"
    "vs_versions vs0 = (vs_versions vs)(base \<mapsto>
      (the (vs_versions vs base))\<lparr>v_refs := v_refs (the (vs_versions vs base)) + 1\<rparr>)"
    "\<forall>i < n. shown b0 vs0 i = numbers (vs_files vs) (level_files base vs i)"
    using Builder_building [OF assms(2,3), of icmp] by blast
  obtain b1 vs1 where 1: "ofold (Apply icmp) es (b0, vs0) = Inr (b1, vs1)" "building icmp n b1 vs1"
    "bd_base b1 = base" "vs_versions vs1 = vs_versions vs0"
    "\<forall>i < n. shown b1 vs1 i = fold (edit_numbers i) es (shown b0 vs0 i)"
    using Apply_sequence [OF assms(1) 0(2) assms(4)] 0(3) by auto
  have v1: "vs_versions vs1 v = Some (Version n d v)" using assms(5,6) 0(4) 1(4) by simp
  have ok: "builder_ok n b1 vs1" using 1(2) by (simp add: building_def)
  have "level_files v (save_levels icmp b1 v vs1 n) i = saved_files icmp b1 vs1 i" if "i < n" for i
    using save_levels_version [OF v1, of n icmp b1] that by (simp add: level_files_def Version_def)
  then have "\<forall>i < n. numbers (vs_files (save_levels icmp b1 v vs1 n))
        (level_files v (save_levels icmp b1 v vs1 n) i) =
      fold (edit_numbers i) es (numbers (vs_files vs) (level_files base vs i))"
    using 0(5) 1(5) by (simp add: save_levels_files numbers_saved_files)
  then show ?thesis using 0(1) 1(1,3) SaveTo_eq [OF ok v1, of icmp] assms(6) by auto
qed

theorem Builder_applies_edits_witness:
  "\<exists>b vs1. obind (Builder ex_Ref 2 1 ex_vset) (ofold (Apply ikey_bytes_compare) [ex_edit, ex_edit2])
      = Inr (b, vs1) \<and>
    (if no_overlaps ikey_bytes_compare b vs1 2
     then \<exists>vs2. SaveTo ikey_bytes_compare 2 b 2 vs1 = Inr vs2 \<and>
       (\<forall>i < 2. numbers (vs_files vs2) (level_files 2 vs2 i) =
          fold (edit_numbers i) [ex_edit, ex_edit2] (numbers (vs_files ex_vset) (level_files 1 ex_vset i)))
     else SaveTo ikey_bytes_compare 2 b 2 vs1 = Inl AssertFailed)"
  by (rule Builder_applies_edits [OF bytes_ikey.ikey_comparator_axioms ex_Ref ex_vset_ok
      ex_edits_ok(1) ex_new_version]) simp

section \<open>The order of a saved version\<close>

definition run_builder ::
  "(nat \<Rightarrow> 'd vset \<Rightarrow> 'd vset outcome) \<Rightarrow> (ikey \<Rightarrow> ikey \<Rightarrow> int) \<Rightarrow> nat \<Rightarrow> version_edit list
   \<Rightarrow> nat \<Rightarrow> nat \<Rightarrow> 'd vset \<Rightarrow> 'd vset outcome" where
  "run_builder Ref icmp n es base v vs =
     obind (obind (Builder Ref n base vs) (ofold (Apply icmp) es)) (\<lambda>(b, vs1). SaveTo icmp n b v vs1)"

text \<open>The files of a level are in the order of their smallest keys.\<close>

definition level_sorted :: "(ikey \<Rightarrow> ikey \<Rightarrow> int) \<Rightarrow> fstore \<Rightarrow> nat list \<Rightarrow> bool" where
  "level_sorted icmp fs ps \<longleftrightarrow> sorted_wrt (\<lambda>p q. \<not> BySmallestKey icmp fs q p) ps"

definition ranges_ok :: "(ikey \<Rightarrow> ikey \<Rightarrow> int) \<Rightarrow> fstore \<Rightarrow> nat list \<Rightarrow> bool" where
  "ranges_ok icmp fs ps \<longleftrightarrow> (\<forall>p \<in> set ps. icmp (fm_smallest (fm fs p)) (fm_largest (fm fs p)) \<le> 0)"

lemma no_overlap_pairwise:
  assumes cmp: "ikey_comparator icmp" and "no_overlap icmp fs ps" and "ranges_ok icmp fs ps"
  shows "sorted_wrt (disjoint_keys icmp fs) ps"
  using assms(2,3)
proof (induction ps)
  case (Cons p ps)
  note trans = comparator.cmp_less_trans [OF ikey_comparator.axioms [OF cmp]]
    and letrans = comparator.cmp_less_le_trans [OF ikey_comparator.axioms [OF cmp]]
  have IH: "sorted_wrt (disjoint_keys icmp fs) ps"
    using Cons by (auto simp: no_overlap_def ranges_ok_def successively_Cons)
  have "disjoint_keys icmp fs p q" if "q \<in> set ps" for q
  proof (cases ps)
    case (Cons r rs)
    have pr: "disjoint_keys icmp fs p r" using Cons.prems(1) Cons by (simp add: no_overlap_def)
    show ?thesis
    proof (cases "q = r")
      case False
      then have "disjoint_keys icmp fs r q" using IH Cons that by auto
      moreover have "icmp (fm_smallest (fm fs r)) (fm_largest (fm fs r)) \<le> 0"
        using Cons.prems(2) Cons by (simp add: ranges_ok_def)
      ultimately show ?thesis using pr letrans trans unfolding disjoint_keys_def by blast
    qed (use pr in simp)
  qed (use that in simp)
  with IH show ?case by simp
qed simp

text \<open>C18: when the levels of the base version are ordered by smallest key, so are those of the
  version a builder saves after any edits, and on the levels above 0 no two files overlap, not
  only neighbours, provided every file's smallest key is not greater than its largest.\<close>

theorem SaveTo_sorted_disjoint:
  assumes "ikey_comparator icmp" and "Ref_increments Ref" and "vset_ok n base vs"
    and "list_all (edit_ok n) es" and "vs_versions vs v = Some (Version n d v)" and "v \<noteq> base"
    and "\<forall>i < n. level_sorted icmp (vs_files vs) (level_files base vs i)"
    and "run_builder Ref icmp n es base v vs = Inr vs'"
    and "\<forall>i < n. ranges_ok icmp (vs_files vs') (level_files v vs' i)"
  shows "\<forall>i < n. level_sorted icmp (vs_files vs') (level_files v vs' i) \<and>
    (0 < i \<longrightarrow> sorted_wrt (disjoint_keys icmp (vs_files vs')) (level_files v vs' i))"
proof (intro allI impI)
  fix i assume i: "i < n"
  obtain b0 vs0 where 0: "Builder Ref n base vs = Inr (b0, vs0)" "building icmp n b0 vs0" "bd_base b0 = base"
    "vs_files vs0 = vs_files vs" "vs_versions vs0 = (vs_versions vs)(base \<mapsto>
      (the (vs_versions vs base))\<lparr>v_refs := v_refs (the (vs_versions vs base)) + 1\<rparr>)"
    using Builder_building [OF assms(2,3), of icmp] by blast
  obtain b1 vs1 where 1: "ofold (Apply icmp) es (b0, vs0) = Inr (b1, vs1)" "building icmp n b1 vs1"
    "bd_base b1 = base" "vs_versions vs1 = vs_versions vs0" "extends (vs_files vs0) (vs_files vs1)"
    using Apply_sequence [OF assms(1) 0(2) assms(4)] 0(3) by auto
  have v1: "vs_versions vs1 v = Some (Version n d v)" using assms(5,6) 0(5) 1(4) by simp
  have ok: "builder_ok n b1 vs1" using 1(2) by (simp add: building_def)
  have vs': "vs' = save_levels icmp b1 v vs1 n" and no: "no_overlaps icmp b1 vs1 n"
    using assms(8) 0(1) 1(1,3) SaveTo_eq [OF ok v1, of icmp] assms(6)
    by (auto simp: run_builder_def split: if_splits)
  have lf: "level_files v vs' i = saved_files icmp b1 vs1 i"
    using save_levels_version [OF v1, of n icmp b1] i by (simp add: vs' level_files_def Version_def)
  have bf: "base_files b1 vs1 i = level_files base vs i"
    using 0(5) 1(3,4) by (simp add: base_files_def level_files_def)
  have live: "\<forall>p \<in> set (base_files b1 vs1 i). live (vs_files vs) p"
    using assms(3) i unfolding bf vset_ok_def version_ok_def level_files_def by auto
  let ?lt = "BySmallestKey icmp (vs_files vs1)"
  have same: "?lt p q = BySmallestKey icmp (vs_files vs) p q"
    if "p \<in> set (base_files b1 vs1 i)" "q \<in> set (base_files b1 vs1 i)" for p q
    using that live extends_live [OF 1(5)] 0(4) by (intro BySmallestKey_cong) auto
  have "sorted_wrt (\<lambda>p q. \<not> BySmallestKey icmp (vs_files vs) q p) (base_files b1 vs1 i)"
    using assms(7) i by (simp add: level_sorted_def bf)
  then have "sorted_wrt (\<lambda>p q. \<not> ?lt q p) (base_files b1 vs1 i)"
    by (rule sorted_wrt_mono_rel [rotated]) (simp add: same)
  moreover have "sorted_wrt ?lt (ls_added (bd_levels b1 ! i))"
    using 1(2) i by (simp add: building_def added_ok_def)
  ultimately have "sorted_wrt (\<lambda>p q. \<not> ?lt q p) (saved_files icmp b1 vs1 i)"
    unfolding saved_files_def by (intro ikey_comparator.sorted_kept_merge [OF assms(1)])
  then have "level_sorted icmp (vs_files vs') (level_files v vs' i)"
    unfolding lf level_sorted_def by (simp add: vs' save_levels_files)
  moreover have "sorted_wrt (disjoint_keys icmp (vs_files vs')) (level_files v vs' i)" if "0 < i"
  proof (rule no_overlap_pairwise [OF assms(1)])
    show "no_overlap icmp (vs_files vs') (level_files v vs' i)"
      using no i that unfolding lf by (simp add: vs' save_levels_files no_overlaps_def)
    show "ranges_ok icmp (vs_files vs') (level_files v vs' i)" using assms(9) i by blast
  qed
  ultimately show "level_sorted icmp (vs_files vs') (level_files v vs' i) \<and>
    (0 < i \<longrightarrow> sorted_wrt (disjoint_keys icmp (vs_files vs')) (level_files v vs' i))" by blast
qed

lemma ex_run: "case run_builder ex_Ref ikey_bytes_compare 2 [ex_edit, ex_edit2] 1 2 ex_vset of
    Inl _ \<Rightarrow> False
  | Inr vs' \<Rightarrow> map (level_files 2 vs') [0, 1] = [[1], [2]] \<and>
      list_all (\<lambda>p. ikey_bytes_compare (fm_smallest (fm (vs_files vs') p)) (fm_largest (fm (vs_files vs') p)) \<le> 0)
        (concat (map (level_files 2 vs') [0, 1]))"
  by code_simp

theorem SaveTo_sorted_disjoint_witness:
  "\<exists>vs'. run_builder ex_Ref ikey_bytes_compare 2 [ex_edit, ex_edit2] 1 2 ex_vset = Inr vs' \<and>
    map (level_files 2 vs') [0, 1] = [[1], [2]] \<and>
    (\<forall>i < 2. level_sorted ikey_bytes_compare (vs_files vs') (level_files 2 vs' i) \<and>
       (0 < i \<longrightarrow> sorted_wrt (disjoint_keys ikey_bytes_compare (vs_files vs')) (level_files 2 vs' i)))"
proof -
  obtain vs' where run: "run_builder ex_Ref ikey_bytes_compare 2 [ex_edit, ex_edit2] 1 2 ex_vset = Inr vs'"
    "map (level_files 2 vs') [0, 1] = [[1], [2]]"
    "\<forall>p \<in> set (concat (map (level_files 2 vs') [0, 1])).
       ikey_bytes_compare (fm_smallest (fm (vs_files vs') p)) (fm_largest (fm (vs_files vs') p)) \<le> 0"
    using ex_run unfolding list_all_iff by (auto split: sum.splits simp del: list.map concat.simps)
  have "\<forall>i < 2. ranges_ok ikey_bytes_compare (vs_files vs') (level_files 2 vs' i)"
    using run(2,3) by (auto simp: ranges_ok_def less_2_cases_iff)
  moreover have "\<forall>i < 2. level_sorted ikey_bytes_compare (vs_files ex_vset) (level_files 1 ex_vset i)"
    by (auto simp: level_sorted_def ex_vset_def level_files_def less_2_cases_iff)
  ultimately show ?thesis
    using SaveTo_sorted_disjoint [OF bytes_ikey.ikey_comparator_axioms ex_Ref ex_vset_ok
        ex_edits_ok(1) ex_new_version _ _ run(1)] run(1,2) by simp
qed

section \<open>Reference counts\<close>

text \<open>C21: through the life of a builder in \<open>LogAndApply\<close> no reference is lost and no file
  leaks, when the edit's new numbers are different: every file that existed has gained one
  reference for each place the new version lists it at, a new file is still allocated exactly
  when the new version lists it and then its count is the number of these places, and the
  base version has its old count again.\<close>

theorem Builder_reference_counts:
  assumes "ikey_comparator icmp" and "Ref_increments Ref" and "Unref_decrements Unref"
    and "vset_ok n base vs" and "0 < v_refs (the (vs_versions vs base))"
    and "vs_versions vs v = Some (Version n d v)" and "v \<noteq> base"
    and "edit_ok n e" and "fresh_numbers e"
    and "build_version Ref Unref icmp n e base v vs = Inr vs'"
  shows "(\<forall>p. live (vs_files vs) p \<longrightarrow> live (vs_files vs') p \<and>
      fm_refs (fm (vs_files vs') p) = fm_refs (fm (vs_files vs) p) + refs_from v vs' p) \<and>
    (\<forall>p. \<not> live (vs_files vs) p \<longrightarrow> (live (vs_files vs') p \<longleftrightarrow> 0 < refs_from v vs' p) \<and>
      (live (vs_files vs') p \<longrightarrow> fm_refs (fm (vs_files vs') p) = refs_from v vs' p)) \<and>
    vs_versions vs' base = vs_versions vs base"
  using build_version_refs [OF assms] by blast

lemma ex_build: "case build_version ex_Ref ex_Unref ikey_bytes_compare 2 ex_edit 1 2 ex_vset of
    Inl _ \<Rightarrow> False | Inr vs' \<Rightarrow> map (level_files 2 vs') [0, 1] = [[1], [0, 2]]"
  by code_simp

theorem Builder_reference_counts_witness:
  "\<exists>vs'. build_version ex_Ref ex_Unref ikey_bytes_compare 2 ex_edit 1 2 ex_vset = Inr vs' \<and>
    map (level_files 2 vs') [0, 1] = [[1], [0, 2]] \<and>
    (\<forall>p. live (vs_files ex_vset) p \<longrightarrow> live (vs_files vs') p \<and>
      fm_refs (fm (vs_files vs') p) = fm_refs (fm (vs_files ex_vset) p) + refs_from 2 vs' p) \<and>
    (\<forall>p. \<not> live (vs_files ex_vset) p \<longrightarrow> (live (vs_files vs') p \<longleftrightarrow> 0 < refs_from 2 vs' p) \<and>
      (live (vs_files vs') p \<longrightarrow> fm_refs (fm (vs_files vs') p) = refs_from 2 vs' p)) \<and>
    vs_versions vs' 1 = vs_versions ex_vset 1"
proof -
  obtain vs' where run: "build_version ex_Ref ex_Unref ikey_bytes_compare 2 ex_edit 1 2 ex_vset = Inr vs'"
    "map (level_files 2 vs') [0, 1] = [[1], [0, 2]]"
    using ex_build by (auto split: sum.splits simp del: list.map)
  have "0 < v_refs (the (vs_versions ex_vset 1))" by (simp add: ex_vset_def)
  moreover have "fresh_numbers ex_edit" by code_simp
  ultimately show ?thesis
    using Builder_reference_counts [OF bytes_ikey.ikey_comparator_axioms ex_Ref ex_Unref ex_vset_ok
        _ ex_new_version _ ex_edits_ok(2) _ run(1)] run by simp
qed

section \<open>Seeks allowed\<close>

text \<open>C40: the number of seeks a new file is allowed is its size in units of 16 KiB, read as a
  32-bit integer, or 100 when that is smaller or negative; so it always lies between 100 and
  2^31 - 1, and files of 2^45 bytes and more wrap around.\<close>

theorem allowed_seeks_value:
  "seeks_of_size file_size =
     (let n = (uint file_size div 16384) mod 2 ^ 32 in if 100 \<le> n \<and> n < 2 ^ 31 then n else 100) \<and>
   100 \<le> seeks_of_size file_size \<and> seeks_of_size file_size < 2 ^ 31"
proof -
  let ?w = "ucast (file_size div 16384) :: 32 word"
  have u: "uint ?w = (uint file_size div 16384) mod 2 ^ 32"
    by (simp add: unsigned_ucast_eq uint_div take_bit_eq_mod)
  then have range: "0 \<le> uint ?w \<and> uint ?w < 2 ^ 32" by simp
  have "sint ?w = (uint ?w + 2 ^ 31) mod 2 ^ 32 - 2 ^ 31"
    by (simp add: sint_uint signed_take_bit_eq_take_bit_shift take_bit_eq_mod)
  moreover have "(uint ?w + 2 ^ 31) mod 2 ^ 32 = uint ?w + 2 ^ 31" if "uint ?w < 2 ^ 31"
    using range that by (intro mod_pos_pos_trivial) simp_all
  moreover have "(uint ?w + 2 ^ 31) mod 2 ^ 32 = uint ?w - 2 ^ 31" if "\<not> uint ?w < 2 ^ 31"
  proof -
    have "(uint ?w - 2 ^ 31 + 2 ^ 32) mod 2 ^ 32 = (uint ?w - 2 ^ 31) mod 2 ^ 32"
      by (rule mod_add_self2)
    then show ?thesis using range that mod_pos_pos_trivial [of "uint ?w - 2 ^ 31" "2 ^ 32"] by (simp add: add.commute)
  qed
  ultimately have "sint ?w = (if uint ?w < 2 ^ 31 then uint ?w else uint ?w - 2 ^ 32)" by simp
  then have "seeks_of_size file_size = (if 100 \<le> uint ?w \<and> uint ?w < 2 ^ 31 then uint ?w else 100)"
    using range by (auto simp: seeks_of_size_def Let_def)
  then show ?thesis unfolding u Let_def by simp
qed

end
