(* ===== verification/VersionSetProps.thy ===== *)
theory VersionSetProps
  imports VersionSet VersionBuilderProps
begin

text \<open>
  The properties of \<open>VersionSet\<close>: the list of versions, the choice of the level to compact,
  the snapshot written to a new MANIFEST, and what \<open>LogAndApply\<close> commits.
\<close>

section \<open>The list of versions\<close>

text \<open>The circular doubly-linked list from \<open>dummy_versions_\<close> through \<open>xs\<close> back to it.\<close>

definition linked :: "'d vset \<Rightarrow> nat \<Rightarrow> nat \<Rightarrow> bool" where
  "linked vs a b \<longleftrightarrow> (\<exists>va vb. vs_versions vs a = Some va \<and> vs_versions vs b = Some vb \<and>
     v_next va = b \<and> v_prev vb = a)"

definition version_list :: "'d vset \<Rightarrow> nat list \<Rightarrow> bool" where
  "version_list vs xs \<longleftrightarrow> distinct (vs_dummy vs # xs) \<and>
     successively (linked vs) (vs_dummy vs # xs @ [vs_dummy vs])"

definition last_version :: "'d vset \<Rightarrow> nat list \<Rightarrow> nat" where
  "last_version vs xs = last (vs_dummy vs # xs)"

lemma version_list_last:
  assumes "version_list vs xs"
  shows "linked vs (last_version vs xs) (vs_dummy vs)"
  using assms successively_append_iff [of "linked vs" "vs_dummy vs # xs" "[vs_dummy vs]"]
  by (simp add: version_list_def last_version_def)

text \<open>Links away from the end of the list survive the insertion of \<open>v\<close> there.\<close>

lemma successively_mono_on:
  "successively P xs \<Longrightarrow> (\<And>a b. a \<in> set (butlast xs) \<Longrightarrow> b \<in> set (tl xs) \<Longrightarrow> P a b \<Longrightarrow> Q a b)
   \<Longrightarrow> successively Q xs"
proof (induction xs)
  case (Cons x xs)
  show ?case
  proof (cases xs)
    case (Cons y ys)
    have "successively Q xs"
    proof (rule Cons.IH)
      show "successively P xs" using Cons.prems(1) Cons by (simp add: successively_Cons)
      show "Q a b" if "a \<in> set (butlast xs)" "b \<in> set (tl xs)" "P a b" for a b
        using Cons.prems(2) that Cons by (auto dest: list.set_sel(2) [rotated])
    qed
    moreover have "Q x y" using Cons.prems Cons by simp
    ultimately show ?thesis using Cons by simp
  qed simp
qed simp

lemma version_list_append:
  assumes list: "version_list vs xs" and v: "v \<notin> set (vs_dummy vs # xs)" "vs_versions vs v = Some ver"
    and ver: "v_prev ver = last_version vs xs" "v_next ver = vs_dummy vs"
    and vs': "vs_dummy vs' = vs_dummy vs"
      "vs_versions vs' = (vs_versions vs)
         (l \<mapsto> (the (vs_versions vs l))\<lparr>v_next := v\<rparr>, d \<mapsto> vd)"
      "vd = (if d = l then (the (vs_versions vs d))\<lparr>v_next := v, v_prev := v\<rparr>
             else (the (vs_versions vs d))\<lparr>v_prev := v\<rparr>)"
    and l: "l = last_version vs xs" and d: "d = vs_dummy vs"
  shows "version_list vs' (xs @ [v])"
proof -
  let ?xs = "vs_dummy vs # xs"
  have lin: "l \<in> set ?xs" using l unfolding last_version_def by (metis last_in_set list.simps(3))
  have ne: "v \<noteq> l" "v \<noteq> d" using lin v(1) d by auto
  obtain vl vdm where ld: "vs_versions vs l = Some vl" "vs_versions vs d = Some vdm"
    using version_list_last [OF list] l d by (auto simp: linked_def)
  have inner: "successively (linked vs') ?xs"
  proof (rule successively_mono_on)
    show "successively (linked vs) ?xs"
      using list successively_append_iff [of "linked vs" ?xs "[vs_dummy vs]"]
      by (simp add: version_list_def)
    fix a b
    assume a: "a \<in> set (butlast ?xs)" and b: "b \<in> set (tl ?xs)" and ab: "linked vs a b"
    have dist: "distinct ?xs" using list by (simp add: version_list_def)
    have "?xs = butlast ?xs @ [l]" using l by (simp add: last_version_def)
    then have al: "a \<noteq> l" using a dist by (metis distinct_append disjoint_insert(1) list.simps(15) Int_commute)
    have bd: "b \<noteq> d" using b dist d by auto
    show "linked vs' a b"
      using ab al bd ne ld unfolding linked_def vs'(2) vs'(3) by auto
  qed
  have lv: "linked vs' l v" using ld ne ver v(2) l by (auto simp: linked_def vs')
  have vd: "linked vs' v d" using ld ne ver v(2) d by (auto simp: linked_def vs')
  have "successively (linked vs') (?xs @ [v] @ [vs_dummy vs])"
    using inner lv vd l d successively_append_iff [of "linked vs'" ?xs "[v, vs_dummy vs]"]
    by (simp add: last_version_def del: last.simps)
  then show ?thesis using list v(1) by (simp add: version_list_def vs'(1))
qed


lemma AppendVersion_result:
  assumes "Ref_increments Ref" and "vs_versions vs v = Some ver" and "v_refs ver = 0"
    and "vs_current vs = Some c" and "c \<noteq> v" and "Unref c vs = Inr vs1"
    and "version_list vs1 xs" and "v \<notin> set (vs_dummy vs1 # xs)" and "vs_versions vs1 v = Some ver"
  shows "\<exists>vers. AppendVersion Ref Unref v vs = Inr (vs1\<lparr>vs_current := Some v, vs_versions := vers\<rparr>) \<and>
    version_list (vs1\<lparr>vs_current := Some v, vs_versions := vers\<rparr>) (xs @ [v]) \<and>
    v_refs (the (vers v)) = 1 \<and> v_files (the (vers v)) = v_files ver \<and>
    (\<forall>a. vers a = None \<longleftrightarrow> vs_versions vs1 a = None)"
proof -
  let ?d = "vs_dummy vs1" and ?l = "last_version vs1 xs"
  obtain vl vd where ld: "vs_versions vs1 ?l = Some vl" "vs_versions vs1 ?d = Some vd" "v_prev vd = ?l"
    using version_list_last [OF assms(7)] by (auto simp: linked_def)
  have lin: "?l \<in> set (?d # xs)" unfolding last_version_def by (metis last_in_set list.simps(3))
  have ne: "v \<noteq> ?l" "v \<noteq> ?d" using lin assms(8) by auto
  let ?ver = "ver\<lparr>v_refs := 1, v_prev := ?l, v_next := ?d\<rparr>"
  let ?vs2 = "(vs1\<lparr>vs_current := Some v\<rparr>)\<lparr>vs_versions := (vs_versions vs1)(v \<mapsto> ?ver)\<rparr>"
  let ?vd = "if ?d = ?l then vd\<lparr>v_next := v, v_prev := v\<rparr> else vd\<lparr>v_prev := v\<rparr>"
  let ?vs' = "?vs2\<lparr>vs_versions := (vs_versions ?vs2)(?l \<mapsto> vl\<lparr>v_next := v\<rparr>, ?d \<mapsto> ?vd)\<rparr>"
  have ref: "Ref v (vs1\<lparr>vs_current := Some v\<rparr>) =
      Inr (store_version v (ver\<lparr>v_refs := 1\<rparr>) (vs1\<lparr>vs_current := Some v\<rparr>))"
    using assms(1,3,9) by (simp add: Ref_increments_def)
  have "AppendVersion Ref Unref v vs = Inr ?vs'"
    using assms ref ld ne
    by (cases "?d = ?l") (auto simp: AppendVersion_def update_version_def store_version_def fun_upd_twist)
  moreover have "version_list ?vs2 xs"
  proof -
    have "linked ?vs2 a b" if "linked vs1 a b" "a \<in> set (?d # xs)" "b \<in> set (?d # xs)" for a b
      using that assms(8) by (auto simp: linked_def)
    then have "successively (linked ?vs2) (?d # xs @ [?d])"
      using assms(7) unfolding version_list_def
      by (elim conjE successively_mono_on) (auto dest!: in_set_butlastD)
    then show ?thesis using assms(7) by (simp add: version_list_def)
  qed
  from version_list_append [OF this, of v ?ver ?vs' ?l ?d ?vd]
  have "version_list ?vs' (xs @ [v])" using ld ne assms(8) by (auto simp: last_version_def)
  moreover have "\<forall>a. vs_versions ?vs' a = None \<longleftrightarrow> vs_versions vs1 a = None"
    using assms(9) ld by auto
  ultimately show ?thesis using ne by (intro exI [of _ "vs_versions ?vs'"]) simp
qed

text \<open>\<open>AppendVersion\<close> of a fresh version makes it the current one, with one reference, and
  puts it at the end of the circular list of versions, whatever releasing the old current
  version took out of the list; the files of the version stay the same.\<close>

theorem AppendVersion_appends:
  assumes "Ref_increments Ref" and "vs_versions vs v = Some ver" and "v_refs ver = 0"
    and "vs_current vs = Some c" and "c \<noteq> v" and "Unref c vs = Inr vs1"
    and "version_list vs1 xs" and "v \<notin> set (vs_dummy vs1 # xs)" and "vs_versions vs1 v = Some ver"
  shows "\<exists>vs'. AppendVersion Ref Unref v vs = Inr vs' \<and> version_list vs' (xs @ [v]) \<and>
    vs_current vs' = Some v \<and> v_refs (the (vs_versions vs' v)) = 1 \<and>
    v_files (the (vs_versions vs' v)) = v_files ver \<and> vs_files vs' = vs_files vs1"
  using AppendVersion_result [where Ref = Ref and Unref = Unref and vs = vs and ?vs1.0 = vs1 and v = v
      and xs = xs, OF assms] by auto

text \<open>The instance of the builder with its current version linked to the dummy.\<close>

definition ex_linked :: "int vset" where
  "ex_linked = ex_vset\<lparr>vs_versions := (vs_versions ex_vset)
     (0 \<mapsto> (Version 2 (-1) 0)\<lparr>v_next := 1, v_prev := 1\<rparr>,
      1 \<mapsto> (Version 2 (-1) 1)\<lparr>v_refs := 2, v_files := [[], [0]], v_next := 0, v_prev := 0\<rparr>)\<rparr>"

theorem AppendVersion_appends_witness:
  "\<exists>vs'. AppendVersion ex_Ref ex_Unref 2 ex_linked = Inr vs' \<and> version_list vs' [1, 2] \<and>
    vs_current vs' = Some 2 \<and> v_refs (the (vs_versions vs' 2)) = 1"
proof -
  let ?vs1 = "store_version 1 ((Version 2 (-1) 1)\<lparr>v_refs := 1, v_files := [[], [0]], v_next := 0, v_prev := 0\<rparr>)
    ex_linked"
  have "ex_Unref 1 ex_linked = Inr ?vs1"
    by (simp add: ex_Unref_def ex_linked_def deref_version_def Version_def)
  moreover have "version_list ?vs1 [1]"
    by (auto simp: version_list_def linked_def ex_linked_def ex_vset_def store_version_def)
  moreover have "vs_versions ex_linked 2 = Some (Version 2 (-1) 2)" "vs_current ex_linked = Some 1"
    "2 \<notin> set (vs_dummy ?vs1 # [1])" "vs_versions ?vs1 2 = Some (Version 2 (-1) 2)"
    by (simp_all add: ex_linked_def ex_vset_def store_version_def)
  moreover have "v_refs (Version 2 (-1 :: int) 2) = 0" by (simp add: Version_def)
  ultimately show ?thesis
    using AppendVersion_appends [OF ex_Ref, of ex_linked 2 "Version 2 (-1) 2" 1 ex_Unref ?vs1 "[1]"]
    by auto
qed

section \<open>Finalize\<close>

text \<open>The scores \<open>Finalize\<close> compares.\<close>

definition score_at :: "'d double_ops \<Rightarrow> 'd vset \<Rightarrow> nat \<Rightarrow> nat \<Rightarrow> 'd" where
  "score_at D vs v i = level_score D (vs_files vs) (int i) (level_files v vs i)"

text \<open>The best of the scores so far: the first one that no other exceeds, if it exceeds -1.\<close>

definition best_of :: "('d \<Rightarrow> 'd \<Rightarrow> bool) \<Rightarrow> 'd \<Rightarrow> (nat \<Rightarrow> 'd) \<Rightarrow> nat \<Rightarrow> int \<times> 'd \<Rightarrow> bool" where
  "best_of gt neg1 score k best \<longleftrightarrow>
     (best = (-1, neg1) \<and> (\<forall>j < k. \<not> gt (score j) neg1)) \<or>
     (\<exists>i < k. best = (int i, score i) \<and> gt (score i) neg1 \<and>
        (\<forall>j < k. \<not> gt (score j) (score i)) \<and> (\<forall>j < i. gt (score i) (score j)))"

lemma best_of_step:
  assumes wo: "weak_order (\<lambda>a b. gt b a)" and b: "best_of gt neg1 score k best"
  shows "best_of gt neg1 score (Suc k) (if gt (score k) (snd best) then (int k, score k) else best)"
proof -
  have irr: "\<not> gt a a" for a using weak_order.less_irrefl [OF wo] .
  have tr: "gt c b \<Longrightarrow> gt b a \<Longrightarrow> gt c a" for a b c using weak_order.less_trans [OF wo] .
  have inc: "\<not> gt b a \<Longrightarrow> \<not> gt c b \<Longrightarrow> \<not> gt c a" for a b c using weak_order.incomp_trans [OF wo] .
  show ?thesis
  proof (cases "gt (score k) (snd best)")
    case True
    have above: "gt (score k) (score j)" if "j < k" for j
      using b True inc [of "score j" "snd best" "score k"] that unfolding best_of_def by fastforce
    have "gt (score k) neg1" using b True tr [of "score k"] unfolding best_of_def by auto
    moreover have "\<not> gt (score j) (score k)" if "j < Suc k" for j
      using that above [of j] irr tr [of "score j" "score k" "score j"] less_Suc_eq by metis
    ultimately show ?thesis using True above unfolding best_of_def by auto
  next
    case False
    then show ?thesis using b unfolding best_of_def by (auto simp: less_Suc_eq)
  qed
qed

text \<open>C33: \<open>Finalize\<close> returns for every version with its levels, and stores the first level,
  the last level excluded, whose score no other level exceeds, with its score; level -1 when
  no score exceeds -1. Nothing else of the version set changes.\<close>

theorem Finalize_best:
  assumes "weak_order (\<lambda>a b. do_gt D b a)" and "vs_versions vs v = Some ver"
    and "length (v_files ver) = n"
  shows "\<exists>l s. Finalize D n v vs =
      Inr (store_version v (ver\<lparr>v_compaction_level := l, v_compaction_score := s\<rparr>) vs) \<and>
    best_of (do_gt D) (do_neg1 D) (score_at D vs v) (n - 1) (l, s)"
proof -
  have lf: "level_files v vs i = v_files ver ! i" for i using assms(2) by (simp add: level_files_def)
  have loop: "\<exists>best. ofold (Finalize_step D (vs_files vs) ver) (map int [0..<k]) (-1, do_neg1 D) = Inr best \<and>
      best_of (do_gt D) (do_neg1 D) (score_at D vs v) k best" if "k \<le> n - 1" for k
    using that
  proof (induction k)
    case 0
    then show ?case by (simp add: best_of_def)
  next
    case (Suc k)
    then obtain best where best:
      "ofold (Finalize_step D (vs_files vs) ver) (map int [0..<k]) (-1, do_neg1 D) = Inr best"
      "best_of (do_gt D) (do_neg1 D) (score_at D vs v) k best" by auto
    have "Finalize_step D (vs_files vs) ver (int k) best =
        Inr (if do_gt D (score_at D vs v k) (snd best) then (int k, score_at D vs v k) else best)"
      using Suc.prems assms(3) by (simp add: Finalize_step_def score_at_def lf Let_def)
    then have "ofold (Finalize_step D (vs_files vs) ver) (map int [0..<Suc k]) (-1, do_neg1 D) =
        Inr (if do_gt D (score_at D vs v k) (snd best) then (int k, score_at D vs v k) else best)"
      using best(1) by (simp add: ofold_append)
    then show ?case using best_of_step [OF assms(1) best(2)] by blast
  qed
  from loop [of "n - 1"] obtain l s where
    "ofold (Finalize_step D (vs_files vs) ver) (map int [0..<n - 1]) (-1, do_neg1 D) = Inr (l, s)"
    "best_of (do_gt D) (do_neg1 D) (score_at D vs v) (n - 1) (l, s)" by auto
  then show ?thesis
    using assms(2) by (intro exI [of _ l] exI [of _ s]) (simp add: Finalize_def)
qed

definition ex_doubles :: "int double_ops" where
  "ex_doubles = \<lparr>do_neg1 = -1, do_gt = (>), do_div = (div), do_of_nat = int,
     do_kL0_CompactionTrigger = 4,
     do_TotalFileSize = (\<lambda>fs. foldr (\<lambda>f n. fm_file_size f + n) fs 0),
     do_MaxByteForLevel = (\<lambda>level. 1048576)\<rparr>"

theorem Finalize_best_witness:
  "\<exists>l s. Finalize ex_doubles 2 1 ex_vset = Inr (store_version 1
      ((Version 2 (-1) 1)\<lparr>v_refs := 1, v_files := [[], [0]], v_compaction_level := l, v_compaction_score := s\<rparr>)
      ex_vset) \<and>
    best_of (>) (-1) (score_at ex_doubles ex_vset 1) 1 (l, s)"
proof -
  have "weak_order (\<lambda>a b :: int. do_gt ex_doubles b a)"
    by unfold_locales (auto simp: ex_doubles_def)
  moreover have "vs_versions ex_vset 1 = Some ((Version 2 (-1) 1)\<lparr>v_refs := 1, v_files := [[], [0]]\<rparr>)"
    by (simp add: ex_vset_def)
  ultimately show ?thesis
    using Finalize_best [of ex_doubles ex_vset 1 _ 2] by (fastforce simp: ex_doubles_def)
qed

section \<open>The snapshot\<close>

lemma Snapshot_pointers_step:
  "k < length cps \<Longrightarrow> Snapshot_pointers cps (int k) e =
     Inr (if cps ! k \<noteq> '''' then SetCompactPointer (int k) (cps ! k) e else e)"
  by (simp add: Snapshot_pointers_def InternalKey_DecodeFrom_def)

lemma Snapshot_pointers_loop:
  assumes "k \<le> length cps"
  shows "\<exists>e'. ofold (Snapshot_pointers cps) (map int [0..<k]) e = Inr e' \<and>
    ve_compact_pointers e' = ve_compact_pointers e @
      map (\<lambda>i. (int i, cps ! i)) (filter (\<lambda>i. cps ! i \<noteq> '''') [0..<k]) \<and>
    ve_deleted_files e' = ve_deleted_files e \<and> ve_new_files e' = ve_new_files e"
  using assms
proof (induction k)
  case (Suc k)
  then obtain e1 where "ofold (Snapshot_pointers cps) (map int [0..<k]) e = Inr e1"
    "ve_compact_pointers e1 = ve_compact_pointers e @
      map (\<lambda>i. (int i, cps ! i)) (filter (\<lambda>i. cps ! i \<noteq> '''') [0..<k])"
    "ve_deleted_files e1 = ve_deleted_files e" "ve_new_files e1 = ve_new_files e" by auto
  then show ?case
    using Suc.prems
    by (simp add: ofold_append Snapshot_pointers_step SetCompactPointer_def)
qed simp

text \<open>The metadata \<open>WriteSnapshot\<close> records for a file.\<close>

definition snapshot_meta :: "fmeta \<Rightarrow> fmeta" where
  "snapshot_meta f = f\<lparr>fm_refs := 0, fm_allowed_seeks := 2 ^ 30\<rparr>"

lemma Snapshot_file_loop:
  "\<forall>p \<in> set ps. live fs p \<Longrightarrow> \<exists>e'. ofold (Snapshot_file fs l) ps e = Inr e' \<and>
    ve_new_files e' = ve_new_files e @ map (\<lambda>p. (l, snapshot_meta (fm fs p))) ps \<and>
    ve_compact_pointers e' = ve_compact_pointers e \<and> ve_deleted_files e' = ve_deleted_files e"
proof (induction ps arbitrary: e)
  case (Cons p ps)
  let ?e = "AddFile 0 l (fm_number (fm fs p)) (fm_file_size (fm fs p)) (fm_smallest (fm fs p))
    (fm_largest (fm fs p)) e"
  have "\<forall>q \<in> set ps. live fs q" using Cons.prems by simp
  from Cons.IH [OF this, of ?e] show ?case
    using Cons.prems
    by (auto simp: Snapshot_file_def AddFile_def snapshot_meta_def FileMetaData_def Let_def)
qed simp

lemma Snapshot_files_step:
  "k < length levels \<Longrightarrow>
   Snapshot_files fs levels (int k) e = ofold (Snapshot_file fs (int k)) (levels ! k) e"
  by (simp add: Snapshot_files_def)

lemma Snapshot_files_loop:
  assumes "k \<le> length levels" and "\<forall>i < k. \<forall>p \<in> set (levels ! i). live fs p"
  shows "\<exists>e'. ofold (Snapshot_files fs levels) (map int [0..<k]) e = Inr e' \<and>
    ve_new_files e' = ve_new_files e @
      concat (map (\<lambda>i. map (\<lambda>p. (int i, snapshot_meta (fm fs p))) (levels ! i)) [0..<k]) \<and>
    ve_compact_pointers e' = ve_compact_pointers e \<and> ve_deleted_files e' = ve_deleted_files e"
  using assms
proof (induction k)
  case (Suc k)
  have "\<forall>i < k. \<forall>p \<in> set (levels ! i). live fs p" using Suc.prems(2) by (auto simp: less_Suc_eq)
  with Suc obtain e1 where 1: "ofold (Snapshot_files fs levels) (map int [0..<k]) e = Inr e1"
    "ve_new_files e1 = ve_new_files e @
      concat (map (\<lambda>i. map (\<lambda>p. (int i, snapshot_meta (fm fs p))) (levels ! i)) [0..<k])"
    "ve_compact_pointers e1 = ve_compact_pointers e" "ve_deleted_files e1 = ve_deleted_files e" by auto
  have "\<forall>p \<in> set (levels ! k). live fs p" using Suc.prems(2) by (simp add: less_Suc_eq)
  from Snapshot_file_loop [OF this, of "int k" e1] show ?case
    using 1 Suc.prems(1) by (auto simp: ofold_append Snapshot_files_step)
qed simp

lemma restored_pointers:
  fixes cps :: "string list"
  assumes "k \<le> length cps"
  shows "fold (\<lambda>(l, x). (\<lambda>c. c[nat l := x]))
      (map (\<lambda>i. (int i, cps ! i)) (filter (\<lambda>i. cps ! i \<noteq> '''') [0..<k])) (replicate (length cps) '''')
    = take k cps @ replicate (length cps - k) ''''"
  using assms
proof (induction k)
  case (Suc k)
  have "take (Suc k) cps = take k cps @ [cps ! k]" using Suc.prems by (simp add: take_Suc_conv_app_nth)
  moreover have "replicate (length cps - k) [] = [] # replicate (length cps - Suc k) ([] :: string)"
    using Suc.prems by (simp add: Suc_diff_Suc flip: replicate_Suc)
  ultimately show ?case using Suc by (auto simp: list_update_append)
qed simp

text \<open>C32: the edit \<open>WriteSnapshot\<close> writes to a new MANIFEST describes the whole current
  version: it is applicable, deletes nothing, applied to an empty version it gives on every
  level exactly the file numbers of the current version, with their sizes and key ranges, and
  applied to empty compaction pointers it gives those of the version set.\<close>

theorem WriteSnapshot_complete:
  assumes "vs_current vs = Some c" and "vset_ok n c vs"
  shows "\<exists>edit. snapshot_edit name n vs = Inr edit \<and> edit_ok n edit \<and>
    (\<forall>i < n. edit_numbers i edit {} = numbers (vs_files vs) (level_files c vs i)) \<and>
    ve_new_files edit = concat (map (\<lambda>i. map (\<lambda>p. (int i, snapshot_meta (fm (vs_files vs) p)))
      (level_files c vs i)) [0..<n]) \<and>
    fold (\<lambda>(l, x). (\<lambda>cps. cps[nat l := x])) (ve_compact_pointers edit) (replicate n '''')
      = vs_compact_pointer vs"
proof -
  obtain v where v: "vs_versions vs c = Some v" "length (v_files v) = n"
    "\<forall>i < n. \<forall>p \<in> set (v_files v ! i). live (vs_files vs) p" "length (vs_compact_pointer vs) = n"
    using assms(2) unfolding vset_ok_def version_ok_def by blast
  obtain e1 where e1: "ofold (Snapshot_pointers (vs_compact_pointer vs)) (map int [0..<n])
      (SetComparatorName name VersionEdit) = Inr e1"
    "ve_compact_pointers e1 = map (\<lambda>i. (int i, vs_compact_pointer vs ! i))
      (filter (\<lambda>i. vs_compact_pointer vs ! i \<noteq> '''') [0..<n])"
    "ve_deleted_files e1 = []" "ve_new_files e1 = []"
    using Snapshot_pointers_loop [of n "vs_compact_pointer vs" "SetComparatorName name VersionEdit"] v(4)
    by (auto simp: SetComparatorName_def VersionEdit_def VersionEdit_Clear_def)
  obtain e2 where e2: "ofold (Snapshot_files (vs_files vs) (v_files v)) (map int [0..<n]) e1 = Inr e2"
    "ve_new_files e2 = concat (map (\<lambda>i. map (\<lambda>p. (int i, snapshot_meta (fm (vs_files vs) p)))
      (v_files v ! i)) [0..<n])"
    "ve_compact_pointers e2 = ve_compact_pointers e1" "ve_deleted_files e2 = []"
    using Snapshot_files_loop [of n "v_files v" "vs_files vs" e1] v e1 by auto
  have lf: "level_files c vs i = v_files v ! i" for i using v(1) by (simp add: level_files_def)
  have "snapshot_edit name n vs = Inr e2"
    using e1(1) e2(1) assms(1) v(1) by (simp add: snapshot_edit_def)
  moreover have "edit_ok n e2"
    using e1 e2 by (auto simp: edit_ok_def list_all_iff level_in_def)
  moreover have "edit_numbers i e2 {} = numbers (vs_files vs) (level_files c vs i)" if "i < n" for i
  proof -
    have "new_numbers i (ve_new_files e2) =
        (\<lambda>p. fm_number (snapshot_meta (fm (vs_files vs) p))) ` set (v_files v ! i)"
    proof -
      have "(int i, f) \<in> set (ve_new_files e2) \<longleftrightarrow>
          f \<in> (\<lambda>p. snapshot_meta (fm (vs_files vs) p)) ` set (v_files v ! i)" for f
        using that by (auto simp: e2(2))
      then show ?thesis by (auto simp: new_numbers_def)
    qed
    then show ?thesis
      by (simp add: edit_numbers_def e2(4) numbers_def lf snapshot_meta_def)
  qed
  moreover have "fold (\<lambda>(l, x). (\<lambda>cps. cps[nat l := x])) (ve_compact_pointers e2) (replicate n '''')
      = vs_compact_pointer vs"
    using restored_pointers [of n "vs_compact_pointer vs"] v(4) e1(2) e2(3) by simp
  ultimately show ?thesis using e2(2) lf by (intro exI [of _ e2]) simp
qed

theorem WriteSnapshot_complete_witness:
  "\<exists>edit. snapshot_edit ''cmp'' 2 ex_vset = Inr edit \<and> edit_ok 2 edit \<and>
    (\<forall>i < 2. edit_numbers i edit {} = numbers (vs_files ex_vset) (level_files 1 ex_vset i)) \<and>
    ve_new_files edit = concat (map (\<lambda>i. map (\<lambda>p. (int i, snapshot_meta (fm (vs_files ex_vset) p)))
      (level_files 1 ex_vset i)) [0..<2]) \<and>
    fold (\<lambda>(l, x). (\<lambda>cps. cps[nat l := x])) (ve_compact_pointers edit) (replicate 2 '''')
      = vs_compact_pointer ex_vset"
  by (rule WriteSnapshot_complete [OF _ ex_vset_ok]) (simp add: ex_vset_def)

section \<open>What LogAndApply commits\<close>

text \<open>The status \<open>Sync\<close> returns for the MANIFEST has no effect: with any status in its
  place \<open>LogAndApply\<close> does the same, so a version whose record is not durable is installed.\<close>

theorem LogAndApply_ignores_sync:
  "LogAndApply ok (ops\<lparr>vo_Sync := \<lambda>f w. (st, snd (sync f w))\<rparr>) D icmp name dbname n edit s
   = LogAndApply ok (ops\<lparr>vo_Sync := sync\<rparr>) D icmp name dbname n edit s"
proof -
  have "LogAndApply_record ok (ops\<lparr>vo_Sync := \<lambda>f w. (st, snd (sync f w))\<rparr>) =
      LogAndApply_record ok (ops\<lparr>vo_Sync := sync\<rparr>)"
    by (intro ext) (simp add: LogAndApply_record_def Let_def split: prod.splits option.splits)
  then show ?thesis
    unfolding LogAndApply_def LogAndApply_version_def LogAndApply_descriptor_def
      LogAndApply_current_def LogAndApply_install_def WriteSnapshot_def
    by (cases ops) (simp only: vs_ops.simps)
qed

text \<open>The members of a version set that only \<open>LogAndApply\<close> changes on purpose.\<close>

definition vs_frame :: "'d vset \<Rightarrow> nat option \<times> u64 \<times> u64 \<times> nat option" where
  "vs_frame vs = (vs_current vs, vs_log_number vs, vs_prev_log_number vs, vs_descriptor_file vs)"

definition keeps_frame :: "('d vset \<Rightarrow> 'd vset outcome) \<Rightarrow> bool" where
  "keeps_frame f \<longleftrightarrow> (\<forall>vs vs'. f vs = Inr vs' \<longrightarrow> vs_frame vs' = vs_frame vs)"

text \<open>
  What the commit relies on: reference counting and deleting versions, and whatever other
  threads do while the mutex is released, leave these members alone.
\<close>

definition frame_ok :: "('d, 'w) vs_ops \<Rightarrow> bool" where
  "frame_ok ops \<longleftrightarrow>
     (\<forall>a. keeps_frame (vo_Ref ops a)) \<and> (\<forall>a. keeps_frame (vo_Unref ops a)) \<and>
     (\<forall>a. keeps_frame (vo_delete_version ops a)) \<and>
     (\<forall>s. vs_frame (fst (vo_Unlock ops s)) = vs_frame (fst s)) \<and>
     (\<forall>s. vs_frame (fst (vo_Lock ops s)) = vs_frame (fst s))"

lemma keeps_frameD: "keeps_frame f \<Longrightarrow> f vs = Inr vs' \<Longrightarrow> vs_frame vs' = vs_frame vs"
  by (simp add: keeps_frame_def)

lemma keeps_frame_ofold: "(\<And>x. keeps_frame (f x)) \<Longrightarrow> keeps_frame (ofold f xs)"
proof (induction xs)
  case (Cons x xs)
  then show ?case unfolding keeps_frame_def by (auto simp: obind_eq_Inr)
qed (simp add: keeps_frame_def)

lemma keeps_frame_MaybeAddFile: "keeps_frame (MaybeAddFile icmp b v level p)"
  unfolding keeps_frame_def vs_frame_def
  by (auto simp: MaybeAddFile_def obind_eq_Inr store_version_def split: if_splits)

lemma keeps_frame_SaveTo: "keeps_frame (SaveTo icmp n b v)"
proof -
  have "keeps_frame (SaveTo_level icmp b v level)" for level
    unfolding keeps_frame_def
    by (auto simp: SaveTo_level_def SaveTo_added_eq obind_eq_Inr
        dest!: keeps_frameD [OF keeps_frame_ofold [OF keeps_frame_MaybeAddFile]])
  then show ?thesis unfolding SaveTo_def by (rule keeps_frame_ofold)
qed

lemma keeps_frame_update_version: "keeps_frame (update_version a f)"
  by (auto simp: keeps_frame_def update_version_def obind_eq_Inr store_version_def vs_frame_def)

lemma frame_build_version:
  assumes ops: "frame_ok ops"
    and run: "build_version (vo_Ref ops) (vo_Unref ops) icmp n edit base v vs = Inr vs'"
  shows "vs_frame vs' = vs_frame vs"
proof -
  obtain vs1 b2 vs2 vs3 fs where
    1: "vo_Ref ops base vs = Inr vs1" and
    2: "Apply icmp edit (\<lparr>bd_base = base, bd_levels = replicate n \<lparr>ls_deleted = {}, ls_added = []\<rparr>\<rparr>, vs1)
      = Inr (b2, vs2)" and
    3: "SaveTo icmp n b2 v vs2 = Inr vs3" and
    4: "vo_Unref ops (bd_base b2) (vs3\<lparr>vs_files := fs\<rparr>) = Inr vs'"
    using run by (auto simp: build_version_def Builder_def Builder_destroy_def obind_eq_Inr)
  have "vs_frame vs1 = vs_frame vs" using ops 1 by (auto simp: frame_ok_def dest: keeps_frameD)
  moreover have "vs_frame vs2 = vs_frame vs1" using 2 by (auto simp: Apply_def obind_eq_Inr vs_frame_def)
  moreover have "vs_frame vs3 = vs_frame vs2" using 3 keeps_frameD [OF keeps_frame_SaveTo] by blast
  moreover have "vs_frame vs' = vs_frame (vs3\<lparr>vs_files := fs\<rparr>)"
    using ops 4 by (auto simp: frame_ok_def dest: keeps_frameD)
  ultimately show ?thesis by (simp add: vs_frame_def)
qed

lemma frame_LogAndApply_version:
  assumes ops: "frame_ok ops" and run: "LogAndApply_version ops D icmp n edit vs = Inr (v, vs')"
  shows "v = vs_next_version vs \<and> vs_frame vs' = vs_frame vs"
proof -
  let ?vs0 = "snd (new_version n (do_neg1 D) vs)"
  obtain c vs1 where 1: "build_version (vo_Ref ops) (vo_Unref ops) icmp n edit c (vs_next_version vs) ?vs0 = Inr vs1"
    "Finalize D n (vs_next_version vs) vs1 = Inr vs'" "v = vs_next_version vs"
    using run by (auto simp: LogAndApply_version_def new_version_def Let_def obind_eq_Inr split: option.splits)
  have "vs_frame ?vs0 = vs_frame vs" by (simp add: new_version_def vs_frame_def store_version_def Let_def)
  moreover have "vs_frame vs' = vs_frame vs1"
    using 1(2) by (auto simp: Finalize_def obind_eq_Inr vs_frame_def store_version_def)
  ultimately show ?thesis using frame_build_version [OF ops 1(1)] 1(3) by simp
qed

lemma AppendVersion_frame:
  assumes "frame_ok ops" and "AppendVersion (vo_Ref ops) (vo_Unref ops) v vs = Inr vs'"
  shows "vs_frame vs' = (Some v, vs_log_number vs, vs_prev_log_number vs, vs_descriptor_file vs)"
proof -
  obtain vs1 vs2 vs3 vs4 vs5 p q where
    1: "(case vs_current vs of None \<Rightarrow> Inr vs | Some c \<Rightarrow> vo_Unref ops c vs) = Inr vs1" and
    2: "vo_Ref ops v (vs1\<lparr>vs_current := Some v\<rparr>) = Inr vs2" and
    3: "update_version v (\<lambda>x. x\<lparr>v_prev := p\<rparr>) vs2 = Inr vs3"
       "update_version v (\<lambda>x. x\<lparr>v_next := vs_dummy vs3\<rparr>) vs3 = Inr vs4"
       "\<exists>a. update_version a (\<lambda>x. x\<lparr>v_next := v\<rparr>) vs4 = Inr vs5"
       "\<exists>a. update_version a (\<lambda>x. x\<lparr>v_prev := v\<rparr>) vs5 = Inr vs'"
    using assms(2) unfolding AppendVersion_def obind_eq_Inr by blast
  have "vs_frame vs1 = vs_frame vs"
    using 1 assms(1) by (auto simp: frame_ok_def dest: keeps_frameD split: option.splits)
  moreover have "vs_frame vs2 = vs_frame (vs1\<lparr>vs_current := Some v\<rparr>)"
    using 2 assms(1) by (auto simp: frame_ok_def dest: keeps_frameD)
  moreover have "vs_frame vs' = vs_frame vs2"
    using 3 keeps_frameD [OF keeps_frame_update_version] by metis
  ultimately show ?thesis by (simp add: vs_frame_def)
qed

lemma WriteSnapshot_state:
  "WriteSnapshot ops name n log (vs, w) = Inr (st, vs', w') \<Longrightarrow> vs' = vs"
  by (auto simp: WriteSnapshot_def obind_eq_Inr Let_def case_prod_beta)

lemma DescriptorFileName_nonempty: "DescriptorFileName dbname num = Inr man \<Longrightarrow> man \<noteq> ''''"
  by (auto simp: DescriptorFileName_def obind_eq_Inr buf100_def)

lemma LogAndApply_descriptor_frame:
  assumes "LogAndApply_descriptor ok ops name dbname n e1 (vs1, w) = Inr (st2, man, edit', vs2, w2)"
  shows "vs_current vs2 = vs_current vs1 \<and> vs_log_number vs2 = vs_log_number vs1 \<and>
    vs_prev_log_number vs2 = vs_prev_log_number vs1 \<and>
    (if man = '''' then vs_descriptor_file vs2 = vs_descriptor_file vs1
     else vs_descriptor_file vs1 = None)"
proof (cases "vs_descriptor_file vs1")
  case None
  then obtain m where m: "DescriptorFileName dbname (vs_manifest_file_number vs1) = Inr m"
    using assms by (auto simp: LogAndApply_descriptor_def obind_eq_Inr)
  obtain s f w1 where f: "vo_NewWritableFile ops m w = (s, f, w1)" by (cases "vo_NewWritableFile ops m w") auto
  show ?thesis
    using assms None m f DescriptorFileName_nonempty [OF m]
    by (auto simp: LogAndApply_descriptor_def Let_def obind_eq_Inr dest!: WriteSnapshot_state
        split: if_splits option.splits)
qed (use assms in \<open>auto simp: LogAndApply_descriptor_def\<close>)

text \<open>\<open>LogAndApply\<close> commits or leaves the version set as it was. When the status it returns
  counts as ok, the new version is current and the log numbers are those of the completed
  edit; when it does not, the current version and the log numbers are the old ones, and a
  descriptor opened by this call is closed again.\<close>

theorem LogAndApply_commits:
  assumes "frame_ok ops"
    and "LogAndApply ok ops D icmp name dbname n edit (vs, w) = Inr (st, edit', vs', w')"
  shows "if ok st
    then vs_current vs' = Some (vs_next_version vs) \<and> vs_log_number vs' = ve_log_number edit' \<and>
      vs_prev_log_number vs' = ve_prev_log_number edit'
    else vs_current vs' = vs_current vs \<and> vs_log_number vs' = vs_log_number vs \<and>
      vs_prev_log_number vs' = vs_prev_log_number vs \<and>
      vs_descriptor_file vs' = vs_descriptor_file vs"
proof -
  obtain e1 v vs1 st2 man vs2 w2 st3 vs3 w3 st4 vs4 w4 where
    1: "LogAndApply_version ops D icmp n e1 vs = Inr (v, vs1)" and
    2: "LogAndApply_descriptor ok ops name dbname n e1 (vs1, w) = Inr (st2, man, edit', vs2, w2)" and
    3: "LogAndApply_record ok ops edit' st2 (vo_Unlock ops (vs2, w2)) = Inr (st3, vs3, w3)" and
    4: "LogAndApply_current ok ops dbname man st3 (vs3, w3) = Inr (st, vs4, w4)" and
    5: "LogAndApply_install ok ops man edit' v st (vo_Lock ops (vs4, w4)) = Inr (vs', w')"
    using assms(2) by (auto simp: LogAndApply_def obind_eq_Inr)
  let ?fr = "\<lambda>vs. (vs_current vs, vs_log_number vs, vs_prev_log_number vs)"
  have v: "v = vs_next_version vs" "vs_frame vs1 = vs_frame vs"
    using frame_LogAndApply_version [OF assms(1) 1] by simp_all
  have d: "?fr vs2 = ?fr vs1" "man = '''' \<longrightarrow> vs_descriptor_file vs2 = vs_descriptor_file vs1"
    "man \<noteq> '''' \<longrightarrow> vs_descriptor_file vs1 = None"
    using LogAndApply_descriptor_frame [OF 2] by auto
  have "vs3 = fst (vo_Unlock ops (vs2, w2))"
    using 3 by (auto simp: LogAndApply_record_def Let_def split: if_splits option.splits prod.splits)
  then have u: "vs_frame vs3 = vs_frame vs2" using assms(1) by (simp add: frame_ok_def)
  have "vs4 = vs3" using 4 by (auto simp: LogAndApply_current_def obind_eq_Inr split: if_splits)
  then have l: "vs_frame (fst (vo_Lock ops (vs4, w4))) = vs_frame vs2"
    using u assms(1) by (simp add: frame_ok_def)
  obtain vs5 w5 where L: "vo_Lock ops (vs4, w4) = (vs5, w5)" by (cases "vo_Lock ops (vs4, w4)")
  show ?thesis
  proof (cases "ok st")
    case True
    then obtain vs6 where "AppendVersion (vo_Ref ops) (vo_Unref ops) v vs5 = Inr vs6"
      "vs' = vs6\<lparr>vs_log_number := ve_log_number edit', vs_prev_log_number := ve_prev_log_number edit'\<rparr>"
      using 5 L by (auto simp: LogAndApply_install_def obind_eq_Inr)
    then show ?thesis using True AppendVersion_frame [OF assms(1), of v vs5 vs6] v by (simp add: vs_frame_def)
  next
    case False
    then obtain vs6 where 6: "vo_delete_version ops v vs5 = Inr vs6"
      "vs' = (if man \<noteq> '''' then vs6\<lparr>vs_descriptor_log := None, vs_descriptor_file := None\<rparr> else vs6)"
      using 5 L by (auto simp: LogAndApply_install_def obind_eq_Inr Let_def split: if_splits)
    have "vs_frame vs6 = vs_frame vs5" using 6(1) assms(1) by (auto simp: frame_ok_def dest: keeps_frameD)
    then show ?thesis using False 6(2) l L v(2) d by (auto simp: vs_frame_def)
  qed
qed

text \<open>A world that records the files made and the records written.\<close>

definition ex_ops :: "(int, string list) vs_ops" where
  "ex_ops = \<lparr>vo_Ref = ex_Ref, vo_Unref = ex_Unref, vo_delete_version = (\<lambda>a vs. Inr (vs\<lparr>vs_versions := (vs_versions vs)(a := None)\<rparr>)),
     vo_NewWritableFile = (\<lambda>name w. (Status_default, Some 0, w @ [name])),
     vo_delete_file = (\<lambda>f w. w),
     vo_AddRecord = (\<lambda>log r w. (Status_default, w @ [r])),
     vo_Sync = (\<lambda>f w. (Status_IOError ''sync'' '''', w)),
     vo_WriteStringToFileSync = (\<lambda>data name w. (Status_default, w @ [name])),
     vo_RenameFile = (\<lambda>old new w. (Status_default, w @ [new])),
     vo_RemoveFile = (\<lambda>name w. (Status_default, w)),
     vo_Unlock = (\<lambda>s. s), vo_Lock = (\<lambda>s. s)\<rparr>"

lemma ex_ops_frame: "frame_ok ex_ops"
  by (auto simp: frame_ok_def ex_ops_def keeps_frame_def ex_Ref_def ex_Unref_def obind_eq_Inr
      store_version_def vs_frame_def)

lemma ex_log_and_apply:
  "case LogAndApply Status_is_default ex_ops ex_doubles ikey_bytes_compare ''cmp'' ''db'' 2 ex_edit (ex_vset, []) of
     Inl _ \<Rightarrow> False
   | Inr (st, edit', vs', w') \<Rightarrow> st = Status_default \<and>
       w' = [''db/MANIFEST-000001'', '''', '''', ''db/000001.dbtmp'', ''db/CURRENT'']"
  by code_simp

theorem LogAndApply_commits_witness:
  "\<exists>edit' vs' w'. LogAndApply Status_is_default ex_ops ex_doubles ikey_bytes_compare ''cmp'' ''db'' 2
      ex_edit (ex_vset, []) = Inr (Status_default, edit', vs', w') \<and>
    vs_current vs' = Some 3 \<and> vs_log_number vs' = ve_log_number edit'"
proof -
  obtain edit' vs' w' where run: "LogAndApply Status_is_default ex_ops ex_doubles ikey_bytes_compare
      ''cmp'' ''db'' 2 ex_edit (ex_vset, []) = Inr (Status_default, edit', vs', w')"
    using ex_log_and_apply by (auto split: sum.splits)
  from LogAndApply_commits [OF ex_ops_frame this] run show ?thesis
    by (simp add: Status_is_default_def ex_vset_def)
qed

end
