(* ===== verification/VersionKeys.thy ===== *)
theory VersionKeys
  imports VersionRefs
begin

text \<open>
  What a version holds on a level, as a list of file keys: number, smallest and largest key. The
  effect of an edit on these lists, and when the new list has no overlap.
\<close>

section \<open>File keys\<close>

type_synonym fkey = "u64 \<times> ikey \<times> ikey"

definition file_key :: "fmeta \<Rightarrow> fkey" where
  "file_key f = (fm_number f, fm_smallest f, fm_largest f)"

definition keys :: "fstore \<Rightarrow> nat list \<Rightarrow> fkey list" where
  "keys fs ps = map (\<lambda>p. file_key (fm fs p)) ps"

lemma keys_simps [simp]:
  "keys fs [] = []" "keys fs (ps @ qs) = keys fs ps @ keys fs qs" "length (keys fs ps) = length ps"
  by (simp_all add: keys_def)

lemma set_keys: "set (keys fs ps) = (\<lambda>p. file_key (fm fs p)) ` set ps"
  by (simp add: keys_def)

lemma numbers_keys: "numbers fs ps = fst ` set (keys fs ps)"
  by (simp add: numbers_def keys_def image_image file_key_def)

lemma file_key_bumps [simp]: "file_key (fm (fold bump ps fs) q) = file_key (fm fs q)"
  by (simp add: file_key_def)

lemma keys_cong: "(\<And>p. p \<in> set ps \<Longrightarrow> file_key (fm fs' p) = file_key (fm fs p)) \<Longrightarrow> keys fs' ps = keys fs ps"
  by (simp add: keys_def)

abbreviation level_keys :: "nat \<Rightarrow> 'd vset \<Rightarrow> nat \<Rightarrow> fkey list" where
  "level_keys c vs i \<equiv> keys (vs_files vs) (level_files c vs i)"

text \<open>The order of the overlap assert, and the files an edit leaves and adds on a level.\<close>

definition key_before :: "(ikey \<Rightarrow> ikey \<Rightarrow> int) \<Rightarrow> fkey \<Rightarrow> fkey \<Rightarrow> bool" where
  "key_before icmp a b \<longleftrightarrow> icmp (snd (snd a)) (fst (snd b)) < 0"

definition key_range :: "(ikey \<Rightarrow> ikey \<Rightarrow> int) \<Rightarrow> fkey \<Rightarrow> bool" where
  "key_range icmp a \<longleftrightarrow> icmp (fst (snd a)) (snd (snd a)) \<le> 0"

definition new_keys :: "nat \<Rightarrow> (int \<times> fmeta) list \<Rightarrow> fkey set" where
  "new_keys i news = {file_key f | f. (int i, f) \<in> set news}"

definition edit_keys :: "nat \<Rightarrow> version_edit \<Rightarrow> fkey set \<Rightarrow> fkey set" where
  "edit_keys i e K =
     {k \<in> K. (int i, fst k) \<notin> set (ve_deleted_files e) \<or> fst k \<in> new_numbers i (ve_new_files e)}
       \<union> new_keys i (ve_new_files e)"

lemma new_numbers_keys: "new_numbers i news = fst ` new_keys i news"
  by (force simp: new_numbers_def new_keys_def file_key_def image_iff)

lemma edit_numbers_keys: "edit_numbers i e (fst ` K) = fst ` edit_keys i e K"
  unfolding edit_numbers_def edit_keys_def new_numbers_keys by (auto simp: image_iff)

lemma no_overlap_keys: "no_overlap icmp fs ps \<longleftrightarrow> successively (key_before icmp) (keys fs ps)"
  by (simp add: no_overlap_def keys_def successively_map key_before_def file_key_def disjoint_keys_def)

text \<open>
  The new lists against the old ones: the edit applied, and on the levels above 0 what the asserts
  of \<open>MaybeAddFile\<close> have checked.
\<close>

definition saved_keys ::
  "(ikey \<Rightarrow> ikey \<Rightarrow> int) \<Rightarrow> nat \<Rightarrow> version_edit \<Rightarrow> (nat \<Rightarrow> fkey list) \<Rightarrow> (nat \<Rightarrow> fkey list) \<Rightarrow> bool" where
  "saved_keys icmp n e old new \<longleftrightarrow> (\<forall>i < n. set (new i) = edit_keys i e (set (old i)) \<and>
     (0 < i \<longrightarrow> successively (key_before icmp) (new i)))"

section \<open>What Apply stores\<close>

context ikey_comparator
begin

lemma Apply_new_origin:
  assumes "ofold (Apply_new icmp) news (levels, fs) = Inr (levels', fs')"
    and "\<forall>(l, f) \<in> set news. level_in (length levels) l" and "store_ok fs"
    and "\<forall>i < length levels. added_ok icmp fs (levels ! i)"
    and "i < length levels" and "p \<in> set (ls_added (levels' ! i))"
  shows "p \<in> set (ls_added (levels ! i)) \<or> (\<exists>f. (int i, f) \<in> set news \<and> fm fs' p = applied_file f)"
  using assms
proof (induction news arbitrary: levels fs)
  case (Cons e news)
  obtain l f where e: "e = (l, f)" by (cases e)
  obtain j where j: "l = int j" "j < length levels"
    using Cons.prems(2) e by (auto simp: level_in_def intro: nonneg_int_cases)
  let ?f = "applied_file f"
  let ?lv = "levels[j := add_new icmp ?f fs (levels ! j)]" and ?fs = "alloc ?f fs"
  have run: "ofold (Apply_new icmp) news (?lv, ?fs) = Inr (levels', fs')"
    using Cons.prems(1) j by (simp add: e Apply_new_eq)
  have lv: "\<forall>(l, f' :: fmeta) \<in> set news. level_in (length ?lv) l" using Cons.prems(2) by simp
  have store: "store_ok ?fs" using Cons.prems(3) by (rule store_ok_alloc)
  have added: "\<forall>i < length ?lv. added_ok icmp ?fs (?lv ! i)"
    using j(2) Cons.prems(4) add_new_ok(1) [OF Cons.prems(3), of "levels ! j" ?f]
      extends_added_ok [OF extends_alloc [OF Cons.prems(3)]]
    by (auto simp: nth_list_update)
  have ext: "extends ?fs fs'"
    using Apply_new_loop [OF lv store added] run by auto
  from Cons.IH [OF run lv store added] Cons.prems(5,6)
  consider (old) "p \<in> set (ls_added (?lv ! i))" | (new) g where "(int i, g) \<in> set news" "fm fs' p = applied_file g"
    by auto
  then show ?case
  proof cases
    case old
    show ?thesis
    proof (cases "i = j")
      case True
      then have "p = fs_next fs \<or> p \<in> set (ls_added (levels ! i))"
        using old j(2) set_set_insert_subset [of "BySmallestKey icmp (alloc ?f fs)" "fs_next fs" "ls_added (levels ! j)"]
        by (auto simp: add_new_def)
      moreover have "fm fs' (fs_next fs) = ?f" using extends_live [OF ext, of "fs_next fs"] by simp
      ultimately show ?thesis using True j(1) e by auto
    qed (use old in simp)
  qed auto
qed simp

end

text \<open>A builder, fresh on its base, that has applied one edit.\<close>

definition edited ::
  "(ikey \<Rightarrow> ikey \<Rightarrow> int) \<Rightarrow> nat \<Rightarrow> version_edit \<Rightarrow> builder \<Rightarrow> 'd vset \<Rightarrow> builder \<Rightarrow> 'd vset \<Rightarrow> bool" where
  "edited icmp n e b vs b' vs' \<longleftrightarrow> building icmp n b vs \<and> edit_ok n e \<and> fresh_numbers e \<and>
     (\<forall>i < n. ls_added (bd_levels b ! i) = [] \<and> ls_deleted (bd_levels b ! i) = {}) \<and>
     Apply icmp e (b, vs) = Inr (b', vs')"

lemma Apply_once:
  assumes cmp: "ikey_comparator icmp" and ed: "edited icmp n e b vs b' vs'" and i: "i < n"
  shows "ls_deleted (bd_levels b' ! i) =
      {m. (int i, m) \<in> set (ve_deleted_files e)} - new_numbers i (ve_new_files e)"
    and "set (keys (vs_files vs') (ls_added (bd_levels b' ! i))) = new_keys i (ve_new_files e)"
    and "added_ok icmp (vs_files vs') (bd_levels b' ! i)" and "extends (vs_files vs) (vs_files vs')"
proof -
  note inv = ed [unfolded edited_def, THEN conjunct1]
  have e: "edit_ok n e" and fresh: "fresh_numbers e" and run: "Apply icmp e (b, vs) = Inr (b', vs')"
    and none: "\<forall>i < n. ls_added (bd_levels b ! i) = [] \<and> ls_deleted (bd_levels b ! i) = {}"
    using ed by (simp_all add: edited_def)
  have len: "length (bd_levels b) = n" using inv unfolding building_def builder_ok_def by blast
  have del: "\<forall>(l, m :: u64) \<in> set (ve_deleted_files e). level_in (length (bd_levels b)) l"
    using e len by (auto simp: edit_ok_def list_all_iff)
  obtain lv where lv: "ofold Apply_deleted (ve_deleted_files e) (bd_levels b) = Inr lv" "length lv = n"
    "\<forall>i < n. ls_added (lv ! i) = [] \<and> ls_deleted (lv ! i) = {m. (int i, m) \<in> set (ve_deleted_files e)}"
    using Apply_deleted_loop [OF del] len none by auto
  have news: "ofold (Apply_new icmp) (ve_new_files e) (lv, vs_files vs) = Inr (bd_levels b', vs_files vs')"
    using run lv(1) by (auto simp: Apply_def obind_eq_Inr)
  have lvs: "\<forall>(l, f :: fmeta) \<in> set (ve_new_files e). level_in (length lv) l"
    using e lv(2) by (auto simp: edit_ok_def list_all_iff)
  have store: "store_ok (vs_files vs)" using inv by (simp add: building_def)
  have added: "\<forall>i < length lv. added_ok icmp (vs_files vs) (lv ! i)" using lv by (simp add: added_ok_def)
  have loop: "extends (vs_files vs) (vs_files vs')"
    "added_ok icmp (vs_files vs') (bd_levels b' ! i)"
    "ls_deleted (bd_levels b' ! i) = ls_deleted (lv ! i) - new_numbers i (ve_new_files e)"
    "numbers (vs_files vs') (ls_added (bd_levels b' ! i)) = new_numbers i (ve_new_files e)"
    using ikey_comparator.Apply_new_loop [OF cmp lvs store added] news i lv(2,3) by (auto simp: numbers_def)
  show "ls_deleted (bd_levels b' ! i) =
      {m. (int i, m) \<in> set (ve_deleted_files e)} - new_numbers i (ve_new_files e)"
    using loop(3) lv(3) i by simp
  show "added_ok icmp (vs_files vs') (bd_levels b' ! i)" "extends (vs_files vs) (vs_files vs')"
    using loop(1,2) by simp_all
  have origin: "\<exists>f. (int i, f) \<in> set (ve_new_files e) \<and> fm (vs_files vs') p = applied_file f"
    if "p \<in> set (ls_added (bd_levels b' ! i))" for p
    using ikey_comparator.Apply_new_origin [OF cmp news lvs store added _ that] i lv(2,3) by simp
  have key: "file_key (applied_file f) = file_key f" for f by (simp add: file_key_def applied_file_def)
  show "set (keys (vs_files vs') (ls_added (bd_levels b' ! i))) = new_keys i (ve_new_files e)"
  proof
    show "set (keys (vs_files vs') (ls_added (bd_levels b' ! i))) \<subseteq> new_keys i (ve_new_files e)"
      using origin by (fastforce simp: set_keys new_keys_def key)
    show "new_keys i (ve_new_files e) \<subseteq> set (keys (vs_files vs') (ls_added (bd_levels b' ! i)))"
    proof
      fix k assume "k \<in> new_keys i (ve_new_files e)"
      then obtain f where f: "(int i, f) \<in> set (ve_new_files e)" "k = file_key f" by (auto simp: new_keys_def)
      then have "fm_number f \<in> numbers (vs_files vs') (ls_added (bd_levels b' ! i))"
        unfolding loop(4) by (auto simp: new_numbers_def)
      then obtain p where p: "p \<in> set (ls_added (bd_levels b' ! i))" "fm_number (fm (vs_files vs') p) = fm_number f"
        by (auto simp: numbers_def)
      from origin [OF p(1)] obtain g where g: "(int i, g) \<in> set (ve_new_files e)" "fm (vs_files vs') p = applied_file g"
        by blast
      then have "(fm_number \<circ> snd) (int i, g) = (fm_number \<circ> snd) (int i, f)"
        using p(2) by (simp add: applied_file_def)
      then have "(int i, g) = (int i, f)"
        using fresh f(1) g(1) inj_onD [of "fm_number \<circ> snd" "set (ve_new_files e)"]
        unfolding fresh_numbers_def distinct_map by blast
      then show "k \<in> set (keys (vs_files vs') (ls_added (bd_levels b' ! i)))"
        using f(2) g(2) p(1) by (auto simp: set_keys key image_iff intro!: bexI [of _ p])
    qed
  qed
qed


section \<open>What SaveTo makes of it\<close>

lemma mset_merge_after: "mset (merge_after lt xs ys) = mset xs + mset ys"
proof (induction xs arbitrary: ys)
  case (Cons x xs)
  have "mset ys = mset (take (upper_bound lt x ys) ys) + mset (drop (upper_bound lt x ys) ys)"
    by (metis append_take_drop_id mset_append)
  with Cons show ?case by simp
qed simp

text \<open>The keys of the base files, in the store the edit leaves.\<close>

definition base_keys :: "builder \<Rightarrow> 'd vset \<Rightarrow> nat \<Rightarrow> fkey list" where
  "base_keys b vs i = keys (vs_files vs) (base_files b vs i)"

lemma edited_base:
  assumes cmp: "ikey_comparator icmp" and ed: "edited icmp n e b vs b' vs'" and i: "i < n"
  shows "base_keys b' vs' i = base_keys b vs i"
proof -
  have "base_files b' vs' i = base_files b vs i"
    using ed by (auto simp: edited_def Apply_def obind_eq_Inr base_files_def)
  moreover have "\<forall>p \<in> set (base_files b vs i). live (vs_files vs) p"
    using ed i unfolding edited_def building_def builder_ok_def base_files_def by auto
  ultimately show ?thesis
    unfolding base_keys_def using extends_live [OF Apply_once(4) [OF cmp ed i]]
    by (auto intro!: keys_cong)
qed

lemma saved_files_edited:
  assumes cmp: "ikey_comparator icmp" and ed: "edited icmp n e b vs b' vs'" and i: "i < n"
  shows "set (keys (vs_files vs') (saved_files icmp b' vs' i)) = edit_keys i e (set (base_keys b vs i))"
proof -
  note once = Apply_once [OF cmp ed i]
  have "set (keys (vs_files vs') (saved_files icmp b' vs' i)) =
      {k \<in> new_keys i (ve_new_files e) \<union> set (base_keys b' vs' i). fst k \<notin> ls_deleted (bd_levels b' ! i)}"
    unfolding once(2) [symmetric] base_keys_def
    by (auto simp: saved_files_def kept_def set_keys file_key_def)
  also have "\<dots> = edit_keys i e (set (base_keys b vs i))"
    unfolding once(1) edited_base [OF cmp ed i] edit_keys_def new_numbers_keys by auto
  finally show ?thesis .
qed

section \<open>Edits without overlap\<close>

text \<open>Ranges that are in order and apart, and levels that hold such files in order.\<close>

definition keys_apart :: "(ikey \<Rightarrow> ikey \<Rightarrow> int) \<Rightarrow> fkey set \<Rightarrow> bool" where
  "keys_apart icmp K \<longleftrightarrow> (\<forall>a \<in> K. key_range icmp a \<and>
     (\<forall>b \<in> K. a \<noteq> b \<longrightarrow> key_before icmp a b \<or> key_before icmp b a))"

definition keys_ordered :: "(ikey \<Rightarrow> ikey \<Rightarrow> int) \<Rightarrow> fkey list \<Rightarrow> bool" where
  "keys_ordered icmp ks \<longleftrightarrow> sorted_wrt (key_before icmp) ks \<and> (\<forall>k \<in> set ks. key_range icmp k)"

text \<open>An edit whose files are apart from each other and from those that stay, on each level above 0.\<close>

definition edit_apart ::
  "(ikey \<Rightarrow> ikey \<Rightarrow> int) \<Rightarrow> nat \<Rightarrow> version_edit \<Rightarrow> (nat \<Rightarrow> fkey set) \<Rightarrow> bool" where
  "edit_apart icmp n e old \<longleftrightarrow> (\<forall>i < n. 0 < i \<longrightarrow>
     new_numbers i (ve_new_files e) \<inter> fst ` old i = {} \<and> keys_apart icmp (edit_keys i e (old i)))"

context ikey_comparator
begin

lemma key_before_trans:
  "key_before icmp a b \<Longrightarrow> key_range icmp b \<Longrightarrow> key_before icmp b c \<Longrightarrow> key_before icmp a c"
  unfolding key_before_def key_range_def using cmp_less_le_trans cmp_less_trans by blast

lemma key_before_irrefl: "key_range icmp a \<Longrightarrow> \<not> key_before icmp a a"
  unfolding key_before_def key_range_def using cmp_flip_le [of "fst (snd a)" "snd (snd a)"] by simp

lemma keys_ordered_distinct: "keys_ordered icmp ks \<Longrightarrow> distinct ks"
  by (induction ks) (auto simp: keys_ordered_def key_before_irrefl)

lemma successively_ordered:
  assumes "successively (key_before icmp) ks" and "\<forall>k \<in> set ks. key_range icmp k"
  shows "keys_ordered icmp ks"
  using assms successively_iff_sorted_wrt_strong [of ks "key_before icmp"] key_before_trans
  unfolding keys_ordered_def by blast

text \<open>Files with different keys, in the order of the builder, whose ranges are apart are in order.\<close>

lemma apart_in_order:
  assumes "sorted_wrt (\<lambda>p q. \<not> BySmallestKey icmp fs q p) ps" and "distinct (keys fs ps)"
    and "keys_apart icmp (set (keys fs ps))"
  shows "keys_ordered icmp (keys fs ps)"
proof -
  let ?k = "\<lambda>p. file_key (fm fs p)"
  have before: "key_before icmp (?k p) (?k q)"
    if "\<not> BySmallestKey icmp fs q p" "?k p \<noteq> ?k q" "p \<in> set ps" "q \<in> set ps" for p q
  proof (rule ccontr)
    assume "\<not> key_before icmp (?k p) (?k q)"
    then have "key_before icmp (?k q) (?k p)" "key_range icmp (?k q)"
      using assms(3) that(2-4) unfolding keys_apart_def set_keys by blast+
    then have "icmp (fm_smallest (fm fs q)) (fm_smallest (fm fs p)) < 0"
      using cmp_le_less_trans unfolding key_before_def key_range_def file_key_def by simp
    then show False using that(1) by (simp add: BySmallestKey_def)
  qed
  have "sorted_wrt (key_before icmp) (keys fs ps)"
    using assms(1,2) before
  proof (induction ps)
    case (Cons p ps)
    then have "\<forall>q \<in> set ps. ?k p \<noteq> ?k q" by (auto simp: keys_def)
    with Cons show ?case by (auto simp: keys_def)
  qed simp
  then show ?thesis using assms(3) by (simp add: keys_ordered_def keys_apart_def)
qed

lemma sorted_distinct_keys:
  assumes "sorted_wrt (BySmallestKey icmp fs) ps"
  shows "distinct (keys fs ps)"
proof -
  have "file_key (fm fs p) \<noteq> file_key (fm fs q)" if "BySmallestKey icmp fs p q" for p q
    using that by (auto simp: BySmallestKey_def file_key_def)
  then show ?thesis using assms by (induction ps) (auto simp: keys_def)
qed

end

lemma no_overlaps_apart:
  assumes cmp: "ikey_comparator icmp" and ed: "edited icmp n e b vs b' vs'"
    and apart: "edit_apart icmp n e (\<lambda>i. set (base_keys b vs i))"
    and ordered: "\<forall>i < n. 0 < i \<longrightarrow> keys_ordered icmp (base_keys b vs i)"
  shows "no_overlaps icmp b' vs' n"
  unfolding no_overlaps_def
proof (intro allI impI, elim conjE)
  fix i assume i: "0 < i" "i < n"
  note once = Apply_once [OF cmp ed i(2)]
  let ?fs = "vs_files vs'" and ?lt = "BySmallestKey icmp (vs_files vs')" and ?D = "ls_deleted (bd_levels b' ! i)"
  let ?added = "ls_added (bd_levels b' ! i)" and ?base = "base_files b' vs' i"
  let ?merged = "merge_after ?lt ?added ?base"
  have added: "sorted_wrt ?lt ?added" using once(3) by (simp add: added_ok_def)
  have bk: "keys ?fs ?base = base_keys b vs i" using edited_base [OF cmp ed i(2)] by (simp add: base_keys_def)
  have ord: "keys_ordered icmp (keys ?fs ?base)" using ordered i bk by simp
  have base: "sorted_wrt (\<lambda>p q. \<not> ?lt q p) ?base"
  proof -
    have "\<not> ?lt q p" if "key_before icmp (file_key (fm ?fs p)) (file_key (fm ?fs q))"
      "key_range icmp (file_key (fm ?fs p))" for p q
    proof -
      have "icmp (fm_smallest (fm ?fs p)) (fm_smallest (fm ?fs q)) < 0"
        using that comparator.cmp_le_less_trans [OF ikey_comparator.axioms [OF cmp]]
        unfolding key_before_def key_range_def file_key_def by simp
      then show ?thesis
        using comparator.cmp_flip [OF ikey_comparator.axioms [OF cmp]] by (simp add: BySmallestKey_def) force
    qed
    then show ?thesis using ord unfolding keys_ordered_def keys_def sorted_wrt_map
      by (elim conjE sorted_wrt_mono_rel [rotated]) auto
  qed
  have "fst ` set (keys ?fs ?added) \<inter> fst ` set (keys ?fs ?base) = {}"
    using apart i unfolding edit_apart_def once(2) bk new_numbers_keys by simp
  then have "distinct (keys ?fs (?added @ ?base))"
    using ikey_comparator.sorted_distinct_keys [OF cmp added] ikey_comparator.keys_ordered_distinct [OF cmp ord]
    by auto
  moreover have "mset (keys ?fs ?merged) = mset (keys ?fs (?added @ ?base))"
    by (simp add: keys_def mset_merge_after)
  ultimately have "distinct (keys ?fs ?merged)" by (metis mset_eq_imp_distinct_iff)
  then have "distinct (keys ?fs (saved_files icmp b' vs' i))"
    by (simp add: saved_files_def kept_def keys_def distinct_map_filter)
  moreover have "sorted_wrt (\<lambda>p q. \<not> ?lt q p) (saved_files icmp b' vs' i)"
    unfolding saved_files_def by (intro ikey_comparator.sorted_kept_merge [OF cmp] added base)
  moreover have "keys_apart icmp (set (keys ?fs (saved_files icmp b' vs' i)))"
    using apart i unfolding edit_apart_def saved_files_edited [OF cmp ed i(2)] by simp
  ultimately have "keys_ordered icmp (keys ?fs (saved_files icmp b' vs' i))"
    by (intro ikey_comparator.apart_in_order [OF cmp])
  then show "no_overlap icmp ?fs (saved_files icmp b' vs' i)"
    unfolding no_overlap_keys keys_ordered_def by (simp add: successively_if_sorted_wrt)
qed

text \<open>What one saved level is, in numbers and in order.\<close>

lemma saved_keys_numbers:
  "saved_keys icmp n e old new \<Longrightarrow> i < n \<Longrightarrow> fst ` set (new i) = edit_numbers i e (fst ` set (old i))"
  by (simp add: saved_keys_def edit_numbers_keys)

lemma saved_keys_ordered:
  assumes "ikey_comparator icmp" and "saved_keys icmp n e old new"
    and "edit_apart icmp n e (\<lambda>i. set (old i))" and "0 < i" and "i < n"
  shows "keys_ordered icmp (new i)"
  using assms ikey_comparator.successively_ordered [OF assms(1), of "new i"]
  by (simp add: saved_keys_def edit_apart_def keys_apart_def)

lemma edit_same:
  assumes "ve_deleted_files e' = ve_deleted_files e" and "ve_new_files e' = ve_new_files e"
  shows "edit_keys i e' = edit_keys i e" and "edit_apart icmp n e' = edit_apart icmp n e"
    and "saved_keys icmp n e' = saved_keys icmp n e"
proof -
  show k: "edit_keys i e' = edit_keys i e" for i using assms by (simp add: edit_keys_def fun_eq_iff)
  show "edit_apart icmp n e' = edit_apart icmp n e" "saved_keys icmp n e' = saved_keys icmp n e"
    using assms by (simp_all add: edit_apart_def saved_keys_def k fun_eq_iff)
qed

end
