(* ===== verification/VersionBuilt.thy ===== *)
theory VersionBuilt
  imports VersionSetProps VersionKeys
begin

text \<open>
  The version set after a builder has come and gone: \<open>build_version\<close> constructs a builder on the
  current version, applies an edit, saves to a new version and destroys the builder. All that is
  left are the new version, its files with their references, and the compaction pointers.
\<close>

section \<open>The version set after the builder\<close>

lemma save_levels_rest:
  "(save_levels icmp b v vs k)\<lparr>vs_files := f, vs_versions := g\<rparr> = vs\<lparr>vs_files := f, vs_versions := g\<rparr>"
proof (induction k)
  case (Suc k)
  then show ?case by (simp add: save_levels_Suc add_files_def store_version_def Let_def)
qed (simp add: save_levels_def)

lemma Apply_rest:
  "Apply icmp e (b, vs) = Inr (b', vs') \<Longrightarrow>
   vs'\<lparr>vs_files := f, vs_versions := g\<rparr> =
   vs\<lparr>vs_files := f, vs_compact_pointer := vs_compact_pointer vs', vs_versions := g\<rparr>"
  by (auto simp: Apply_def obind_eq_Inr)

lemma build_version_result:
  assumes cmp: "ikey_comparator icmp" and Ref: "Ref_increments Ref" and Unref: "Unref_decrements Unref"
    and ok: "vset_ok n base vs" and held: "0 < v_refs (the (vs_versions vs base))"
    and v: "vs_versions vs v = Some (Version n d v)" "v \<noteq> base"
    and e: "edit_ok n e" "fresh_numbers e"
  obtains b vs1 where "obind (Builder Ref n base vs) (Apply icmp e) = Inr (b, vs1)"
    and "edit_apart icmp n e (\<lambda>i. set (keys (vs_files vs) (level_files base vs i))) \<Longrightarrow>
      \<forall>i < n. 0 < i \<longrightarrow> keys_ordered icmp (keys (vs_files vs) (level_files base vs i)) \<Longrightarrow>
      no_overlaps icmp b vs1 n"
    and "\<not> no_overlaps icmp b vs1 n \<Longrightarrow> build_version Ref Unref icmp n e base v vs = Inl AssertFailed"
    and "no_overlaps icmp b vs1 n \<Longrightarrow> \<exists>fs cps levels.
      build_version Ref Unref icmp n e base v vs = Inr (vs\<lparr>vs_files := fs, vs_compact_pointer := cps,
        vs_versions := (vs_versions vs)(v \<mapsto> (Version n d v)\<lparr>v_files := levels\<rparr>)\<rparr>) \<and>
      length levels = n \<and> length cps = n \<and> store_ok fs \<and>
      (\<forall>p. live (vs_files vs) p \<longrightarrow> file_key (fm fs p) = file_key (fm (vs_files vs) p)) \<and>
      saved_keys icmp n e (\<lambda>i. keys (vs_files vs) (level_files base vs i)) (\<lambda>i. keys fs (levels ! i))"
proof -
  obtain w where w: "vs_versions vs base = Some w" using ok by (auto simp: vset_ok_def version_ok_def)
  obtain b vs1 where 1: "Builder Ref n base vs = Inr (b, vs1)" "building icmp n b vs1" "bd_base b = base"
    "vs_files vs1 = vs_files vs" "\<forall>i < n. ls_added (bd_levels b ! i) = []"
    "\<forall>i < n. base_files b vs1 i = level_files base vs i"
    using Builder_building [OF Ref ok, of icmp] by blast
  have none: "\<forall>i < n. ls_added (bd_levels b ! i) = [] \<and> ls_deleted (bd_levels b ! i) = {}"
    using 1(1) by (auto simp: Builder_def obind_eq_Inr)
  have vs1: "vs1 = store_version base (w\<lparr>v_refs := v_refs w + 1\<rparr>) vs"
    using 1(1) Ref w by (simp add: Builder_def Ref_increments_def)
  obtain b2 vs2 where 2: "Apply icmp e (b, vs1) = Inr (b2, vs2)" "building icmp n b2 vs2"
    "bd_base b2 = base" "vs_versions vs2 = vs_versions vs1"
    using Apply_invariant [OF cmp 1(2) e(1)] 1(3) by auto
  with 1(2) e none have ed: "edited icmp n e b vs1 b2 vs2" by (simp add: edited_def)
  have bk: "base_keys b vs1 i = keys (vs_files vs) (level_files base vs i)" if "i < n" for i
    using 1(4,6) that by (simp add: base_keys_def)
  note fresh = Apply_fresh [OF cmp 1(2) e(1) e(2) 1(5) 2(1)]
  have v2: "vs_versions vs2 v = Some (Version n d v)" using v vs1 2(4) by simp
  have bok: "builder_ok n b2 vs2" using 2(2) by (simp add: building_def)
  let ?vs3 = "save_levels icmp b2 v vs2 n" and ?levels = "map (saved_files icmp b2 vs2) [0..<n]"
  have 3: "SaveTo icmp n b2 v vs2 = (if no_overlaps icmp b2 vs2 n then Inr ?vs3 else Inl AssertFailed)"
    using SaveTo_eq [OF bok v2, of icmp] 2(3) v(2) by simp
  have new: "set (all_added (bd_levels b2)) = set [fs_next (vs_files vs1)..<fs_next (vs_files vs2)]"
    "distinct (all_added (bd_levels b2))"
    using fresh mset_eq_setD mset_eq_imp_distinct_iff distinct_upt by metis+
  have "\<forall>p \<in> set (all_added (bd_levels b2)). live (vs_files ?vs3) p"
    using fresh by (simp add: new(1) save_levels_files)
  from unref_files [OF new(2) this] obtain fs where
    fs: "ofold unref_file (all_added (bd_levels b2)) (vs_files ?vs3) = Inr fs"
    "\<forall>q. fs_at fs q = (if q \<in> set (all_added (bd_levels b2)) then dropped (fm (vs_files ?vs3) q)
       else fs_at (vs_files ?vs3) q)" "fs_next fs = fs_next (vs_files ?vs3)" by blast
  have key: "file_key (fm fs p) = file_key (fm (vs_files vs2) p)" if "live fs p" for p
    using that fs(2) by (auto simp: live_def dropped_def save_levels_files file_key_def split: if_splits)
  have "live (vs_files vs2) p" if "live fs p" for p
    using that fs(2) fresh bumps_keys(4) [of _ "vs_files vs2" p]
    by (auto simp: live_def save_levels_files new(1) split: if_splits)
  then have fsok: "store_ok fs"
    using 2(2) fs(3) by (simp add: store_ok_def building_def save_levels_files)
  show thesis
  proof (rule that [of b2 vs2])
    show "obind (Builder Ref n base vs) (Apply icmp e) = Inr (b2, vs2)" using 1(1) 2(1) by simp
    show "no_overlaps icmp b2 vs2 n"
      if "edit_apart icmp n e (\<lambda>i. set (keys (vs_files vs) (level_files base vs i)))"
        "\<forall>i < n. 0 < i \<longrightarrow> keys_ordered icmp (keys (vs_files vs) (level_files base vs i))"
      using no_overlaps_apart [OF cmp ed] that bk by (simp add: edit_apart_def)
    show "build_version Ref Unref icmp n e base v vs = Inl AssertFailed" if "\<not> no_overlaps icmp b2 vs2 n"
      using that 1(1) 2(1) 3 by (simp add: build_version_def)
    show "\<exists>fs cps levels.
      build_version Ref Unref icmp n e base v vs = Inr (vs\<lparr>vs_files := fs, vs_compact_pointer := cps,
        vs_versions := (vs_versions vs)(v \<mapsto> (Version n d v)\<lparr>v_files := levels\<rparr>)\<rparr>) \<and>
      length levels = n \<and> length cps = n \<and> store_ok fs \<and>
      (\<forall>p. live (vs_files vs) p \<longrightarrow> file_key (fm fs p) = file_key (fm (vs_files vs) p)) \<and>
      saved_keys icmp n e (\<lambda>i. keys (vs_files vs) (level_files base vs i)) (\<lambda>i. keys fs (levels ! i))"
      if no: "no_overlaps icmp b2 vs2 n"
    proof -
      let ?ver = "(Version n d v)\<lparr>v_files := ?levels\<rparr>"
      let ?vs' = "vs\<lparr>vs_files := fs, vs_compact_pointer := vs_compact_pointer vs2,
        vs_versions := (vs_versions vs)(v \<mapsto> ?ver)\<rparr>"
      have "vs_versions ?vs3 v = Some ?ver"
        using save_levels_version [OF v2, of n icmp b2] by (simp add: Version_def cong: map_cong)
      then have vers3: "vs_versions ?vs3 = (vs_versions vs1)(v \<mapsto> ?ver)"
        using save_levels_other [of _ v icmp b2 vs2 n] 2(4) by (intro ext) simp
      have "Unref base (?vs3\<lparr>vs_files := fs\<rparr>) = Inr (store_version base w (?vs3\<lparr>vs_files := fs\<rparr>))"
        using Unref [unfolded Unref_decrements_def, rule_format,
            of "?vs3\<lparr>vs_files := fs\<rparr>" base "w\<lparr>v_refs := v_refs w + 1\<rparr>"] vers3 vs1 v(2) held w by simp
      also have "store_version base w (?vs3\<lparr>vs_files := fs\<rparr>) =
          ?vs3\<lparr>vs_files := fs, vs_versions := (vs_versions ?vs3)(base \<mapsto> w)\<rparr>"
        by (simp add: store_version_def)
      also have "\<dots> = vs2\<lparr>vs_files := fs, vs_versions := (vs_versions ?vs3)(base \<mapsto> w)\<rparr>"
        by (rule save_levels_rest)
      also have "\<dots> = ?vs'"
        using vers3 v(2) w
        by (simp add: Apply_rest [OF 2(1)] vs1 store_version_def fun_upd_twist fun_upd_idem)
      finally have run: "build_version Ref Unref icmp n e base v vs = Inr ?vs'"
        using 1(1) 2(1,3) 3 no fs(1)
        by (simp add: build_version_def Builder_destroy_def ofold_concat all_added_def)
      note refs = build_version_refs [OF cmp Ref Unref ok held v e run]
      have same: "file_key (fm fs p) = file_key (fm (vs_files vs) p)" if "live (vs_files vs) p" for p
        using refs(1) [OF that] key [of p] extends_live [of "vs_files vs" "vs_files vs2" p] fresh 1(4) that
        by simp
      have "file_key (fm fs p) = file_key (fm (vs_files vs2) p)" if p: "i < n" "p \<in> set (?levels ! i)" for i p
      proof -
        have "p \<in> set (concat ?levels)" using p by auto
        then have "0 < count_list (concat ?levels) p" using count_list_0_iff [of "concat ?levels" p] by simp
        then have "0 < refs_from v ?vs' p" by (simp add: refs_from_def)
        then have "live fs p" using refs(1,2) [of p] by (cases "live (vs_files vs) p") auto
        then show ?thesis by (rule key)
      qed
      then have lists: "keys fs (saved_files icmp b2 vs2 i) = keys (vs_files vs2) (saved_files icmp b2 vs2 i)" if "i < n" for i
        using that keys_cong [of "?levels ! i" fs "vs_files vs2"] by (simp del: keys_simps)
      have "saved_keys icmp n e (\<lambda>i. keys (vs_files vs) (level_files base vs i)) (\<lambda>i. keys fs (?levels ! i))"
        using saved_files_edited [OF cmp ed] bk no
        by (simp add: saved_keys_def lists no_overlaps_def no_overlap_keys)
      moreover have "length (vs_compact_pointer vs2) = n" using 2(2) by (simp add: building_def)
      ultimately show ?thesis using run fsok same by (intro exI [of _ fs] exI [of _ ?levels] exI) auto
    qed
  qed
qed

text \<open>The files of the new version have a reference beyond those of the version it was built on.\<close>

lemma build_version_held:
  assumes cmp: "ikey_comparator icmp" and Ref: "Ref_increments Ref" and Unref: "Unref_decrements Unref"
    and ok: "vset_ok n base vs" and held: "0 < v_refs (the (vs_versions vs base))"
    and v: "vs_versions vs v = Some (Version n d v)" "v \<noteq> base"
    and e: "edit_ok n e" "fresh_numbers e"
    and run: "build_version Ref Unref icmp n e base v vs = Inr vs'"
    and refs: "\<forall>p. live (vs_files vs) p \<longrightarrow> refs_from base vs p \<le> fm_refs (fm (vs_files vs) p)"
    and p: "p \<in> set (concat (v_files (the (vs_versions vs' v))))"
  shows "live (vs_files vs') p \<and> refs_from base vs' p < fm_refs (fm (vs_files vs') p)"
proof -
  note refs' = build_version_refs [OF cmp Ref Unref ok held v e run]
  have pos: "0 < refs_from v vs' p"
    using p count_list_0_iff [of "concat (v_files (the (vs_versions vs' v)))" p] by (simp add: refs_from_def)
  have same: "refs_from base vs' p = refs_from base vs p" using refs'(4) by (simp add: refs_from_def)
  show ?thesis
  proof (cases "live (vs_files vs) p")
    case True
    then show ?thesis using refs'(1) [of p] refs pos same by fastforce
  next
    case False
    obtain w where w: "vs_versions vs base = Some w" "length (v_files w) = n"
      "\<forall>i < n. \<forall>p \<in> set (v_files w ! i). live (vs_files vs) p"
      using ok by (auto simp: vset_ok_def version_ok_def)
    then have "\<forall>ps \<in> set (v_files w). \<forall>p \<in> set ps. live (vs_files vs) p" by (metis in_set_conv_nth)
    then have "p \<notin> set (concat (v_files w))" using False by auto
    then have "refs_from base vs p = 0" using w(1) by (simp add: refs_from_def count_list_0_iff)
    then show ?thesis using False refs'(2,3) [of p] pos same by simp
  qed
qed

end
