(* ===== verification/VersionCommit.thy ===== *)
theory VersionCommit
  imports VersionBuilt
begin

text \<open>
  \<open>LogAndApply\<close> from end to end: it returns, the version it makes current has on every level the
  files of the old one with the edit applied, and the version set is as well kept as before.
  \<open>releases\<close>, \<open>deletes_version\<close> and \<open>leaves_pending\<close> say what is assumed of \<open>Version::Unref\<close> and
  \<open>~Version\<close>, which are declared only, and of the threads that run while the mutex is released.
\<close>

section \<open>The steps of \<open>LogAndApply\<close>\<close>

lemma LogAndApply_edit_ok:
  assumes "ve_has_log_number edit \<Longrightarrow>
    vs_log_number vs \<le> ve_log_number edit \<and> ve_log_number edit < vs_next_file_number vs"
  obtains edit' where "LogAndApply_edit edit vs = Inr edit'"
    and "ve_deleted_files edit' = ve_deleted_files edit" and "ve_new_files edit' = ve_new_files edit"
    and "ve_compact_pointers edit' = ve_compact_pointers edit"
  using assms
  by (cases "ve_has_log_number edit")
    (auto simp: LogAndApply_edit_def cpp_assert_def SetLogNumber_def SetPrevLogNumber_def
      SetNextFile_def SetLastSequence_def Let_def)

lemma Finalize_returns:
  assumes "vs_versions vs v = Some ver" and "length (v_files ver) = n"
  shows "\<exists>l d. Finalize D n v vs =
    Inr (store_version v (ver\<lparr>v_compaction_level := l, v_compaction_score := d\<rparr>) vs)"
proof -
  have "\<exists>best. ofold (Finalize_step D fs ver) (map int ls) b = Inr best"
    if "\<forall>l \<in> set ls. l < n" for fs ls b
    using that
  proof (induction ls arbitrary: b)
    case (Cons l ls)
    then show ?case by (simp add: Finalize_step_def Let_def assms(2))
  qed simp
  then obtain l d where "ofold (Finalize_step D (vs_files vs) ver) (map int [0..<n - 1]) (-1, do_neg1 D) = Inr (l, d)"
    by (metis (no_types, opaque_lifting) atLeastLessThan_iff less_diff_conv less_le_trans prod.exhaust
        set_upt diff_le_self)
  then show ?thesis using assms(1) by (auto simp: Finalize_def)
qed

section \<open>A well kept version set\<close>

lemma version_list_fresh:
  assumes "version_list vs xs" and "vs_versions vs v = None"
  shows "v \<notin> set (vs_dummy vs # xs)"
proof
  assume v: "v \<in> set (vs_dummy vs # xs)"
  then obtain ys zs where "vs_dummy vs # xs = ys @ v # zs" by (metis split_list)
  then have "vs_dummy vs # xs @ [vs_dummy vs] = ys @ v # (zs @ [vs_dummy vs])" by (metis append.assoc append_Cons)
  moreover obtain z zs' where "zs @ [vs_dummy vs] = z # zs'" by (cases "zs @ [vs_dummy vs]") auto
  ultimately have "linked vs v z"
    using assms(1) by (simp add: version_list_def successively_append_iff)
  then show False using assms(2) by (simp add: linked_def)
qed

lemma version_list_same:
  assumes "version_list vs xs" and "vs_dummy vs' = vs_dummy vs"
    and "\<And>a. a \<in> set (vs_dummy vs # xs) \<Longrightarrow> vs_versions vs' a = vs_versions vs a"
  shows "version_list vs' xs"
proof -
  have "successively (linked vs') (vs_dummy vs # xs @ [vs_dummy vs])"
    using assms unfolding version_list_def
    by (elim conjE successively_mono_on) (auto simp: linked_def dest!: in_set_butlastD)
  then show ?thesis using assms(1,2) by (simp add: version_list_def)
qed

text \<open>
  The current version is in the list, referred to, and its files are alive with their references
  counted; no address from the next version's on is in use.
\<close>

definition current_ok :: "nat \<Rightarrow> nat \<Rightarrow> 'd vset \<Rightarrow> bool" where
  "current_ok n c vs \<longleftrightarrow> vs_current vs = Some c \<and> vset_ok n c vs \<and> 0 < v_refs (the (vs_versions vs c)) \<and>
     (\<exists>xs. version_list vs xs \<and> c \<in> set xs) \<and> (\<forall>a \<ge> vs_next_version vs. vs_versions vs a = None) \<and>
     (\<forall>p. live (vs_files vs) p \<longrightarrow> refs_from c vs p \<le> fm_refs (fm (vs_files vs) p))"

text \<open>
  While the record is written, the new version is in no list and nobody else knows it, but its files
  are alive, and their references are counted beside those of the current version. \<open>old\<close> are the
  file keys of the current version by level.
\<close>

definition pending ::
  "nat \<Rightarrow> nat \<Rightarrow> (nat \<Rightarrow> fkey list) \<Rightarrow> nat \<Rightarrow> 'd version \<Rightarrow> (nat \<Rightarrow> fkey) \<Rightarrow> 'd vset \<Rightarrow> bool" where
  "pending n c old v ver key vs \<longleftrightarrow> current_ok n c vs \<and>
     (\<forall>i < n. keys (vs_files vs) (level_files c vs i) = old i) \<and>
     (\<exists>xs. version_list vs xs \<and> c \<in> set xs \<and> v \<notin> set (vs_dummy vs # xs)) \<and>
     vs_versions vs v = Some ver \<and> v_refs ver = 0 \<and> v_next ver = v \<and> v_prev ver = v \<and>
     length (v_files ver) = n \<and>
     (\<forall>p \<in> set (concat (v_files ver)). live (vs_files vs) p \<and> file_key (fm (vs_files vs) p) = key p) \<and>
     (\<forall>p. live (vs_files vs) p \<longrightarrow> refs_from c vs p + refs_from v vs p \<le> fm_refs (fm (vs_files vs) p))"

lemma pendingD:
  assumes "pending n c old v ver key vs"
  shows "current_ok n c vs" and "vs_current vs = Some c" and "vs_versions vs v = Some ver" and "v_refs ver = 0"
    and "v_next ver = v" and "v_prev ver = v" and "length (v_files ver) = n"
    and "\<exists>xs. version_list vs xs \<and> c \<in> set xs \<and> v \<notin> set (vs_dummy vs # xs)"
    and "i < n \<Longrightarrow> keys (vs_files vs) (level_files c vs i) = old i"
    and "p \<in> set (concat (v_files ver)) \<Longrightarrow> live (vs_files vs) p \<and> file_key (fm (vs_files vs) p) = key p"
    and "live (vs_files vs) p \<Longrightarrow> refs_from c vs p + refs_from v vs p \<le> fm_refs (fm (vs_files vs) p)"
  using assms unfolding pending_def by (simp_all add: current_ok_def, blast)

text \<open>
  What other threads may do while the mutex is released: take and give back references to the
  versions of the list, and number files, which leaves a waiting version and the files it refers
  to alone.
\<close>

definition leaves_pending :: "('d vset \<times> 'w \<Rightarrow> 'd vset \<times> 'w) \<Rightarrow> bool" where
  "leaves_pending f \<longleftrightarrow> (\<forall>s. vs_descriptor_file (fst (f s)) = vs_descriptor_file (fst s) \<and>
     vs_descriptor_log (fst (f s)) = vs_descriptor_log (fst s) \<and>
     vs_manifest_file_number (fst (f s)) = vs_manifest_file_number (fst s) \<and>
     vs_log_number (fst (f s)) = vs_log_number (fst s) \<and>
     vs_next_file_number (fst s) \<le> vs_next_file_number (fst (f s)) \<and>
     (\<forall>n c old v ver key. pending n c old v ver key (fst s) \<longrightarrow> pending n c old v ver key (fst (f s))))"

text \<open>
  Giving back the references a version has to its files: those with another one live on.
\<close>

definition returns_refs :: "nat \<Rightarrow> 'd vset \<Rightarrow> fstore \<Rightarrow> bool" where
  "returns_refs a vs fs \<longleftrightarrow> (store_ok (vs_files vs) \<longrightarrow> store_ok fs) \<and>
     (\<forall>p. live fs p \<longrightarrow> live (vs_files vs) p \<and>
        fm_refs (fm (vs_files vs) p) \<le> fm_refs (fm fs p) + refs_from a vs p) \<and>
     (\<forall>p. live (vs_files vs) p \<longrightarrow> refs_from a vs p < fm_refs (fm (vs_files vs) p) \<longrightarrow>
        live fs p \<and> file_key (fm fs p) = file_key (fm (vs_files vs) p))"

text \<open>
  \<open>Version::Unref\<close> on a version of the list: it may take the version out of the list and give
  back the references of its files, and touches nothing else.
\<close>

definition releases :: "(nat \<Rightarrow> 'd vset \<Rightarrow> 'd vset outcome) \<Rightarrow> bool" where
  "releases Unref \<longleftrightarrow> (\<forall>vs c cur xs. version_list vs xs \<longrightarrow> c \<in> set xs \<longrightarrow>
     vs_versions vs c = Some cur \<longrightarrow> 0 < v_refs cur \<longrightarrow>
     (\<exists>vers fs xs1. Unref c vs = Inr (vs\<lparr>vs_versions := vers, vs_files := fs\<rparr>) \<and>
        version_list (vs\<lparr>vs_versions := vers, vs_files := fs\<rparr>) xs1 \<and> set xs1 \<subseteq> set xs \<and>
        (\<forall>a. a \<notin> set (vs_dummy vs # xs) \<longrightarrow> vers a = vs_versions vs a) \<and> returns_refs c vs fs))"

text \<open>Deleting a version nobody refers to, which is linked to nothing but itself.\<close>

definition deletes_version :: "(nat \<Rightarrow> 'd vset \<Rightarrow> 'd vset outcome) \<Rightarrow> bool" where
  "deletes_version del \<longleftrightarrow> (\<forall>vs v ver. vs_versions vs v = Some ver \<longrightarrow> v_refs ver = 0 \<longrightarrow>
     v_next ver = v \<longrightarrow> v_prev ver = v \<longrightarrow>
     (\<exists>fs. del v vs = Inr (vs\<lparr>vs_versions := (vs_versions vs)(v := None), vs_files := fs\<rparr>) \<and>
        returns_refs v vs fs))"

text \<open>A version whose references are counted beside those given back is well kept afterwards.\<close>

lemma returns_refs_keeps:
  assumes r: "returns_refs a vs fs" and ok: "store_ok (vs_files vs)"
    and sum: "\<And>p. live (vs_files vs) p \<Longrightarrow> refs_from a vs p + refs_from b vs p \<le> fm_refs (fm (vs_files vs) p)"
    and files: "\<And>p. p \<in> set (concat (v_files (the (vs_versions vs b)))) \<Longrightarrow> live (vs_files vs) p"
  shows "store_ok fs" and "live fs p \<Longrightarrow> refs_from b vs p \<le> fm_refs (fm fs p)"
    and "p \<in> set (concat (v_files (the (vs_versions vs b)))) \<Longrightarrow>
      live fs p \<and> file_key (fm fs p) = file_key (fm (vs_files vs) p)"
proof -
  show "store_ok fs" using r ok by (simp add: returns_refs_def)
  show "refs_from b vs p \<le> fm_refs (fm fs p)" if "live fs p"
  proof -
    have "live (vs_files vs) p" "fm_refs (fm (vs_files vs) p) \<le> fm_refs (fm fs p) + refs_from a vs p"
      using r that by (simp_all add: returns_refs_def)
    then show ?thesis using sum [of p] by simp
  qed
  assume p: "p \<in> set (concat (v_files (the (vs_versions vs b))))"
  have "0 < refs_from b vs p"
    using p count_list_0_iff [of "concat (v_files (the (vs_versions vs b)))" p] by (simp add: refs_from_def)
  then have "refs_from a vs p < fm_refs (fm (vs_files vs) p)" using sum [OF files [OF p]] by simp
  then show "live fs p \<and> file_key (fm fs p) = file_key (fm (vs_files vs) p)"
    using r files [OF p] by (simp add: returns_refs_def)
qed

lemma version_ok_files:
  assumes "version_ok n a vs"
  shows "p \<in> set (concat (v_files (the (vs_versions vs a)))) \<Longrightarrow> live (vs_files vs) p"
proof -
  obtain w where w: "vs_versions vs a = Some w" "length (v_files w) = n"
    "\<forall>i < n. \<forall>p \<in> set (v_files w ! i). live (vs_files vs) p"
    using assms unfolding version_ok_def by blast
  then have "\<forall>ps \<in> set (v_files w). \<forall>p \<in> set ps. live (vs_files vs) p" by (metis in_set_conv_nth)
  then show "p \<in> set (concat (v_files (the (vs_versions vs a)))) \<Longrightarrow> live (vs_files vs) p" using w(1) by auto
qed

lemma level_files_in_files:
  "length (v_files w) = n \<Longrightarrow> i < n \<Longrightarrow> p \<in> set (v_files w ! i) \<Longrightarrow> p \<in> set (concat (v_files w))"
  using nth_mem by fastforce

lemma version_okI:
  assumes "vs_versions vs a = Some w" and "length (v_files w) = n"
    and "\<And>p. p \<in> set (concat (v_files w)) \<Longrightarrow> live (vs_files vs) p"
  shows "version_ok n a vs"
  unfolding version_ok_def using assms level_files_in_files [OF assms(2)] by blast

section \<open>Installing or dropping the version\<close>

lemma version_list_in_use:
  assumes "version_list vs xs" and "\<forall>a \<ge> vs_next_version vs. vs_versions vs a = None" and "vs_next_version vs \<le> a"
  shows "a \<notin> set (vs_dummy vs # xs)"
  using version_list_fresh [OF assms(1)] assms(2,3) by simp

lemma install_pending:
  assumes pend: "pending n c old v ver key vs" and Ref: "Ref_increments Ref" and Unref: "releases Unref"
  obtains vers fs where
    "AppendVersion Ref Unref v vs = Inr (vs\<lparr>vs_versions := vers, vs_files := fs, vs_current := Some v\<rparr>)"
    and "current_ok n v (vs\<lparr>vs_versions := vers, vs_files := fs, vs_current := Some v\<rparr>)"
    and "\<exists>xs. version_list (vs\<lparr>vs_versions := vers, vs_files := fs, vs_current := Some v\<rparr>) (xs @ [v])"
    and "v_files (the (vers v)) = v_files ver"
    and "\<forall>p \<in> set (concat (v_files ver)). file_key (fm fs p) = key p"
proof -
  note P = pendingD [OF pend]
  obtain xs where xs: "version_list vs xs" "c \<in> set xs" "v \<notin> set (vs_dummy vs # xs)" using P(8) by blast
  have cur: "vset_ok n c vs" "0 < v_refs (the (vs_versions vs c))"
    "\<forall>a \<ge> vs_next_version vs. vs_versions vs a = None"
    using P(1) by (simp_all add: current_ok_def)
  then obtain w where w: "vs_versions vs c = Some w" "0 < v_refs w" by (auto simp: vset_ok_def version_ok_def)
  obtain vers fs xs1 where 1: "Unref c vs = Inr (vs\<lparr>vs_versions := vers, vs_files := fs\<rparr>)"
    "version_list (vs\<lparr>vs_versions := vers, vs_files := fs\<rparr>) xs1" "set xs1 \<subseteq> set xs"
    "\<forall>a. a \<notin> set (vs_dummy vs # xs) \<longrightarrow> vers a = vs_versions vs a" "returns_refs c vs fs"
    using Unref [unfolded releases_def, rule_format, OF xs(1,2) w] by blast
  let ?vs1 = "vs\<lparr>vs_versions := vers, vs_files := fs\<rparr>"
  have cv: "c \<noteq> v" using xs(2,3) by auto
  have v1: "v \<notin> set (vs_dummy ?vs1 # xs1)" "vs_versions ?vs1 v = Some ver" using xs(3) 1(3,4) P(3) by auto
  obtain vers2 where 2: "AppendVersion Ref Unref v vs = Inr (?vs1\<lparr>vs_current := Some v, vs_versions := vers2\<rparr>)"
    "version_list (?vs1\<lparr>vs_current := Some v, vs_versions := vers2\<rparr>) (xs1 @ [v])"
    "v_refs (the (vers2 v)) = 1" "v_files (the (vers2 v)) = v_files ver" "\<forall>a. vers2 a = None \<longleftrightarrow> vers a = None"
    using AppendVersion_result [where xs = xs1 and Unref = Unref, OF Ref P(3,4,2) cv 1(1,2) v1] by auto
  let ?vs2 = "vs\<lparr>vs_versions := vers2, vs_files := fs, vs_current := Some v\<rparr>"
  have eq: "?vs1\<lparr>vs_current := Some v, vs_versions := vers2\<rparr> = ?vs2" by simp
  have store: "store_ok (vs_files vs)" using cur(1) by (simp add: vset_ok_def)
  have vfiles: "\<And>p. p \<in> set (concat (v_files (the (vs_versions vs v)))) \<Longrightarrow> live (vs_files vs) p"
    using P(3,10) by auto
  note keep = returns_refs_keeps [where b = v, OF 1(5) store P(11) vfiles]
  have vv: "vers2 v \<noteq> None" using 2(5) v1(2) by simp
  have "version_ok n v ?vs2"
    by (rule version_okI [of _ _ "the (vers2 v)"]) (use vv 2(4) P(3,7) keep(3) in auto)
  then have "vset_ok n v ?vs2" using keep(1) cur(1) by (simp add: vset_ok_def)
  moreover have "\<forall>a \<ge> vs_next_version vs. vers2 a = None"
    using 1(4) 2(5) cur(3) version_list_in_use [OF xs(1) cur(3)] by simp
  moreover have "refs_from v ?vs2 p = refs_from v vs p" for p using 2(4) P(3) by (simp add: refs_from_def)
  then have "\<forall>p. live fs p \<longrightarrow> refs_from v ?vs2 p \<le> fm_refs (fm fs p)" using keep(2) by simp
  moreover have "\<exists>xs. version_list ?vs2 xs \<and> v \<in> set xs" using 2(2) unfolding eq by fastforce
  ultimately have "current_ok n v ?vs2" using 2(3) by (simp add: current_ok_def)
  then show thesis
    using that [where vers = vers2 and fs = fs] 2(1,2,4) P(3,10) keep(3) unfolding eq by auto
qed

text \<open>When the record could not be written, the old version stays as it was.\<close>

lemma undo_pending:
  assumes pend: "pending n c old v ver key vs" and del: "deletes_version del"
  obtains vers fs where "del v vs = Inr (vs\<lparr>vs_versions := vers, vs_files := fs\<rparr>)"
    and "current_ok n c (vs\<lparr>vs_versions := vers, vs_files := fs\<rparr>)"
    and "\<forall>i < n. keys fs (level_files c (vs\<lparr>vs_versions := vers, vs_files := fs\<rparr>) i) = old i"
proof -
  note P = pendingD [OF pend]
  obtain xs where xs: "version_list vs xs" "c \<in> set xs" "v \<notin> set (vs_dummy vs # xs)" using P(8) by blast
  have cur: "vset_ok n c vs" "0 < v_refs (the (vs_versions vs c))"
    "\<forall>a \<ge> vs_next_version vs. vs_versions vs a = None"
    using P(1) by (simp_all add: current_ok_def)
  obtain fs where 1: "del v vs = Inr (vs\<lparr>vs_versions := (vs_versions vs)(v := None), vs_files := fs\<rparr>)"
    "returns_refs v vs fs"
    using del [unfolded deletes_version_def, rule_format, OF P(3,4,5,6)] by blast
  let ?vs1 = "vs\<lparr>vs_versions := (vs_versions vs)(v := None), vs_files := fs\<rparr>"
  have cv: "c \<noteq> v" using xs(2,3) by auto
  have vok: "version_ok n c vs" and store: "store_ok (vs_files vs)" using cur(1) by (simp_all add: vset_ok_def)
  then obtain w where w: "vs_versions vs c = Some w" "length (v_files w) = n" by (auto simp: version_ok_def)
  have sum: "\<And>p. live (vs_files vs) p \<Longrightarrow> refs_from v vs p + refs_from c vs p \<le> fm_refs (fm (vs_files vs) p)"
    using P(11) by (simp add: add.commute)
  note keep = returns_refs_keeps [where b = c, OF 1(2) store sum version_ok_files [OF vok]]
  have "version_ok n c ?vs1"
    by (rule version_okI [of _ _ w]) (use w cv keep(3) in auto)
  then have "vset_ok n c ?vs1" using keep(1) cur(1) by (simp add: vset_ok_def)
  moreover have "version_list ?vs1 xs" by (rule version_list_same [OF xs(1)]) (use xs(3) in auto)
  moreover have "refs_from c ?vs1 p = refs_from c vs p" for p using cv by (simp add: refs_from_def)
  ultimately have ok: "current_ok n c ?vs1"
    using cur(2,3) cv P(2) keep(2) xs(2) by (auto simp: current_ok_def)
  have "keys fs (level_files c ?vs1 i) = old i" if i: "i < n" for i
  proof -
    have "keys fs (v_files w ! i) = keys (vs_files vs) (v_files w ! i)"
      by (rule keys_cong) (use keep(3) w(1) level_files_in_files [OF w(2) i] in simp)
    then show ?thesis using P(9) [OF i] cv w(1) by (simp add: level_files_def)
  qed
  then show thesis using that [OF 1(1) ok] by blast
qed

section \<open>The version that waits\<close>

text \<open>The state after \<open>LogAndApply_version\<close>: the next version waits, with the edit applied.\<close>

definition built :: "(ikey \<Rightarrow> ikey \<Rightarrow> int) \<Rightarrow> nat \<Rightarrow> nat \<Rightarrow> version_edit \<Rightarrow> 'd vset \<Rightarrow> 'd vset \<Rightarrow> bool" where
  "built icmp n c edit vs vs2 \<longleftrightarrow> (\<exists>ver key.
     pending n c (\<lambda>i. keys (vs_files vs) (level_files c vs i)) (vs_next_version vs) ver key vs2 \<and>
     vs_descriptor_file vs2 = vs_descriptor_file vs \<and> vs_descriptor_log vs2 = vs_descriptor_log vs \<and>
     vs_manifest_file_number vs2 = vs_manifest_file_number vs \<and> vs_log_number vs2 = vs_log_number vs \<and>
     vs_next_file_number vs2 = vs_next_file_number vs \<and>
     saved_keys icmp n edit (\<lambda>i. keys (vs_files vs) (level_files c vs i)) (\<lambda>i. map key (v_files ver ! i)))"

lemma new_version_state:
  assumes cur: "current_ok n c vs" and vs0: "vs0 = snd (new_version n d vs)" and v: "v = vs_next_version vs"
  shows "v \<noteq> c" and "vs_versions vs0 v = Some (Version n d v)" and "vset_ok n c vs0"
    and "0 < v_refs (the (vs_versions vs0 c))" and "vs_versions vs0 = (vs_versions vs)(v \<mapsto> Version n d v)"
    and "vs_files vs0 = vs_files vs" and "vs_current vs0 = Some c" and "vs_dummy vs0 = vs_dummy vs"
proof -
  have "vs_versions vs c \<noteq> None" "vs_versions vs v = None"
    using cur v by (auto simp: current_ok_def vset_ok_def version_ok_def)
  then show ne: "v \<noteq> c" by auto
  show eq: "vs_versions vs0 = (vs_versions vs)(v \<mapsto> Version n d v)" "vs_files vs0 = vs_files vs"
    "vs_current vs0 = Some c" "vs_dummy vs0 = vs_dummy vs"
    using cur by (simp_all add: vs0 v new_version_def Let_def store_version_def current_ok_def)
  then show "vs_versions vs0 v = Some (Version n d v)" by simp
  have "vs_compact_pointer vs0 = vs_compact_pointer vs"
    by (simp add: vs0 new_version_def Let_def store_version_def)
  then show "vset_ok n c vs0" "0 < v_refs (the (vs_versions vs0 c))"
    using cur ne eq by (simp_all add: current_ok_def vset_ok_def version_ok_def)
qed

lemma LogAndApply_version_eq:
  assumes "current_ok n c vs"
  shows "LogAndApply_version ops D icmp n edit vs =
    obind (build_version (vo_Ref ops) (vo_Unref ops) icmp n edit c (vs_next_version vs)
             (snd (new_version n (do_neg1 D) vs))) (\<lambda>s.
    obind (Finalize D n (vs_next_version vs) s) (\<lambda>s. Inr (vs_next_version vs, s)))"
  using assms by (simp add: LogAndApply_version_def new_version_def Let_def current_ok_def store_version_def)

lemma finalized_pending:
  assumes cur: "current_ok n c vs" and v: "v = vs_next_version vs" and len: "length levels = n"
    and vs2: "vs_versions vs2 = (vs_versions vs)(v \<mapsto> (Version n d v)\<lparr>v_files := levels\<rparr>)"
      "vs_current vs2 = Some c" "vs_dummy vs2 = vs_dummy vs" "vs_next_version vs2 = Suc v"
      "length (vs_compact_pointer vs2) = n" "store_ok (vs_files vs2)"
    and live_c: "\<And>p. live (vs_files vs) p \<Longrightarrow> live (vs_files vs2) p \<and>
      file_key (fm (vs_files vs2) p) = file_key (fm (vs_files vs) p)"
    and live_v: "\<And>p. p \<in> set (concat levels) \<Longrightarrow> live (vs_files vs2) p"
    and sum: "\<And>p. live (vs_files vs2) p \<Longrightarrow> refs_from c vs2 p + refs_from v vs2 p \<le> fm_refs (fm (vs_files vs2) p)"
  obtains ver where "Finalize D n v vs2 = Inr (store_version v ver vs2)" and "v_files ver = levels"
    and "pending n c (\<lambda>i. keys (vs_files vs) (level_files c vs i)) v ver
      (\<lambda>p. file_key (fm (vs_files vs2) p)) (store_version v ver vs2)"
proof -
  let ?ver0 = "(Version n d v)\<lparr>v_files := levels\<rparr>"
  obtain l sc where fin: "Finalize D n v vs2 =
      Inr (store_version v (?ver0\<lparr>v_compaction_level := l, v_compaction_score := sc\<rparr>) vs2)"
    using Finalize_returns [of vs2 v ?ver0 n D] len vs2(1) by auto
  let ?ver = "?ver0\<lparr>v_compaction_level := l, v_compaction_score := sc\<rparr>"
  let ?vs3 = "store_version v ?ver vs2"
  obtain xs w where xs: "version_list vs xs" "c \<in> set xs"
    and w: "vs_versions vs c = Some w" "0 < v_refs w" "length (v_files w) = n"
      "\<forall>i < n. \<forall>p \<in> set (v_files w ! i). live (vs_files vs) p"
    and fresh: "\<forall>a \<ge> v. vs_versions vs a = None"
    using cur v by (auto simp: current_ok_def vset_ok_def version_ok_def)
  have ne: "c \<noteq> v" using w(1) fresh by auto
  have vers3: "vs_versions ?vs3 = (vs_versions vs)(v \<mapsto> ?ver)" by (simp add: vs2(1))
  have out: "v \<notin> set (vs_dummy vs # xs)" using version_list_fresh [OF xs(1)] fresh by simp
  have list3: "version_list ?vs3 xs" by (rule version_list_same [OF xs(1)]) (use out vers3 vs2(3) in \<open>auto simp: store_version_def\<close>)
  have out': "\<exists>xs. version_list ?vs3 xs \<and> c \<in> set xs \<and> v \<notin> set (vs_dummy ?vs3 # xs)"
    using list3 xs(2) out vs2(3) by (intro exI [of _ xs]) (simp add: store_version_def)
  have refs: "refs_from c ?vs3 p = refs_from c vs2 p" "refs_from v ?vs3 p = refs_from v vs2 p" for p
    using ne by (simp_all add: refs_from_def vs2(1))
  have nonneg: "0 \<le> refs_from v vs2 p" for p by (simp add: refs_from_def)
  have "version_ok n c ?vs3" using w ne live_c by (auto simp: version_ok_def vs2(1))
  then have "vset_ok n c ?vs3" using vs2(5,6) by (simp add: vset_ok_def store_version_def)
  moreover have "\<forall>p. live (vs_files ?vs3) p \<longrightarrow> refs_from c ?vs3 p \<le> fm_refs (fm (vs_files ?vs3) p)"
    using sum nonneg unfolding refs by (auto dest: order_trans [rotated] simp: store_version_def)
      (smt (verit))
  ultimately have "current_ok n c ?vs3"
    using vs2(2,4) ne w(1,2) list3 xs(2) fresh by (auto simp: current_ok_def vers3 vs2(1) store_version_def)
  moreover have "keys (vs_files ?vs3) (level_files c ?vs3 i) = keys (vs_files vs) (level_files c vs i)"
    if "i < n" for i
    using w(1,4) ne live_c that by (auto simp: keys_def level_files_def vs2(1))
  moreover have "v_files ?ver = levels" "v_refs ?ver = 0" "v_next ?ver = v" "v_prev ?ver = v"
    by (simp_all add: Version_def)
  ultimately have "pending n c (\<lambda>i. keys (vs_files vs) (level_files c vs i)) v ?ver
      (\<lambda>p. file_key (fm (vs_files vs2) p)) ?vs3"
    unfolding pending_def using out' vers3 len live_v sum unfolding refs by auto
  then show thesis using that [of ?ver] fin by simp
qed

lemma version_built:
  assumes cmp: "ikey_comparator icmp" and Ref: "Ref_increments (vo_Ref ops)"
    and Unref: "Unref_decrements (vo_Unref ops)" and cur: "current_ok n c vs"
    and e: "edit_ok n edit" "fresh_numbers edit"
    and vs0: "vs0 = snd (new_version n (do_neg1 D) vs)" and v: "v = vs_next_version vs"
    and run: "build_version (vo_Ref ops) (vo_Unref ops) icmp n edit c v vs0 =
      Inr (vs0\<lparr>vs_files := fs, vs_compact_pointer := cps,
        vs_versions := (vs_versions vs0)(v \<mapsto> (Version n (do_neg1 D) v)\<lparr>v_files := levels\<rparr>)\<rparr>)"
    and len: "length levels = n" "length cps = n" and fsok: "store_ok fs"
    and same: "\<forall>p. live (vs_files vs) p \<longrightarrow> file_key (fm fs p) = file_key (fm (vs_files vs) p)"
    and saved: "saved_keys icmp n edit (\<lambda>i. keys (vs_files vs) (level_files c vs i)) (\<lambda>i. keys fs (levels ! i))"
  shows "\<exists>vs2. LogAndApply_version ops D icmp n edit vs = Inr (v, vs2) \<and> built icmp n c edit vs vs2"
proof -
  note st = new_version_state [OF cur vs0 v]
  let ?vs2 = "vs0\<lparr>vs_files := fs, vs_compact_pointer := cps,
    vs_versions := (vs_versions vs0)(v \<mapsto> (Version n (do_neg1 D) v)\<lparr>v_files := levels\<rparr>)\<rparr>"
  have vc: "v \<noteq> c" using st(1) .
  have refs: "\<forall>p. live (vs_files vs0) p \<longrightarrow> refs_from c vs0 p \<le> fm_refs (fm (vs_files vs0) p)"
    using cur st(6) vc by (simp add: current_ok_def refs_from_def st(5))
  note R = build_version_refs [OF cmp Ref Unref st(3,4,2,1) e run]
  have sum: "refs_from c ?vs2 p + refs_from v ?vs2 p \<le> fm_refs (fm (vs_files ?vs2) p)"
    if "live (vs_files ?vs2) p" for p
  proof (cases "live (vs_files vs0) p")
    case True
    moreover have "refs_from c ?vs2 p = refs_from c vs0 p" using vc by (simp add: refs_from_def)
    ultimately show ?thesis using R(1) [OF True] refs by fastforce
  next
    case False
    have "version_ok n c vs0" using st(3) by (simp add: vset_ok_def)
    then have "p \<notin> set (concat (v_files (the (vs_versions vs0 c))))" using version_ok_files False by blast
    then have "refs_from c ?vs2 p = 0" using vc by (simp add: refs_from_def count_list_0_iff)
    then show ?thesis using R(3) [OF False that] by simp
  qed
  have live_v: "live (vs_files ?vs2) p" if "p \<in> set (concat levels)" for p
    using build_version_held [OF cmp Ref Unref st(3,4,2,1) e run refs] that by simp
  have live_c: "live (vs_files ?vs2) p \<and> file_key (fm (vs_files ?vs2) p) = file_key (fm (vs_files vs) p)"
    if "live (vs_files vs) p" for p
    using R(1) [of p] same that st(6) by simp
  have nv: "vs_next_version vs0 = Suc v" by (simp add: vs0 v new_version_def Let_def store_version_def)
  obtain ver where ver: "Finalize D n v ?vs2 = Inr (store_version v ver ?vs2)" "v_files ver = levels"
    "pending n c (\<lambda>i. keys (vs_files vs) (level_files c vs i)) v ver
       (\<lambda>p. file_key (fm (vs_files ?vs2) p)) (store_version v ver ?vs2)"
    by (rule finalized_pending [OF cur v len(1), of ?vs2 "do_neg1 D" D, OF _ _ _ _ _ _ live_c live_v sum])
      (use st(5,7,8) nv len(2) fsok in \<open>auto simp: that\<close>)
  have "built icmp n c edit vs (store_version v ver ?vs2)"
    unfolding built_def using ver(2,3) saved v
    by (intro exI [of _ ver] exI [of _ "\<lambda>p. file_key (fm fs p)"])
      (simp add: keys_def vs0 new_version_def Let_def store_version_def)
  moreover have "LogAndApply_version ops D icmp n edit vs = Inr (v, store_version v ver ?vs2)"
    using ver(1) run by (simp add: LogAndApply_version_eq [OF cur] flip: vs0 v)
  ultimately show ?thesis by blast
qed

lemma LogAndApply_version_result:
  assumes cmp: "ikey_comparator icmp" and Ref: "Ref_increments (vo_Ref ops)"
    and Unref: "Unref_decrements (vo_Unref ops)" and cur: "current_ok n c vs"
    and e: "edit_ok n edit" "fresh_numbers edit"
  obtains b vs1 where
    "obind (Builder (vo_Ref ops) n c (snd (new_version n (do_neg1 D) vs))) (Apply icmp edit) = Inr (b, vs1)"
    and "edit_apart icmp n edit (\<lambda>i. set (keys (vs_files vs) (level_files c vs i))) \<Longrightarrow>
      \<forall>i < n. 0 < i \<longrightarrow> keys_ordered icmp (keys (vs_files vs) (level_files c vs i)) \<Longrightarrow>
      no_overlaps icmp b vs1 n"
    and "\<not> no_overlaps icmp b vs1 n \<Longrightarrow> LogAndApply_version ops D icmp n edit vs = Inl AssertFailed"
    and "no_overlaps icmp b vs1 n \<Longrightarrow> \<exists>vs2. LogAndApply_version ops D icmp n edit vs =
      Inr (vs_next_version vs, vs2) \<and> built icmp n c edit vs vs2"
proof -
  let ?vs0 = "snd (new_version n (do_neg1 D) vs)"
  note st = new_version_state [where d = "do_neg1 D", OF cur refl refl]
  have lf: "level_files c ?vs0 i = level_files c vs i" for i using st(1,5) by (simp add: level_files_def)
  obtain b vs1 where b: "obind (Builder (vo_Ref ops) n c ?vs0) (Apply icmp edit) = Inr (b, vs1)"
    "edit_apart icmp n edit (\<lambda>i. set (keys (vs_files vs) (level_files c vs i))) \<Longrightarrow>
      \<forall>i < n. 0 < i \<longrightarrow> keys_ordered icmp (keys (vs_files vs) (level_files c vs i)) \<Longrightarrow>
      no_overlaps icmp b vs1 n"
    "\<not> no_overlaps icmp b vs1 n \<Longrightarrow>
      build_version (vo_Ref ops) (vo_Unref ops) icmp n edit c (vs_next_version vs) ?vs0 = Inl AssertFailed"
    "no_overlaps icmp b vs1 n \<Longrightarrow> \<exists>fs cps levels.
      build_version (vo_Ref ops) (vo_Unref ops) icmp n edit c (vs_next_version vs) ?vs0 =
        Inr (?vs0\<lparr>vs_files := fs, vs_compact_pointer := cps, vs_versions := (vs_versions ?vs0)
          (vs_next_version vs \<mapsto> (Version n (do_neg1 D) (vs_next_version vs))\<lparr>v_files := levels\<rparr>)\<rparr>) \<and>
      length levels = n \<and> length cps = n \<and> store_ok fs \<and>
      (\<forall>p. live (vs_files vs) p \<longrightarrow> file_key (fm fs p) = file_key (fm (vs_files vs) p)) \<and>
      saved_keys icmp n edit (\<lambda>i. keys (vs_files vs) (level_files c vs i)) (\<lambda>i. keys fs (levels ! i))"
    by (rule build_version_result [OF cmp Ref Unref st(3,4,2,1) e, unfolded lf st(6)]) (rule that; assumption)
  show thesis
  proof (rule that [OF b(1,2)])
    show "LogAndApply_version ops D icmp n edit vs = Inl AssertFailed" if "\<not> no_overlaps icmp b vs1 n"
      using b(3) [OF that] by (simp add: LogAndApply_version_eq [OF cur])
    show "\<exists>vs2. LogAndApply_version ops D icmp n edit vs = Inr (vs_next_version vs, vs2) \<and>
        built icmp n c edit vs vs2" if "no_overlaps icmp b vs1 n"
      using b(4) [OF that] version_built [OF cmp Ref Unref cur e refl refl] by blast
  qed
qed

section \<open>From the edit to the current version\<close>

definition commit_laws :: "('d, 'w) vs_ops \<Rightarrow> bool" where
  "commit_laws ops \<longleftrightarrow> Ref_increments (vo_Ref ops) \<and> Unref_decrements (vo_Unref ops) \<and>
     releases (vo_Unref ops) \<and> deletes_version (vo_delete_version ops) \<and>
     leaves_pending (vo_Unlock ops) \<and> leaves_pending (vo_Lock ops)"

text \<open>
  What the MANIFEST needs: on first use a descriptor number and files that can be written once they
  are made, later the file and its log writer.
\<close>

definition manifest_ready :: "(status \<Rightarrow> bool) \<Rightarrow> ('d, 'w) vs_ops \<Rightarrow> 'd vset \<Rightarrow> bool" where
  "manifest_ready ok ops vs \<longleftrightarrow>
     (if vs_descriptor_file vs = None
      then 0 < vs_manifest_file_number vs \<and> (\<forall>name w. ok (fst (vo_NewWritableFile ops name w)) \<longrightarrow>
        fst (snd (vo_NewWritableFile ops name w)) \<noteq> None)
      else vs_descriptor_log vs \<noteq> None)"

lemma current_ok_same:
  assumes "current_ok n c vs" and "vs_versions vs' = vs_versions vs" and "vs_files vs' = vs_files vs"
    and "vs_current vs' = vs_current vs" and "vs_dummy vs' = vs_dummy vs"
    and "vs_next_version vs' = vs_next_version vs" and "vs_compact_pointer vs' = vs_compact_pointer vs"
  shows "current_ok n c vs'"
proof -
  have "version_list vs' xs" if "version_list vs xs" for xs
    by (rule version_list_same [OF that]) (simp_all add: assms)
  then show ?thesis
    using assms by (auto simp: current_ok_def vset_ok_def version_ok_def refs_from_def)
qed

lemma pending_same:
  assumes "pending n c old v ver key vs" and "vs_versions vs' = vs_versions vs" and "vs_files vs' = vs_files vs"
    and "vs_current vs' = vs_current vs" and "vs_dummy vs' = vs_dummy vs"
    and "vs_next_version vs' = vs_next_version vs" and "vs_compact_pointer vs' = vs_compact_pointer vs"
  shows "pending n c old v ver key vs'"
proof -
  have "version_list vs' xs" if "version_list vs xs" for xs
    by (rule version_list_same [OF that]) (simp_all add: assms)
  moreover have "current_ok n c vs'" by (rule current_ok_same [OF pendingD(1)]) (use assms in auto)
  ultimately show ?thesis
    using assms unfolding pending_def by (auto simp: refs_from_def level_files_def)
qed

lemma snapshot_edit_returns:
  assumes "vs_current vs = Some c" and "version_ok n c vs" and "length (vs_compact_pointer vs) = n"
  shows "\<exists>e. snapshot_edit name n vs = Inr e"
proof -
  obtain v where v: "vs_versions vs c = Some v" "length (v_files v) = n"
    "\<forall>i < n. \<forall>p \<in> set (v_files v ! i). live (vs_files vs) p"
    using assms(2) unfolding version_ok_def by blast
  obtain e1 where "ofold (Snapshot_pointers (vs_compact_pointer vs)) (map int [0..<n])
      (SetComparatorName name VersionEdit) = Inr e1"
    using Snapshot_pointers_loop [of n "vs_compact_pointer vs"] assms(3) by blast
  moreover obtain e2 where "ofold (Snapshot_files (vs_files vs) (v_files v)) (map int [0..<n]) e1 = Inr e2"
    using Snapshot_files_loop [of n "v_files v" "vs_files vs" e1] v by auto
  ultimately show ?thesis using assms(1) v(1) by (simp add: snapshot_edit_def)
qed

lemma SetCurrentFile_returns:
  "0 < m \<Longrightarrow> \<exists>st w'. SetCurrentFile ok write_sync rename remove db m w = Inr (st, w')"
  by (simp add: SetCurrentFile_def DescriptorFileName_full TempFileName_def start_with_def Let_def case_prod_unfold)

text \<open>
  What opening the descriptor leaves: files that can be written to, and, when something fails or will
  fail later on first use, a MANIFEST name that makes \<open>LogAndApply_install\<close> close them again.
\<close>

definition descriptor_open :: "(status \<Rightarrow> bool) \<Rightarrow> ('d, 'w) vs_ops \<Rightarrow> status \<Rightarrow> string \<Rightarrow> 'd vset \<Rightarrow> bool" where
  "descriptor_open ok ops st man vs \<longleftrightarrow>
     (ok st \<longrightarrow> vs_descriptor_file vs \<noteq> None \<and> vs_descriptor_log vs \<noteq> None) \<and>
     (if man = '''' then vs_descriptor_file vs \<noteq> None \<and> vs_descriptor_log vs \<noteq> None
      else 0 < vs_manifest_file_number vs \<and> (\<forall>name w. ok (fst (vo_NewWritableFile ops name w)) \<longrightarrow>
        fst (snd (vo_NewWritableFile ops name w)) \<noteq> None))"

lemma descriptor_pending:
  assumes pend: "pending n c old v ver key vs" and ready: "manifest_ready ok ops vs"
  obtains st man e vs' w' where
    "LogAndApply_descriptor ok ops name dbname n edit (vs, w) = Inr (st, man, e, vs', w')"
    and "pending n c old v ver key vs'" and "descriptor_open ok ops st man vs'"
    and "vs_log_number vs' = vs_log_number vs" and "vs_next_file_number vs' = vs_next_file_number vs"
    and "ve_log_number e = ve_log_number edit"
proof (cases "vs_descriptor_file vs = None")
  case False
  show thesis
    by (rule that [of Status_default "''''" edit vs w])
      (use False ready pend in \<open>simp_all add: LogAndApply_descriptor_def manifest_ready_def descriptor_open_def\<close>)
next
  case True
  let ?man = "dbname @ ''/MANIFEST-'' @ pad6 (unat (vs_manifest_file_number vs))"
  let ?e = "SetNextFile (vs_next_file_number vs) edit"
  have m: "0 < vs_manifest_file_number vs" using True ready by (simp add: manifest_ready_def)
  obtain st f w1 where new: "vo_NewWritableFile ops ?man w = (st, f, w1)"
    by (cases "vo_NewWritableFile ops ?man w") auto
  let ?vs1 = "vs\<lparr>vs_descriptor_file := f\<rparr>"
  show thesis
  proof (cases "ok st")
    case False
    show thesis
      by (rule that [of st ?man ?e ?vs1 w1])
        (use True False new m ready pending_same [OF pend, of ?vs1] in \<open>simp_all add: LogAndApply_descriptor_def
          DescriptorFileName_full Let_def descriptor_open_def manifest_ready_def SetNextFile_def\<close>)
  next
    case ok: True
    have "f \<noteq> None" using True ready ok new unfolding manifest_ready_def by (metis fst_conv snd_conv)
    then obtain l where f: "f = Some l" by blast
    let ?vs2 = "?vs1\<lparr>vs_descriptor_log := f\<rparr>"
    have pend2: "pending n c old v ver key ?vs2" by (rule pending_same [OF pend]) simp_all
    have cur: "vs_current ?vs2 = Some c" "version_ok n c ?vs2" "length (vs_compact_pointer ?vs2) = n"
      using pendingD(1) [OF pend2] by (simp_all add: current_ok_def vset_ok_def)
    obtain e2 where "snapshot_edit name n ?vs2 = Inr e2" using snapshot_edit_returns [OF cur] by blast
    then obtain st' w' where snap: "WriteSnapshot ops name n l (?vs2, w1) = Inr (st', ?vs2, w')"
      by (auto simp: WriteSnapshot_def Let_def case_prod_unfold)
    show thesis
      by (rule that [of st' ?man ?e ?vs2 w'])
        (use True ok new m ready pend2 snap f in \<open>simp_all add: LogAndApply_descriptor_def
          DescriptorFileName_full Let_def descriptor_open_def manifest_ready_def SetNextFile_def\<close>)
  qed
qed

lemma LogAndApply_record_returns:
  assumes "ok st \<Longrightarrow> vs_descriptor_file vs \<noteq> None \<and> vs_descriptor_log vs \<noteq> None"
  shows "\<exists>st' w'. LogAndApply_record ok ops edit st (vs, w) = Inr (st', vs, w') \<and> (ok st' \<longrightarrow> ok st)"
  using assms by (auto simp: LogAndApply_record_def Let_def split: prod.split option.split)

lemma LogAndApply_current_returns:
  assumes "man \<noteq> '''' \<Longrightarrow> 0 < vs_manifest_file_number vs"
  shows "\<exists>st' w'. LogAndApply_current ok ops dbname man st (vs, w) = Inr (st', vs, w') \<and> (ok st' \<longrightarrow> ok st)"
proof (cases "man = ''''")
  case False
  have "\<exists>st' w'. SetCurrentFile ok (vo_WriteStringToFileSync ops) (vo_RenameFile ops) (vo_RemoveFile ops)
      dbname (vs_manifest_file_number vs) w = Inr (st', w')"
    by (rule SetCurrentFile_returns) (rule assms [OF False])
  then show ?thesis by (auto simp: LogAndApply_current_def)
qed (simp add: LogAndApply_current_def)

lemma leaves_pendingD:
  assumes "leaves_pending f" and "f (vs, w) = (vs', w')"
  shows "vs_descriptor_file vs' = vs_descriptor_file vs" and "vs_descriptor_log vs' = vs_descriptor_log vs"
    and "vs_manifest_file_number vs' = vs_manifest_file_number vs"
    and "vs_log_number vs' = vs_log_number vs" and "vs_next_file_number vs \<le> vs_next_file_number vs'"
    and "pending n c old v ver key vs \<Longrightarrow> pending n c old v ver key vs'"
  using assms unfolding leaves_pending_def by (metis fst_conv)+

text \<open>Installing the version, or undoing everything.\<close>

text \<open>What \<open>LogAndApply\<close> leaves: the next version installed, or the old one as it was.\<close>

definition committed ::
  "(status \<Rightarrow> bool) \<Rightarrow> ('d, 'w) vs_ops \<Rightarrow> nat \<Rightarrow> nat \<Rightarrow> (nat \<Rightarrow> fkey list) \<Rightarrow> nat \<Rightarrow> (nat \<Rightarrow> fkey list) \<Rightarrow> u64
   \<Rightarrow> 'd vset \<Rightarrow> status \<Rightarrow> 'd vset \<Rightarrow> bool" where
  "committed ok ops n c old v new log vs st vs' \<longleftrightarrow>
     manifest_ready ok ops vs' \<and> vs_next_file_number vs \<le> vs_next_file_number vs' \<and>
     (if ok st
      then current_ok n v vs' \<and> (\<exists>xs. version_list vs' (xs @ [v])) \<and> vs_log_number vs' = log \<and>
        (\<forall>i < n. keys (vs_files vs') (level_files v vs' i) = new i)
      else current_ok n c vs' \<and> vs_log_number vs' = vs_log_number vs \<and>
        (\<forall>i < n. keys (vs_files vs') (level_files c vs' i) = old i))"

lemma install_committed:
  assumes laws: "commit_laws ops" and pend: "pending n c old v ver key vs" and st: "ok st"
    and desc: "vs_descriptor_file vs \<noteq> None" "vs_descriptor_log vs \<noteq> None"
  shows "\<exists>vs' w'. LogAndApply_install ok ops man edit v st (vs, w) = Inr (vs', w') \<and>
    committed ok ops n c old v (\<lambda>i. map key (v_files ver ! i)) (ve_log_number edit) vs st vs'"
proof -
  have Ref: "Ref_increments (vo_Ref ops)" and rel: "releases (vo_Unref ops)"
    using laws by (simp_all add: commit_laws_def)
  obtain vers fs where 1:
    "AppendVersion (vo_Ref ops) (vo_Unref ops) v vs = Inr (vs\<lparr>vs_versions := vers, vs_files := fs, vs_current := Some v\<rparr>)"
    "current_ok n v (vs\<lparr>vs_versions := vers, vs_files := fs, vs_current := Some v\<rparr>)"
    "\<exists>xs. version_list (vs\<lparr>vs_versions := vers, vs_files := fs, vs_current := Some v\<rparr>) (xs @ [v])"
    "v_files (the (vers v)) = v_files ver"
    "\<forall>p \<in> set (concat (v_files ver)). file_key (fm fs p) = key p"
    by (rule install_pending [OF pend Ref rel]) (rule that; assumption)
  let ?vs1 = "vs\<lparr>vs_versions := vers, vs_files := fs, vs_current := Some v\<rparr>"
  let ?vs' = "?vs1\<lparr>vs_log_number := ve_log_number edit, vs_prev_log_number := ve_prev_log_number edit\<rparr>"
  obtain xs where xs: "version_list ?vs1 (xs @ [v])" using 1(3) by blast
  have "version_list ?vs' (xs @ [v])" by (rule version_list_same [OF xs]) simp_all
  moreover have "current_ok n v ?vs'" by (rule current_ok_same [OF 1(2)]) simp_all
  moreover have "keys fs (level_files v ?vs' i) = map key (v_files ver ! i)" if "i < n" for i
  proof -
    have "\<forall>p \<in> set (v_files ver ! i). file_key (fm fs p) = key p"
      using 1(5) level_files_in_files [OF pendingD(7) [OF pend] that] by blast
    then show ?thesis using 1(4) by (simp add: keys_def level_files_def)
  qed
  ultimately have "committed ok ops n c old v (\<lambda>i. map key (v_files ver ! i)) (ve_log_number edit) vs st ?vs'"
    using st desc by (auto simp: committed_def manifest_ready_def)
  then show ?thesis using st 1(1) by (auto simp: LogAndApply_install_def)
qed

lemma undo_committed:
  assumes laws: "commit_laws ops" and pend: "pending n c old v ver key vs" and st: "\<not> ok st"
    and desc: "descriptor_open ok ops st0 man vs"
  shows "\<exists>vs' w'. LogAndApply_install ok ops man edit v st (vs, w) = Inr (vs', w') \<and>
    committed ok ops n c old v new log vs st vs'"
proof -
  have del: "deletes_version (vo_delete_version ops)" using laws by (simp add: commit_laws_def)
  obtain vers fs where 1: "vo_delete_version ops v vs = Inr (vs\<lparr>vs_versions := vers, vs_files := fs\<rparr>)"
    "current_ok n c (vs\<lparr>vs_versions := vers, vs_files := fs\<rparr>)"
    "\<forall>i < n. keys fs (level_files c (vs\<lparr>vs_versions := vers, vs_files := fs\<rparr>) i) = old i"
    by (rule undo_pending [OF pend del]) (rule that; assumption)
  let ?vs1 = "vs\<lparr>vs_versions := vers, vs_files := fs\<rparr>"
  show ?thesis
  proof (cases "man = ''''")
    case True
    have "committed ok ops n c old v new log vs st ?vs1"
      using st 1(2,3) desc True by (auto simp: committed_def manifest_ready_def descriptor_open_def)
    then show ?thesis using st 1(1) True by (auto simp: LogAndApply_install_def)
  next
    case False
    let ?vs' = "?vs1\<lparr>vs_descriptor_log := None, vs_descriptor_file := None\<rparr>"
    have "current_ok n c ?vs'" by (rule current_ok_same [OF 1(2)]) simp_all
    moreover have "level_files c ?vs' i = level_files c ?vs1 i" for i by (simp add: level_files_def)
    ultimately have "committed ok ops n c old v new log vs st ?vs'"
      using st 1(3) desc False by (auto simp: committed_def manifest_ready_def descriptor_open_def)
    then show ?thesis using st 1(1) False by (auto simp: LogAndApply_install_def Let_def)
  qed
qed

lemma committed_from:
  assumes "committed ok ops n c old v new log vs4 st vs'" and "vs_log_number vs4 = vs_log_number vs"
    and "vs_next_file_number vs \<le> vs_next_file_number vs4"
  shows "committed ok ops n c old v new log vs st vs'"
  using assms order_trans [OF assms(3)] unfolding committed_def by (auto split: if_splits)

lemma commit_pending:
  assumes laws: "commit_laws ops" and pend: "pending n c old v ver key vs2" and ready: "manifest_ready ok ops vs2"
    and version: "LogAndApply_edit edit vs = Inr edit'" "LogAndApply_version ops D icmp n edit' vs = Inr (v, vs2)"
  shows "\<exists>st e vs' w'. LogAndApply ok ops D icmp name dbname n edit (vs, w) = Inr (st, e, vs', w') \<and>
    committed ok ops n c old v (\<lambda>i. map key (v_files ver ! i)) (ve_log_number edit') vs2 st vs'"
proof -
  have unlock: "leaves_pending (vo_Unlock ops)" and lock: "leaves_pending (vo_Lock ops)"
    using laws by (simp_all add: commit_laws_def)
  obtain st man e vs3 w3 where 3: "LogAndApply_descriptor ok ops name dbname n edit' (vs2, w) = Inr (st, man, e, vs3, w3)"
    "pending n c old v ver key vs3" "descriptor_open ok ops st man vs3"
    "vs_log_number vs3 = vs_log_number vs2" "vs_next_file_number vs3 = vs_next_file_number vs2"
    "ve_log_number e = ve_log_number edit'"
    by (rule descriptor_pending [where name = name and dbname = dbname and edit = edit' and w = w,
        OF pend ready]) (rule that; blast)
  obtain vs4 w4 where 4: "vo_Unlock ops (vs3, w3) = (vs4, w4)" by (cases "vo_Unlock ops (vs3, w3)")
  note vs4 = leaves_pendingD [OF unlock 4]
  obtain st5 w5 where 5: "LogAndApply_record ok ops e st (vs4, w4) = Inr (st5, vs4, w5)" "ok st5 \<Longrightarrow> ok st"
    using LogAndApply_record_returns [where ok = ok and ops = ops and edit = e and st = st and vs = vs4 and w = w4]
      3(3) vs4(1,2) unfolding descriptor_open_def by metis
  obtain st6 w6 where 6: "LogAndApply_current ok ops dbname man st5 (vs4, w5) = Inr (st6, vs4, w6)" "ok st6 \<Longrightarrow> ok st5"
    using LogAndApply_current_returns [where ok = ok and ops = ops and dbname = dbname and man = man
        and st = st5 and vs = vs4 and w = w5] 3(3) vs4(3) unfolding descriptor_open_def by metis
  obtain vs7 w7 where 7: "vo_Lock ops (vs4, w6) = (vs7, w7)" by (cases "vo_Lock ops (vs4, w6)")
  note vs7 = leaves_pendingD [OF lock 7]
  have pend7: "pending n c old v ver key vs7" using vs7(6) vs4(6) 3(2) by blast
  have desc: "descriptor_open ok ops st man vs7"
    using 3(3) vs4(1-3) vs7(1-3) by (simp add: descriptor_open_def)
  have "\<exists>vs' w'. LogAndApply_install ok ops man e v st6 (vs7, w7) = Inr (vs', w') \<and>
      committed ok ops n c old v (\<lambda>i. map key (v_files ver ! i)) (ve_log_number edit') vs7 st6 vs'"
  proof (cases "ok st6")
    case True
    then have "vs_descriptor_file vs7 \<noteq> None" "vs_descriptor_log vs7 \<noteq> None"
      using desc 5(2) 6(2) by (simp_all add: descriptor_open_def)
    from install_committed [where ok = ok and st = st6 and man = man and edit = e and w = w7, OF laws pend7 True this]
    show ?thesis unfolding 3(6) .
  next
    case False
    show ?thesis by (rule undo_committed [where ok = ok and st = st6, OF laws pend7 False desc])
  qed
  then obtain vs' w' where i: "LogAndApply_install ok ops man e v st6 (vs7, w7) = Inr (vs', w')"
    "committed ok ops n c old v (\<lambda>i. map key (v_files ver ! i)) (ve_log_number edit') vs7 st6 vs'" by blast
  have "LogAndApply ok ops D icmp name dbname n edit (vs, w) = Inr (st6, e, vs', w')"
    using version 3(1) 4 5(1) 6(1) 7 i(1) by (simp add: LogAndApply_def)
  moreover have "committed ok ops n c old v (\<lambda>i. map key (v_files ver ! i)) (ve_log_number edit') vs2 st6 vs'"
    by (rule committed_from [OF i(2)]) (use 3(4,5) vs4(4,5) vs7(4,5) in auto)
  ultimately show ?thesis by blast
qed

lemma commit_built:
  assumes laws: "commit_laws ops" and built: "built icmp n c edit' vs vs2" and ready: "manifest_ready ok ops vs"
    and version: "LogAndApply_edit edit vs = Inr edit'"
      "LogAndApply_version ops D icmp n edit' vs = Inr (vs_next_version vs, vs2)"
  shows "\<exists>st e vs' w' new. LogAndApply ok ops D icmp name dbname n edit (vs, w) = Inr (st, e, vs', w') \<and>
    saved_keys icmp n edit' (level_keys c vs) new \<and>
    committed ok ops n c (level_keys c vs) (vs_next_version vs) new (ve_log_number edit') vs st vs'"
proof -
  let ?v = "vs_next_version vs" and ?old = "level_keys c vs"
  obtain ver key where p: "pending n c ?old ?v ver key vs2" "manifest_ready ok ops vs2"
    "vs_log_number vs2 = vs_log_number vs" "vs_next_file_number vs2 = vs_next_file_number vs"
    "saved_keys icmp n edit' ?old (\<lambda>i. map key (v_files ver ! i))"
    using built ready by (auto simp: built_def manifest_ready_def)
  obtain st e vs' w' where run: "LogAndApply ok ops D icmp name dbname n edit (vs, w) = Inr (st, e, vs', w')"
    "committed ok ops n c ?old ?v (\<lambda>i. map key (v_files ver ! i)) (ve_log_number edit') vs2 st vs'"
    using commit_pending [OF laws p(1,2) version] by blast
  have "committed ok ops n c ?old ?v (\<lambda>i. map key (v_files ver ! i)) (ve_log_number edit') vs st vs'"
    using committed_from [OF run(2) p(3)] p(4) by simp
  then show ?thesis using run(1) p(5) by blast
qed

text \<open>The log number a version set has after an edit.\<close>

definition edit_log :: "version_edit \<Rightarrow> u64 \<Rightarrow> u64" where
  "edit_log edit log = (if ve_has_log_number edit then ve_log_number edit else log)"

lemma LogAndApply_edit_log:
  "LogAndApply_edit edit vs = Inr edit' \<Longrightarrow> ve_log_number edit' = edit_log edit (vs_log_number vs)"
  by (auto simp: LogAndApply_edit_def edit_log_def obind_eq_Inr SetLogNumber_def SetPrevLogNumber_def
      SetNextFile_def SetLastSequence_def Let_def split: if_splits)

lemma LogAndApply_result:
  assumes "ikey_comparator icmp" and "commit_laws ops" and "current_ok n c vs"
    and "edit_ok n edit" and "fresh_numbers edit"
    and "ve_has_log_number edit \<Longrightarrow>
      vs_log_number vs \<le> ve_log_number edit \<and> ve_log_number edit < vs_next_file_number vs"
    and "manifest_ready ok ops vs"
  obtains edit' b vs1 where "LogAndApply_edit edit vs = Inr edit'"
    and "obind (Builder (vo_Ref ops) n c (snd (new_version n (do_neg1 D) vs))) (Apply icmp edit') = Inr (b, vs1)"
    and "edit_apart icmp n edit (\<lambda>i. set (level_keys c vs i)) \<Longrightarrow>
      \<forall>i < n. 0 < i \<longrightarrow> keys_ordered icmp (level_keys c vs i) \<Longrightarrow> no_overlaps icmp b vs1 n"
    and "\<not> no_overlaps icmp b vs1 n \<Longrightarrow> LogAndApply ok ops D icmp name dbname n edit (vs, w) = Inl AssertFailed"
    and "no_overlaps icmp b vs1 n \<Longrightarrow>
      \<exists>st e vs' w' new. LogAndApply ok ops D icmp name dbname n edit (vs, w) = Inr (st, e, vs', w') \<and>
        saved_keys icmp n edit (level_keys c vs) new \<and>
        committed ok ops n c (level_keys c vs) (vs_next_version vs) new (edit_log edit (vs_log_number vs)) vs st vs'"
proof -
  obtain edit' where edit': "LogAndApply_edit edit vs = Inr edit'"
    "ve_deleted_files edit' = ve_deleted_files edit" "ve_new_files edit' = ve_new_files edit"
    "ve_compact_pointers edit' = ve_compact_pointers edit"
    using LogAndApply_edit_ok [OF assms(6)] by blast
  then have e': "edit_ok n edit'" "fresh_numbers edit'"
    using assms(4,5) by (simp_all add: edit_ok_def fresh_numbers_def)
  note same = edit_same [OF edit'(2,3)]
  have laws: "Ref_increments (vo_Ref ops)" "Unref_decrements (vo_Unref ops)"
    using assms(2) by (simp_all add: commit_laws_def)
  obtain b vs1 where b:
    "obind (Builder (vo_Ref ops) n c (snd (new_version n (do_neg1 D) vs))) (Apply icmp edit') = Inr (b, vs1)"
    "edit_apart icmp n edit' (\<lambda>i. set (level_keys c vs i)) \<Longrightarrow>
      \<forall>i < n. 0 < i \<longrightarrow> keys_ordered icmp (level_keys c vs i) \<Longrightarrow> no_overlaps icmp b vs1 n"
    "\<not> no_overlaps icmp b vs1 n \<Longrightarrow> LogAndApply_version ops D icmp n edit' vs = Inl AssertFailed"
    "no_overlaps icmp b vs1 n \<Longrightarrow> \<exists>vs2. LogAndApply_version ops D icmp n edit' vs =
       Inr (vs_next_version vs, vs2) \<and> built icmp n c edit' vs vs2"
    by (rule LogAndApply_version_result [OF assms(1) laws assms(3) e']) (rule that; assumption)
  show thesis
  proof (rule that [OF edit'(1) b(1) b(2) [unfolded same]])
    show "LogAndApply ok ops D icmp name dbname n edit (vs, w) = Inl AssertFailed"
      if "\<not> no_overlaps icmp b vs1 n"
      using b(3) [OF that] edit'(1) by (simp add: LogAndApply_def)
  next
    assume "no_overlaps icmp b vs1 n"
    then obtain vs2 where v: "LogAndApply_version ops D icmp n edit' vs = Inr (vs_next_version vs, vs2)"
      "built icmp n c edit' vs vs2" using b(4) by blast
    from commit_built [OF assms(2) v(2) assms(7) edit'(1) v(1)]
    show "\<exists>st e vs' w' new. LogAndApply ok ops D icmp name dbname n edit (vs, w) = Inr (st, e, vs', w') \<and>
        saved_keys icmp n edit (level_keys c vs) new \<and>
        committed ok ops n c (level_keys c vs) (vs_next_version vs) new (edit_log edit (vs_log_number vs)) vs st vs'"
      unfolding same LogAndApply_edit_log [OF edit'(1)] .
  qed
qed

text \<open>What holds when the levels above 0 stay apart: no overlap, and they are again in order.\<close>

lemma LogAndApply_apart:
  assumes "ikey_comparator icmp" and "commit_laws ops" and "current_ok n c vs"
    and "edit_ok n edit" and "fresh_numbers edit"
    and "ve_has_log_number edit \<Longrightarrow>
      vs_log_number vs \<le> ve_log_number edit \<and> ve_log_number edit < vs_next_file_number vs"
    and "manifest_ready ok ops vs" and apart: "edit_apart icmp n edit (\<lambda>i. set (level_keys c vs i))"
    and ordered: "\<forall>i < n. 0 < i \<longrightarrow> keys_ordered icmp (level_keys c vs i)"
  obtains st e vs' w' new where "LogAndApply ok ops D icmp name dbname n edit (vs, w) = Inr (st, e, vs', w')"
    and "saved_keys icmp n edit (level_keys c vs) new" and "\<forall>i < n. 0 < i \<longrightarrow> keys_ordered icmp (new i)"
    and "committed ok ops n c (level_keys c vs) (vs_next_version vs) new (edit_log edit (vs_log_number vs)) vs st vs'"
proof -
  obtain st e vs' w' new where r: "LogAndApply ok ops D icmp name dbname n edit (vs, w) = Inr (st, e, vs', w')"
    "saved_keys icmp n edit (level_keys c vs) new"
    "committed ok ops n c (level_keys c vs) (vs_next_version vs) new (edit_log edit (vs_log_number vs)) vs st vs'"
    using LogAndApply_result [where D = D and ok = ok and name = name and dbname = dbname and w = w,
        OF assms(1-7)] apart ordered by metis
  then show thesis using that saved_keys_ordered [OF assms(1) r(2) apart] by blast
qed

text \<open>
  C6: \<open>LogAndApply\<close>, on first use or with the MANIFEST open, on an edit whose levels exist, whose file numbers
  are distinct and whose log number, if any, is in range. It stops at the overlap assert of the
  builder exactly when two neighbours of a level above 0 overlap. Otherwise it returns, whatever
  references other threads take and give back while the mutex is released. When the status counts
  as ok, the new version is current and last in the list of versions, and on every level it has
  the file numbers of the old one without the deleted ones and with the added ones; when not, the
  old version is current and has the files it had. Either way the version set is as well kept as before: what the
  current version refers to is alive and counted, and the MANIFEST can be written.
\<close>

theorem LogAndApply_installs_edit:
  assumes "ikey_comparator icmp" and "commit_laws ops" and "current_ok n c vs"
    and "edit_ok n edit" and "fresh_numbers edit"
    and "ve_has_log_number edit \<Longrightarrow>
      vs_log_number vs \<le> ve_log_number edit \<and> ve_log_number edit < vs_next_file_number vs"
    and "manifest_ready ok ops vs"
  shows "\<exists>edit' b vs1. LogAndApply_edit edit vs = Inr edit' \<and>
    obind (Builder (vo_Ref ops) n c (snd (new_version n (do_neg1 D) vs))) (Apply icmp edit') = Inr (b, vs1) \<and>
    (if no_overlaps icmp b vs1 n
     then \<exists>st e vs' w'. LogAndApply ok ops D icmp name dbname n edit (vs, w) = Inr (st, e, vs', w') \<and>
       manifest_ready ok ops vs' \<and>
       (if ok st
        then vs_current vs' = Some (vs_next_version vs) \<and> (\<exists>xs. version_list vs' (xs @ [vs_next_version vs])) \<and>
          current_ok n (vs_next_version vs) vs' \<and>
          (\<forall>i < n. numbers (vs_files vs') (level_files (vs_next_version vs) vs' i) =
             edit_numbers i edit (numbers (vs_files vs) (level_files c vs i)))
        else vs_current vs' = Some c \<and> current_ok n c vs' \<and>
          (\<forall>i < n. numbers (vs_files vs') (level_files c vs' i) = numbers (vs_files vs) (level_files c vs i)))
     else LogAndApply ok ops D icmp name dbname n edit (vs, w) = Inl AssertFailed)"
proof -
  obtain edit' b vs1 where r: "LogAndApply_edit edit vs = Inr edit'"
    "obind (Builder (vo_Ref ops) n c (snd (new_version n (do_neg1 D) vs))) (Apply icmp edit') = Inr (b, vs1)"
    "\<not> no_overlaps icmp b vs1 n \<Longrightarrow> LogAndApply ok ops D icmp name dbname n edit (vs, w) = Inl AssertFailed"
    "no_overlaps icmp b vs1 n \<Longrightarrow>
      \<exists>st e vs' w' new. LogAndApply ok ops D icmp name dbname n edit (vs, w) = Inr (st, e, vs', w') \<and>
        saved_keys icmp n edit (level_keys c vs) new \<and>
        committed ok ops n c (level_keys c vs) (vs_next_version vs) new (edit_log edit (vs_log_number vs)) vs st vs'"
    by (rule LogAndApply_result [where D = D and ok = ok and name = name and dbname = dbname and w = w,
          OF assms]) (assumption, (rule that; assumption))
  have cur: "current_ok n a vs' \<Longrightarrow> vs_current vs' = Some a" for a and vs' :: "'d vset"
    by (simp add: current_ok_def)
  show ?thesis
  proof (cases "no_overlaps icmp b vs1 n")
    case True
    obtain st e vs' w' new where run: "LogAndApply ok ops D icmp name dbname n edit (vs, w) = Inr (st, e, vs', w')"
      and saved: "saved_keys icmp n edit (level_keys c vs) new"
      and "committed ok ops n c (level_keys c vs) (vs_next_version vs) new (edit_log edit (vs_log_number vs)) vs st vs'"
      using r(4) [OF True] by blast
    then show ?thesis
      using True r(1,2) cur saved_keys_numbers [OF saved]
      by (cases "ok st") (fastforce simp: committed_def numbers_keys)+
  next
    case False
    then show ?thesis
      using r(1,2) r(3) [OF False] by (intro exI [of _ edit'] exI [of _ b] exI [of _ vs1]) simp
  qed
qed

section \<open>An instance\<close>

text \<open>The version set of \<open>ex_linked\<close> with an open MANIFEST, and an \<open>Unref\<close> that frees no version.\<close>

definition ex_open :: "int vset" where
  "ex_open = ex_linked\<lparr>vs_descriptor_file := Some 0, vs_descriptor_log := Some 0\<rparr>"

lemma returns_none: "returns_refs a vs (vs_files vs)"
  by (simp add: returns_refs_def refs_from_def)

lemma ex_Unref_releases: "releases ex_Unref"
  unfolding releases_def
proof (intro allI impI)
  fix vs :: "'a vset" and c cur xs
  assume xs: "version_list vs xs" "c \<in> set xs" and cur: "vs_versions vs c = Some cur" "0 < v_refs cur"
  let ?vers = "(vs_versions vs)(c \<mapsto> cur\<lparr>v_refs := v_refs cur - 1\<rparr>)"
  let ?vs1 = "vs\<lparr>vs_versions := ?vers, vs_files := vs_files vs\<rparr>"
  have "linked ?vs1 = linked vs" using cur(1) by (intro ext) (auto simp: linked_def)
  then have "version_list ?vs1 xs" using xs(1) by (simp add: version_list_def)
  moreover have "ex_Unref c vs = Inr ?vs1" using cur by (simp add: ex_Unref_def store_version_def)
  ultimately show "\<exists>vers fs xs1. ex_Unref c vs = Inr (vs\<lparr>vs_versions := vers, vs_files := fs\<rparr>) \<and>
        version_list (vs\<lparr>vs_versions := vers, vs_files := fs\<rparr>) xs1 \<and> set xs1 \<subseteq> set xs \<and>
        (\<forall>a. a \<notin> set (vs_dummy vs # xs) \<longrightarrow> vers a = vs_versions vs a) \<and> returns_refs c vs fs"
    using xs(2) returns_none
    by (intro exI [of _ ?vers] exI [of _ "vs_files vs"] exI [of _ xs] conjI) auto
qed

lemma ex_deletes_version: "deletes_version (\<lambda>a vs. Inr (vs\<lparr>vs_versions := (vs_versions vs)(a := None)\<rparr>))"
  unfolding deletes_version_def
proof (intro allI impI)
  fix vs :: "'a vset" and v
  show "\<exists>fs. (Inr (vs\<lparr>vs_versions := (vs_versions vs)(v := None)\<rparr>) :: 'a vset outcome) =
      Inr (vs\<lparr>vs_versions := (vs_versions vs)(v := None), vs_files := fs\<rparr>) \<and> returns_refs v vs fs"
    by (intro exI [of _ "vs_files vs"] conjI returns_none) simp
qed

lemma ex_commit_laws: "commit_laws ex_ops"
  using ex_Ref ex_Unref ex_Unref_releases ex_deletes_version
  by (simp add: commit_laws_def ex_ops_def leaves_pending_def)

lemma ex_current_ok: "current_ok 2 1 ex_open"
proof -
  have "version_list ex_open [1]"
    by (auto simp: version_list_def linked_def ex_open_def ex_linked_def ex_vset_def)
  moreover have "vset_ok 2 1 ex_open"
    by (auto simp: vset_ok_def version_ok_def ex_open_def ex_linked_def ex_vset_def store_ok_def live_def
        less_2_cases_iff Version_def split: if_splits)
  moreover have "\<forall>p. live (vs_files ex_open) p \<longrightarrow> refs_from 1 ex_open p \<le> fm_refs (fm (vs_files ex_open) p)"
    by (auto simp: ex_open_def ex_linked_def ex_vset_def live_def refs_from_def ex_file_def)
  ultimately show ?thesis
    unfolding current_ok_def by (auto simp: ex_open_def ex_linked_def ex_vset_def intro!: exI [of _ "[1]"])
qed

lemma ex_open_runs:
  "case LogAndApply Status_is_default ex_ops ex_doubles ikey_bytes_compare ''cmp'' ''db'' 2 ex_edit (ex_open, []) of
     Inl _ \<Rightarrow> False | Inr (st, _) \<Rightarrow> st = Status_default"
  by code_simp

theorem LogAndApply_installs_edit_witness:
  "\<exists>edit' vs' w'. LogAndApply Status_is_default ex_ops ex_doubles ikey_bytes_compare ''cmp'' ''db'' 2
      ex_edit (ex_open, []) = Inr (Status_default, edit', vs', w') \<and>
    vs_current vs' = Some 3 \<and> (\<exists>xs. version_list vs' (xs @ [3])) \<and>
    numbers (vs_files vs') (level_files 3 vs' 1) = {5, 7}"
proof -
  let ?run = "LogAndApply Status_is_default ex_ops ex_doubles ikey_bytes_compare ''cmp'' ''db'' 2
      ex_edit (ex_open, [])"
  have v: "vs_next_version ex_open = 3" and f: "manifest_ready Status_is_default ex_ops ex_open"
    and e: "\<not> ve_has_log_number ex_edit"
    by (simp_all add: manifest_ready_def ex_open_def ex_linked_def ex_vset_def ex_edit_def AddFile_def VersionEdit_def VersionEdit_Clear_def)
  have fresh: "fresh_numbers ex_edit" by code_simp
  have nums: "edit_numbers 1 ex_edit (numbers (vs_files ex_open) (level_files 1 ex_open 1)) = {5, 7}"
    by (auto simp: edit_numbers_def new_numbers_def numbers_def level_files_def ex_edit_def AddFile_def
        VersionEdit_def VersionEdit_Clear_def ex_open_def ex_linked_def ex_vset_def ex_file_def FileMetaData_def)
  obtain st edit' vs' w' where r: "?run = Inr (st, edit', vs', w')" "st = Status_default"
    using ex_open_runs by (auto split: sum.splits)
  from LogAndApply_installs_edit [where D = ex_doubles and ok = Status_is_default and w = "[]"
      and name = "''cmp''" and dbname = "''db''",
      OF bytes_ikey.ikey_comparator_axioms ex_commit_laws ex_current_ok ex_edits_ok(2) fresh _ f, unfolded v]
  have "vs_current vs' = Some 3 \<and> (\<exists>xs. version_list vs' (xs @ [3])) \<and>
      (\<forall>i < 2. numbers (vs_files vs') (level_files 3 vs' i) =
         edit_numbers i ex_edit (numbers (vs_files ex_open) (level_files 1 ex_open i)))"
    using e r by (auto simp: Status_is_default_def split: if_splits)
  then show ?thesis using r nums by auto
qed

end
