(* ===== verification/VersionHistory.thy ===== *)
theory VersionHistory
  imports VersionCommit
begin

text \<open>
  The life of a version set: one \<open>LogAndApply\<close> after the other. What matters of the state is which
  file numbers the current version has on each level, and the log number; an edit that is committed
  changes it as the edit says, one that fails leaves it. Any sequence of edits refines this.
\<close>

section \<open>The abstract state\<close>

record file_sets =
  fl_keys :: "nat \<Rightarrow> fkey set"
  fl_log :: u64

definition file_sets_of :: "nat \<Rightarrow> 'd vset \<Rightarrow> file_sets" where
  "file_sets_of n vs =
     \<lparr>fl_keys = \<lambda>i. if i < n then set (level_keys (the (vs_current vs)) vs i) else {},
      fl_log = vs_log_number vs\<rparr>"

definition edit_sets :: "nat \<Rightarrow> version_edit \<Rightarrow> file_sets \<Rightarrow> file_sets" where
  "edit_sets n edit a =
     \<lparr>fl_keys = \<lambda>i. if i < n then edit_keys i edit (fl_keys a i) else {},
      fl_log = edit_log edit (fl_log a)\<rparr>"

text \<open>The edits whose status counts as ok are applied in order.\<close>

fun edits_done :: "(status \<Rightarrow> bool) \<Rightarrow> nat \<Rightarrow> (version_edit \<times> status) list \<Rightarrow> file_sets \<Rightarrow> file_sets" where
  "edits_done ok n [] a = a"
| "edits_done ok n ((e, st) # es) a = edits_done ok n es (if ok st then edit_sets n e a else a)"

section \<open>The sequence of calls\<close>

fun LogAndApply_all ::
  "(status \<Rightarrow> bool) \<Rightarrow> ('d, 'w) vs_ops \<Rightarrow> 'd double_ops \<Rightarrow> (ikey \<Rightarrow> ikey \<Rightarrow> int) \<Rightarrow> string \<Rightarrow> string \<Rightarrow> nat
   \<Rightarrow> version_edit list \<Rightarrow> 'd vset \<times> 'w \<Rightarrow> (status list \<times> 'd vset \<times> 'w) outcome" where
  "LogAndApply_all ok ops D icmp name dbname n [] s = Inr ([], s)"
| "LogAndApply_all ok ops D icmp name dbname n (e # es) s =
     obind (LogAndApply ok ops D icmp name dbname n e s) (\<lambda>(st, _, s).
     obind (LogAndApply_all ok ops D icmp name dbname n es s) (\<lambda>(sts, s). Inr (st # sts, s)))"

text \<open>Log numbers that do not go back, and that were handed out.\<close>

fun logs_in_range :: "u64 \<Rightarrow> u64 \<Rightarrow> version_edit list \<Rightarrow> bool" where
  "logs_in_range lo hi [] = True"
| "logs_in_range lo hi (e # es) =
     ((ve_has_log_number e \<longrightarrow> lo \<le> ve_log_number e \<and> ve_log_number e < hi) \<and>
      logs_in_range (edit_log e lo) hi es)"

lemma logs_in_range_mono:
  "logs_in_range lo hi es \<Longrightarrow> lo' \<le> lo \<Longrightarrow> hi \<le> hi' \<Longrightarrow> logs_in_range lo' hi' es"
proof (induction es arbitrary: lo lo')
  case (Cons e es)
  have "edit_log e lo' \<le> edit_log e lo" using Cons.prems(2) by (simp add: edit_log_def)
  moreover have "logs_in_range (edit_log e lo) hi es" using Cons.prems(1) by simp
  ultimately have "logs_in_range (edit_log e lo') hi' es" using Cons.IH Cons.prems(3) by blast
  then show ?case using Cons.prems by (auto intro: order_trans less_le_trans)
qed simp

lemma logs_in_range_skip: "logs_in_range lo hi (e # es) \<Longrightarrow> logs_in_range lo hi es"
  by (rule logs_in_range_mono [of "edit_log e lo" hi]) (auto simp: edit_log_def)

text \<open>
  Levels above 0 whose files are apart and in order, and edits whose files are apart from those
  there are at their time, whichever of the edits before them are committed.
\<close>

definition levels_ordered :: "(ikey \<Rightarrow> ikey \<Rightarrow> int) \<Rightarrow> nat \<Rightarrow> 'd vset \<Rightarrow> bool" where
  "levels_ordered icmp n vs \<longleftrightarrow>
     (\<forall>i < n. 0 < i \<longrightarrow> keys_ordered icmp (level_keys (the (vs_current vs)) vs i))"

fun edits_apart :: "(ikey \<Rightarrow> ikey \<Rightarrow> int) \<Rightarrow> nat \<Rightarrow> version_edit list \<Rightarrow> file_sets \<Rightarrow> bool" where
  "edits_apart icmp n [] a = True"
| "edits_apart icmp n (e # es) a =
     (edit_apart icmp n e (fl_keys a) \<and>
      edits_apart icmp n es (edit_sets n e a) \<and> edits_apart icmp n es a)"

lemma edit_apart_sets:
  "vs_current vs = Some c \<Longrightarrow> edit_apart icmp n e (fl_keys (file_sets_of n vs)) \<longleftrightarrow>
     edit_apart icmp n e (\<lambda>i. set (level_keys c vs i))"
  by (simp add: edit_apart_def file_sets_of_def)

text \<open>One step: the invariant and the abstract state.\<close>

lemma committed_sets:
  assumes com: "committed ok ops n c (level_keys c vs) v new (edit_log e (vs_log_number vs)) vs st vs'"
    and saved: "saved_keys icmp n e (level_keys c vs) new" and cur: "vs_current vs = Some c"
  shows "file_sets_of n vs' = (if ok st then edit_sets n e (file_sets_of n vs) else file_sets_of n vs)"
    and "\<exists>c'. current_ok n c' vs'" and "manifest_ready ok ops vs'"
    and "logs_in_range (vs_log_number vs) (vs_next_file_number vs) (e # es) \<Longrightarrow>
      logs_in_range (vs_log_number vs') (vs_next_file_number vs') es"
    and "\<forall>i < n. level_keys (the (vs_current vs')) vs' i = (if ok st then new i else level_keys c vs i)"
proof -
  have cur': "vs_current vs' = Some (if ok st then v else c)"
    using com by (auto simp: committed_def current_ok_def split: if_splits)
  show lists: "\<forall>i < n. level_keys (the (vs_current vs')) vs' i = (if ok st then new i else level_keys c vs i)"
    using com by (simp add: cur' committed_def split: if_splits)
  show "file_sets_of n vs' = (if ok st then edit_sets n e (file_sets_of n vs) else file_sets_of n vs)"
    using lists saved com by (simp add: file_sets_of_def edit_sets_def saved_keys_def committed_def cur fun_eq_iff)
  show "\<exists>c'. current_ok n c' vs'" "manifest_ready ok ops vs'"
    using com by (auto simp: committed_def split: if_splits)
  assume l: "logs_in_range (vs_log_number vs) (vs_next_file_number vs) (e # es)"
  show "logs_in_range (vs_log_number vs') (vs_next_file_number vs') es"
  proof (cases "ok st")
    case True
    then show ?thesis
      using com l by (auto simp: committed_def intro: logs_in_range_mono)
  next
    case False
    then show ?thesis
      using com logs_in_range_skip [OF l] by (auto simp: committed_def intro: logs_in_range_mono)
  qed
qed

lemma LogAndApply_step:
  assumes "ikey_comparator icmp" and "commit_laws ops" and "current_ok n c vs" and "manifest_ready ok ops vs"
    and "edit_ok n e" and "fresh_numbers e"
    and l: "logs_in_range (vs_log_number vs) (vs_next_file_number vs) (e # es)"
    and apart: "P \<longrightarrow> levels_ordered icmp n vs \<and> edit_apart icmp n e (fl_keys (file_sets_of n vs))"
  shows "\<not> P \<and> LogAndApply ok ops D icmp name dbname n e (vs, w) = Inl AssertFailed \<or>
    (\<exists>st e' vs' w' c'. LogAndApply ok ops D icmp name dbname n e (vs, w) = Inr (st, e', vs', w') \<and>
       file_sets_of n vs' = (if ok st then edit_sets n e (file_sets_of n vs) else file_sets_of n vs) \<and>
       current_ok n c' vs' \<and> manifest_ready ok ops vs' \<and> (P \<longrightarrow> levels_ordered icmp n vs') \<and>
       logs_in_range (vs_log_number vs') (vs_next_file_number vs') es)"
proof -
  have log: "ve_has_log_number e \<longrightarrow> vs_log_number vs \<le> ve_log_number e \<and> ve_log_number e < vs_next_file_number vs"
    using l by simp
  have cur: "vs_current vs = Some c" using assms(3) by (simp add: current_ok_def)
  let ?run = "LogAndApply ok ops D icmp name dbname n e (vs, w)"
  have ap: "edit_apart icmp n e (\<lambda>i. set (level_keys c vs i))"
    "\<forall>i < n. 0 < i \<longrightarrow> keys_ordered icmp (level_keys c vs i)" if P
    using mp [OF apart that] cur by (simp_all add: edit_apart_sets levels_ordered_def)
  obtain edit' b vs1 where "LogAndApply_edit e vs = Inr edit'"
    and "obind (Builder (vo_Ref ops) n c (snd (new_version n (do_neg1 D) vs))) (Apply icmp edit') = Inr (b, vs1)"
    and no: "edit_apart icmp n e (\<lambda>i. set (level_keys c vs i)) \<Longrightarrow>
      \<forall>i < n. 0 < i \<longrightarrow> keys_ordered icmp (level_keys c vs i) \<Longrightarrow> no_overlaps icmp b vs1 n"
    and r: "\<not> no_overlaps icmp b vs1 n \<Longrightarrow> ?run = Inl AssertFailed"
    "no_overlaps icmp b vs1 n \<Longrightarrow> \<exists>st e' vs' w' new. ?run = Inr (st, e', vs', w') \<and>
      saved_keys icmp n e (level_keys c vs) new \<and>
      committed ok ops n c (level_keys c vs) (vs_next_version vs) new (edit_log e (vs_log_number vs)) vs st vs'"
    by (rule LogAndApply_result [where D = D and ok = ok and name = name and dbname = dbname and w = w,
        OF assms(1-3,5,6) mp [OF log] assms(4)]) (assumption, (rule that; assumption))
  show ?thesis
  proof (cases "no_overlaps icmp b vs1 n")
    case True
    obtain st e' vs' w' new where run: "?run = Inr (st, e', vs', w')"
      and saved: "saved_keys icmp n e (level_keys c vs) new"
      and com: "committed ok ops n c (level_keys c vs) (vs_next_version vs) new (edit_log e (vs_log_number vs)) vs st vs'"
      using r(2) [OF True] by blast
    have "levels_ordered icmp n vs'" if P
      using saved_keys_ordered [OF assms(1) saved ap(1) [OF that]] ap(2) [OF that] committed_sets(5) [OF com saved cur]
      by (simp add: levels_ordered_def)
    then show ?thesis using committed_sets(1-4) [OF com saved cur] run l by blast
  qed (use r(1) no ap in blast)
qed

text \<open>All steps; \<open>P\<close> says whether the edits are known to be apart.\<close>

lemma LogAndApply_all_result:
  assumes "ikey_comparator icmp" and "commit_laws ops" and "current_ok n c vs" and "manifest_ready ok ops vs"
    and "list_all (edit_ok n) es" and "list_all fresh_numbers es"
    and "logs_in_range (vs_log_number vs) (vs_next_file_number vs) es"
    and "P \<longrightarrow> levels_ordered icmp n vs \<and> edits_apart icmp n es (file_sets_of n vs)"
  shows "\<not> P \<and> LogAndApply_all ok ops D icmp name dbname n es (vs, w) = Inl AssertFailed \<or>
    (\<exists>sts vs' w' c'. LogAndApply_all ok ops D icmp name dbname n es (vs, w) = Inr (sts, vs', w') \<and>
       length sts = length es \<and> file_sets_of n vs' = edits_done ok n (zip es sts) (file_sets_of n vs) \<and>
       current_ok n c' vs' \<and> manifest_ready ok ops vs' \<and> (P \<longrightarrow> levels_ordered icmp n vs'))"
  using assms(3-8)
proof (induction es arbitrary: c vs w)
  case Nil
  then show ?case by auto
next
  case (Cons e es)
  have e: "edit_ok n e" "fresh_numbers e" and es: "list_all (edit_ok n) es" "list_all fresh_numbers es"
    using Cons.prems(3,4) by simp_all
  have "P \<longrightarrow> levels_ordered icmp n vs \<and> edit_apart icmp n e (fl_keys (file_sets_of n vs))"
    using Cons.prems(6) by simp
  from LogAndApply_step [where D = D and ok = ok and name = name and dbname = dbname and w = w,
      OF assms(1,2) Cons.prems(1,2) e Cons.prems(5) this]
  show ?case
  proof (elim disjE exE conjE)
    fix st e' vs1 w1 c1
    assume 1: "LogAndApply ok ops D icmp name dbname n e (vs, w) = Inr (st, e', vs1, w1)"
      and f: "file_sets_of n vs1 = (if ok st then edit_sets n e (file_sets_of n vs) else file_sets_of n vs)"
      and ok: "current_ok n c1 vs1" "manifest_ready ok ops vs1"
      "logs_in_range (vs_log_number vs1) (vs_next_file_number vs1) es"
      and ord: "P \<longrightarrow> levels_ordered icmp n vs1"
    have "P \<longrightarrow> levels_ordered icmp n vs1 \<and> edits_apart icmp n es (file_sets_of n vs1)"
      using Cons.prems(6) ord by (simp add: f)
    from Cons.IH [OF ok(1,2) es ok(3) this, of w1] show ?thesis
    proof (elim disjE exE conjE)
      fix sts vs2 w2 c2
      assume "LogAndApply_all ok ops D icmp name dbname n es (vs1, w1) = Inr (sts, vs2, w2)"
        and "length sts = length es"
        and "file_sets_of n vs2 = edits_done ok n (zip es sts) (file_sets_of n vs1)"
        and "current_ok n c2 vs2" and "manifest_ready ok ops vs2" and "P \<longrightarrow> levels_ordered icmp n vs2"
      then show ?thesis
        using 1 f by (intro disjI2 exI [of _ "st # sts"] exI [of _ vs2] exI [of _ w2] exI [of _ c2]) simp
    qed (simp add: 1)
  qed simp
qed

section \<open>Properties\<close>

text \<open>C3: any sequence of edits refines the abstract state. Run on a well kept version set with the
  MANIFEST in order, on edits whose levels exist, whose file numbers are distinct and whose log
  numbers were handed out and do not go back, \<open>LogAndApply\<close> after \<open>LogAndApply\<close> either stops at the
  overlap assert of the builder, or returns one status for each edit; the files of the current
  version by level, with their numbers and key ranges, and the log number are then those of the
  edits whose status counts as ok, applied in order to what there was, whichever writes failed,
  and the version set is again well kept with the MANIFEST in order.\<close>

theorem LogAndApply_history:
  assumes "ikey_comparator icmp" and "commit_laws ops" and "current_ok n c vs" and "manifest_ready ok ops vs"
    and "list_all (edit_ok n) es" and "list_all fresh_numbers es"
    and "logs_in_range (vs_log_number vs) (vs_next_file_number vs) es"
  shows "LogAndApply_all ok ops D icmp name dbname n es (vs, w) = Inl AssertFailed \<or>
    (\<exists>sts vs' w' c'. LogAndApply_all ok ops D icmp name dbname n es (vs, w) = Inr (sts, vs', w') \<and>
       length sts = length es \<and> file_sets_of n vs' = edits_done ok n (zip es sts) (file_sets_of n vs) \<and>
       current_ok n c' vs' \<and> manifest_ready ok ops vs')"
  using LogAndApply_all_result [where P = False and D = D and name = name and dbname = dbname and w = w,
      OF assms] by blast

text \<open>C13: edits that keep the files of every level above 0 apart are never stopped. When the levels
  above 0 are in order and each edit adds, whichever edits before it were committed, only files
  with sound ranges, new numbers on their level and no overlap with each other and what stays, then
  no overlap assert of the builder fails: \<open>LogAndApply\<close> returns for every edit, whatever is
  written or fails to be written, and the levels above 0 are in order again.\<close>

theorem LogAndApply_never_overlaps:
  assumes "ikey_comparator icmp" and "commit_laws ops" and "current_ok n c vs" and "manifest_ready ok ops vs"
    and "list_all (edit_ok n) es" and "list_all fresh_numbers es"
    and "logs_in_range (vs_log_number vs) (vs_next_file_number vs) es"
    and "levels_ordered icmp n vs" and "edits_apart icmp n es (file_sets_of n vs)"
  shows "\<exists>sts vs' w'. LogAndApply_all ok ops D icmp name dbname n es (vs, w) = Inr (sts, vs', w') \<and>
    length sts = length es \<and> levels_ordered icmp n vs' \<and>
    file_sets_of n vs' = edits_done ok n (zip es sts) (file_sets_of n vs)"
proof -
  have "True \<longrightarrow> levels_ordered icmp n vs \<and> edits_apart icmp n es (file_sets_of n vs)" using assms(8,9) by simp
  from LogAndApply_all_result [where D = D and name = name and dbname = dbname and w = w, OF assms(1-7) this]
  show ?thesis by blast
qed

text \<open>Two edits, on the version set with the MANIFEST open.\<close>

definition ex_log_edit :: version_edit where
  "ex_log_edit = SetLogNumber 4 (RemoveFile 1 5 VersionEdit)"

lemma ex_history_runs:
  "case LogAndApply_all Status_is_default ex_ops ex_doubles ikey_bytes_compare ''cmp'' ''db'' 2
      [ex_edit, ex_log_edit] (ex_open, []) of
     Inl _ \<Rightarrow> False | Inr (sts, _) \<Rightarrow> sts = [Status_default, Status_default]"
  by code_simp

lemma ex_history_ok:
  "manifest_ready Status_is_default ex_ops ex_open"
  "list_all (edit_ok 2) [ex_edit, ex_log_edit]" "list_all fresh_numbers [ex_edit, ex_log_edit]"
  "logs_in_range (vs_log_number ex_open) (vs_next_file_number ex_open) [ex_edit, ex_log_edit]"
  by (simp add: manifest_ready_def ex_open_def, code_simp+)

lemma ex_open_keys:
  "level_keys 1 ex_open 0 = []" "level_keys 1 ex_open 1 = [(5, ''b'', ''c'')]"
  by (simp_all add: level_files_def keys_def file_key_def ex_open_def ex_linked_def ex_vset_def ex_file_def)

lemma ex_open_sets: "fl_keys (file_sets_of 2 ex_open) = (\<lambda>i. if i = 1 then {(5, ''b'', ''c'')} else {})"
  using ex_open_keys by (auto simp: file_sets_of_def fun_eq_iff less_2_cases_iff ex_open_def ex_linked_def ex_vset_def)

lemma ex_new_keys:
  "new_keys i (ve_new_files ex_edit) =
     (if i = 0 then {(8, ''a'', ''f'')} else if i = 1 then {(7, ''d'', ''e'')} else {})"
  "new_keys i (ve_new_files ex_log_edit) = {}"
  by (auto simp: new_keys_def file_key_def ex_log_edit_def ex_edit_def
      AddFile_def RemoveFile_def SetLogNumber_def VersionEdit_def VersionEdit_Clear_def FileMetaData_def)

lemma ex_deleted:
  "ve_deleted_files ex_edit = []" "ve_deleted_files ex_log_edit = [(1, 5)]"
  by (simp_all add: ex_log_edit_def ex_edit_def
      AddFile_def RemoveFile_def SetLogNumber_def VersionEdit_def VersionEdit_Clear_def)

lemma ex_edit_keys:
  "edit_keys i ex_edit K = K \<union> (if i = 0 then {(8, ''a'', ''f'')} else if i = 1 then {(7, ''d'', ''e'')} else {})"
  "edit_keys i ex_log_edit K = K - (if i = 1 then {k. fst k = 5} else {})"
  by (auto simp: edit_keys_def new_numbers_keys ex_new_keys ex_deleted)

theorem LogAndApply_history_witness:
  "\<exists>vs' w'. LogAndApply_all Status_is_default ex_ops ex_doubles ikey_bytes_compare ''cmp'' ''db'' 2
      [ex_edit, ex_log_edit] (ex_open, []) =
      Inr ([Status_default, Status_default], vs', w') \<and>
    fl_keys (file_sets_of 2 vs') 0 = {(8, ''a'', ''f'')} \<and>
    fl_keys (file_sets_of 2 vs') 1 = {(7, ''d'', ''e'')} \<and> fl_log (file_sets_of 2 vs') = 4"
proof -
  let ?es = "[ex_edit, ex_log_edit]"
  let ?run = "LogAndApply_all Status_is_default ex_ops ex_doubles ikey_bytes_compare ''cmp'' ''db'' 2
      ?es (ex_open, [])"
  obtain vs' w' where r: "?run = Inr ([Status_default, Status_default], vs', w')"
    using ex_history_runs by (auto split: sum.splits)
  have "file_sets_of 2 vs' = edits_done Status_is_default 2 (zip ?es [Status_default, Status_default])
      (file_sets_of 2 ex_open)"
    using LogAndApply_history [where D = ex_doubles and ok = Status_is_default and w = "[]"
      and name = "''cmp''" and dbname = "''db''",
      OF bytes_ikey.ikey_comparator_axioms ex_commit_laws ex_current_ok ex_history_ok] unfolding r by auto
  then have f: "file_sets_of 2 vs' = edit_sets 2 ex_log_edit
      (edit_sets 2 ex_edit (file_sets_of 2 ex_open))"
    by (simp add: Status_is_default_def)
  have "fl_log (file_sets_of 2 vs') = 4"
    unfolding f by (simp add: edit_sets_def ex_log_edit_def edit_log_def SetLogNumber_def)
  then show ?thesis
    by (intro exI [of _ vs'] exI [of _ w'] conjI r) (simp_all add: f edit_sets_def ex_edit_keys ex_open_sets insert_Diff_if)
qed

text \<open>The same edits: \<open>''d''\<close> to \<open>''e''\<close> is apart from \<open>''b''\<close> to \<open>''c''\<close>, and level 0 is free.\<close>

theorem LogAndApply_never_overlaps_witness:
  "\<exists>sts vs' w'. LogAndApply_all Status_is_default ex_ops ex_doubles ikey_bytes_compare ''cmp'' ''db'' 2
      [ex_edit, ex_log_edit] (ex_open, []) = Inr (sts, vs', w') \<and> length sts = 2 \<and>
    levels_ordered ikey_bytes_compare 2 vs'"
proof -
  have c: "vs_current ex_open = Some 1" by (simp add: ex_open_def ex_linked_def ex_vset_def)
  have key: "key_before ikey_bytes_compare (5, ''b'', ''c'') (7, ''d'', ''e'')"
    "key_range ikey_bytes_compare (5, ''b'', ''c'')" "key_range ikey_bytes_compare (7, ''d'', ''e'')"
    by code_simp+
  have "levels_ordered ikey_bytes_compare 2 ex_open"
    using key by (auto simp: levels_ordered_def c less_2_cases_iff ex_open_keys ex_open_keys [unfolded One_nat_def] keys_ordered_def)
  moreover have "edits_apart ikey_bytes_compare 2 [ex_edit, ex_log_edit] (file_sets_of 2 ex_open)"
    using key by (auto simp: edit_apart_def less_2_cases_iff ex_open_sets ex_edit_keys edit_sets_def
        keys_apart_def new_numbers_keys ex_new_keys)
  ultimately show ?thesis
    using LogAndApply_never_overlaps [where D = ex_doubles and ok = Status_is_default and w = "[]"
      and name = "''cmp''" and dbname = "''db''",
      OF bytes_ikey.ikey_comparator_axioms ex_commit_laws ex_current_ok ex_history_ok] by fastforce
qed

end
