(* ===== verification/VersionGet.thy ===== *)
theory VersionGet
  imports VersionStore
begin

text \<open>
  \<open>Version::Get\<close> of \<open>db/version_set.cc\<close>: a point lookup over the files of a version.
  \<open>ForEachOverlapping\<close> (declared only) is an argument of higher order, like in the code: it
  is given \<open>Match\<close> and its state. \<open>table_get\<close> is \<open>TableCache::Get\<close> with the callback
  \<open>SaveValue\<close>, which is not in the repository: it returns a status and the saver's new state
  and value. \<open>'w\<close> is what these calls change of the world. Line 45 reads \<open>last_file_read\<close>
  through \<open>stats\<close>, which has no such member; it is read as the member of \<open>State\<close>.
\<close>

section \<open>State\<close>

datatype saver_state = Saver_kNotFound | Saver_kFound | Saver_kDeleted | Saver_kCorrupt

record saver =
  sv_state :: saver_state
  sv_user_key :: slice
  sv_value :: string

record get_stats =
  gt_seek_file :: "nat option"
  gt_seek_file_level :: int

record 'w get_state =
  st_saver :: saver
  st_stats :: get_stats
  st_ikey :: slice
  st_last_file_read :: "nat option"
  st_last_file_read_level :: int
  st_s :: status
  st_found :: bool
  st_world :: 'w

section \<open>Get\<close>

type_synonym 'w table_get = "u64 \<Rightarrow> u64 \<Rightarrow> slice \<Rightarrow> saver \<Rightarrow> 'w \<Rightarrow> (status \<times> saver \<times> 'w) outcome"

definition Match_charge :: "'w get_state \<Rightarrow> 'w get_state" where
  "Match_charge st =
     (if gt_seek_file (st_stats st) = None \<and> st_last_file_read st \<noteq> None
      then st\<lparr>st_stats := \<lparr>gt_seek_file = st_last_file_read st,
                           gt_seek_file_level = st_last_file_read_level st\<rparr>\<rparr>
      else st)"

definition Match ::
  "(status \<Rightarrow> bool) \<Rightarrow> 'w table_get \<Rightarrow> fstore \<Rightarrow> int \<Rightarrow> nat \<Rightarrow> 'w get_state
   \<Rightarrow> (bool \<times> 'w get_state) outcome" where
  "Match ok table_get fs level f st =
     (let st = (Match_charge st)\<lparr>st_last_file_read := Some f, st_last_file_read_level := level\<rparr>
      in obind (deref fs f) (\<lambda>meta.
        obind (table_get (fm_number meta) (fm_file_size meta) (st_ikey st) (st_saver st)
                 (st_world st)) (\<lambda>(s, saver, w).
        let st = st\<lparr>st_s := s, st_saver := saver, st_world := w\<rparr>
        in Inr (if \<not> ok s then (False, st\<lparr>st_found := True\<rparr>)
          else (case sv_state saver of
              Saver_kNotFound \<Rightarrow> (True, st)
            | Saver_kFound \<Rightarrow> (False, st\<lparr>st_found := True\<rparr>)
            | Saver_kDeleted \<Rightarrow> (False, st)
            | Saver_kCorrupt \<Rightarrow>
                (False, st\<lparr>st_s := Status_Corruption ''corrupted key for '' (sv_user_key saver),
                           st_found := True\<rparr>))))))"

type_synonym 's for_each = "slice \<Rightarrow> slice \<Rightarrow> (int \<Rightarrow> nat \<Rightarrow> 's \<Rightarrow> (bool \<times> 's) outcome) \<Rightarrow> 's \<Rightarrow> 's outcome"

text \<open>
  \<open>status0\<close> is what the default constructor of \<open>Status\<close> leaves in \<open>state.s\<close>. The result is
  the status returned, the value written through \<open>value\<close> and \<open>*stats\<close>.
\<close>

definition Version_Get ::
  "(status \<Rightarrow> bool) \<Rightarrow> 'w table_get \<Rightarrow> 'w get_state for_each \<Rightarrow> fstore \<Rightarrow> slice \<Rightarrow> slice \<Rightarrow> string \<Rightarrow> 'w
   \<Rightarrow> (status \<times> string \<times> get_stats \<times> 'w) outcome" where
  "Version_Get ok table_get ForEachOverlapping fs user_key internal_key value w =
     (let st = \<lparr>st_saver = \<lparr>sv_state = Saver_kNotFound, sv_user_key = user_key, sv_value = value\<rparr>,
                st_stats = \<lparr>gt_seek_file = None, gt_seek_file_level = -1\<rparr>,
                st_ikey = internal_key, st_last_file_read = None, st_last_file_read_level = -1,
                st_s = Status_default, st_found = False, st_world = w\<rparr>
      in obind (ForEachOverlapping user_key internal_key (Match ok table_get fs) st) (\<lambda>st.
           Inr (if st_found st then st_s st else Status_NotFound '''' '''',
                sv_value (st_saver st), st_stats st, st_world st)))"

section \<open>The walk over the files\<close>

text \<open>
  What \<open>Get\<close> relies on: \<open>ForEachOverlapping\<close> calls its function on the files whose range
  holds the key, in some order, until the function returns false.
\<close>

fun visit :: "(int \<Rightarrow> nat \<Rightarrow> 's \<Rightarrow> (bool \<times> 's) outcome) \<Rightarrow> (int \<times> nat) list \<Rightarrow> 's \<Rightarrow> 's outcome" where
  "visit func [] s = Inr s"
| "visit func ((level, f) # files) s =
     obind (func level f s) (\<lambda>(continue, s). if continue then visit func files s else Inr s)"

definition visits :: "'s for_each \<Rightarrow> slice \<Rightarrow> slice \<Rightarrow> (int \<times> nat) list \<Rightarrow> bool" where
  "visits ForEachOverlapping user_key internal_key files \<longleftrightarrow>
     (\<forall>func s. ForEachOverlapping user_key internal_key func s = visit func files s)"

text \<open>
  The reference: what one table answers when it is asked first, and the answer of the first
  table that is decisive.
\<close>

datatype answer = Absent | Answer status string

text \<open>The answer of a table, as a function of the file alone.\<close>

definition answer_of :: "(status \<Rightarrow> bool) \<Rightarrow> slice \<Rightarrow> string \<Rightarrow> status \<times> saver \<Rightarrow> answer" where
  "answer_of ok user_key value r =
     (case r of (s, sv) \<Rightarrow>
        if \<not> ok s then Answer s (sv_value sv)
        else (case sv_state sv of
            Saver_kNotFound \<Rightarrow> Absent
          | Saver_kFound \<Rightarrow> Answer s (sv_value sv)
          | Saver_kDeleted \<Rightarrow> Answer (Status_NotFound '''' '''') (sv_value sv)
          | Saver_kCorrupt \<Rightarrow> Answer (Status_Corruption ''corrupted key for '' user_key) (sv_value sv)))"

fun first_answer :: "('f \<Rightarrow> answer) \<Rightarrow> string \<Rightarrow> 'f list \<Rightarrow> status \<times> string" where
  "first_answer ans value [] = (Status_NotFound '''' '''', value)"
| "first_answer ans value (f # fs) =
     (case ans f of Absent \<Rightarrow> first_answer ans value fs | Answer s v \<Rightarrow> (s, v))"

text \<open>The files read: up to the first decisive one.\<close>

fun probed :: "('f \<Rightarrow> answer) \<Rightarrow> 'f list \<Rightarrow> 'f list" where
  "probed ans [] = []"
| "probed ans (f # fs) = f # (case ans f of Absent \<Rightarrow> probed ans fs | Answer s v \<Rightarrow> [])"

text \<open>
  Table lookups that keep an invariant \<open>kept\<close> of the world and find \<open>r n\<close> in file \<open>n\<close>: an answer
  that keeps the user key, and writes the value only when it finds the key. When \<open>fails\<close> holds,
  a lookup may also report an error, and leaves the saver as it was.
\<close>

definition reads_table ::
  "(status \<Rightarrow> bool) \<Rightarrow> bool \<Rightarrow> ('w \<Rightarrow> bool) \<Rightarrow> 'w table_get \<Rightarrow> slice \<Rightarrow> slice \<Rightarrow> string
   \<Rightarrow> (u64 \<Rightarrow> status \<times> saver) \<Rightarrow> bool" where
  "reads_table ok fails kept table_get user_key ikey value r \<longleftrightarrow>
     (\<forall>n. sv_user_key (snd (r n)) = user_key \<and>
        (sv_state (snd (r n)) = Saver_kNotFound \<longrightarrow> sv_value (snd (r n)) = value)) \<and>
     (\<forall>n sz w. kept w \<longrightarrow> (\<exists>s sv w'.
        table_get n sz ikey
          \<lparr>sv_state = Saver_kNotFound, sv_user_key = user_key, sv_value = value\<rparr> w = Inr (s, sv, w') \<and>
        kept w' \<and>
        ((s, sv) = r n \<or>
         fails \<and> \<not> ok s \<and> sv = \<lparr>sv_state = Saver_kNotFound, sv_user_key = user_key, sv_value = value\<rparr>)))"

text \<open>The answers the files gave: each its own, or an error.\<close>

definition answers_with :: "(status \<Rightarrow> bool) \<Rightarrow> bool \<Rightarrow> string \<Rightarrow> answer \<Rightarrow> answer \<Rightarrow> bool" where
  "answers_with ok fails value a b \<longleftrightarrow> b = a \<or> fails \<and> (\<exists>s. \<not> ok s \<and> b = Answer s value)"

definition gave ::
  "(status \<Rightarrow> bool) \<Rightarrow> bool \<Rightarrow> string \<Rightarrow> ('f \<Rightarrow> answer) \<Rightarrow> ('f \<times> answer) list \<Rightarrow> bool" where
  "gave ok fails value ans got \<longleftrightarrow> (\<forall>(f, a) \<in> set got. answers_with ok fails value (ans f) a)"

lemma gave_exact:
  "gave ok False value ans got \<Longrightarrow>
   first_answer snd value got = first_answer ans value (map fst got) \<and>
   map fst (probed snd got) = probed ans (map fst got)"
  by (induction got) (auto simp: gave_def answers_with_def split: answer.splits)

section \<open>Match loop\<close>

definition charge :: "get_stats \<Rightarrow> (int \<times> nat) list \<Rightarrow> get_stats" where
  "charge stats ps =
     (case ps of p # q # _ \<Rightarrow> \<lparr>gt_seek_file = Some (snd p), gt_seek_file_level = fst p\<rparr> | _ \<Rightarrow> stats)"

definition table_answer ::
  "(status \<Rightarrow> bool) \<Rightarrow> slice \<Rightarrow> string \<Rightarrow> (u64 \<Rightarrow> status \<times> saver) \<Rightarrow> fstore \<Rightarrow> int \<times> nat \<Rightarrow> answer" where
  "table_answer ok user_key value r fs p =
     answer_of ok user_key value (r (fm_number (fm fs (snd p))))"

definition last_read :: "'w get_state \<Rightarrow> (int \<times> nat) list" where
  "last_read st = (case st_last_file_read st of None \<Rightarrow> [] | Some f \<Rightarrow> [(st_last_file_read_level st, f)])"

text \<open>The state \<open>Get\<close> holds before a file is read.\<close>

definition searching :: "slice \<Rightarrow> slice \<Rightarrow> string \<Rightarrow> 'w get_state \<Rightarrow> bool" where
  "searching user_key ikey value st \<longleftrightarrow>
     st_saver st = \<lparr>sv_state = Saver_kNotFound, sv_user_key = user_key, sv_value = value\<rparr> \<and>
     st_ikey st = ikey \<and> \<not> st_found st"

definition result_of :: "'w get_state \<Rightarrow> status \<times> string" where
  "result_of st = (if st_found st then st_s st else Status_NotFound '''' '''', sv_value (st_saver st))"

definition charged :: "'w get_state \<Rightarrow> (int \<times> nat) list \<Rightarrow> get_stats" where
  "charged st ps = (if gt_seek_file (st_stats st) = None then charge (st_stats st) (last_read st @ ps)
     else st_stats st)"

lemma Match_charge_stats:
  "st_stats (Match_charge st) = charged st [p]"
  by (auto simp: Match_charge_def charged_def charge_def last_read_def split: option.splits)

lemma Match_charge_keeps [simp]:
  "st_saver (Match_charge st) = st_saver st" "st_ikey (Match_charge st) = st_ikey st"
  "st_found (Match_charge st) = st_found st" "st_world (Match_charge st) = st_world st"
  by (simp_all add: Match_charge_def)

lemma Match_step:
  assumes r: "reads_table ok fails kept table_get user_key ikey value r" and live: "live fs f"
    and st: "searching user_key ikey value st" and kept: "kept (st_world st)"
  shows "\<exists>a continue st'. Match ok table_get fs l f st = Inr (continue, st') \<and>
    kept (st_world st') \<and> last_read st' = [(l, f)] \<and> st_stats st' = charged st [(l, f)] \<and>
    answers_with ok fails value (table_answer ok user_key value r fs (l, f)) a \<and>
    (case a of
       Absent \<Rightarrow> continue \<and> searching user_key ikey value st'
     | Answer s v \<Rightarrow> \<not> continue \<and> result_of st' = (s, v))"
proof -
  let ?n = "fm_number (fm fs f)"
  define sv0 where "sv0 = \<lparr>sv_state = Saver_kNotFound, sv_user_key = user_key, sv_value = value\<rparr>"
  obtain s sv w where get: "table_get ?n (fm_file_size (fm fs f)) ikey sv0 (st_world st) = Inr (s, sv, w)"
    and w: "kept w" and alt: "(s, sv) = r ?n \<or> fails \<and> \<not> ok s \<and> sv = sv0"
    using r kept unfolding reads_table_def sv0_def by blast
  have keep: "sv_user_key (snd (r ?n)) = user_key"
    "sv_state (snd (r ?n)) = Saver_kNotFound \<Longrightarrow> sv_value (snd (r ?n)) = value"
    using r by (simp_all add: reads_table_def)
  note step = Match_def Let_def searching_def result_of_def last_read_def
  have sv: "st_saver st = sv0" using st by (simp add: searching_def sv0_def)
  show ?thesis
  proof (cases "(s, sv) = r ?n")
    case True
    then have r': "r ?n = (s, sv)" by simp
    have uk: "sv_user_key sv = user_key" and v: "sv_state sv = Saver_kNotFound \<Longrightarrow> sv = sv0"
      using keep by (simp_all add: r' sv0_def saver.equality)
    show ?thesis
      using live st get w uk v sv Match_charge_stats [of st "(l, f)"]
      by (intro exI [of _ "table_answer ok user_key value r fs (l, f)"], cases "ok s"; cases "sv_state sv")
        (simp_all add: step table_answer_def answer_of_def r' answers_with_def ex_bool_eq sv0_def)
  next
    case False
    then have f: "fails" "\<not> ok s" "sv = sv0" using alt by simp_all
    show ?thesis
      using live st get w f sv Match_charge_stats [of st "(l, f)"]
      by (intro exI [of _ "Answer s value"])
        (simp add: step answers_with_def ex_bool_eq sv0_def)
  qed
qed

text \<open>The walk: the answers the files gave, and the state it ends in.\<close>

lemma visit_Match:
  assumes r: "reads_table ok fails kept table_get user_key ikey value r"
    and "\<forall>p \<in> set files. live fs (snd p)" and "searching user_key ikey value st"
    and "kept (st_world st)"
  shows "\<exists>st' got. visit (Match ok table_get fs) files st = Inr st' \<and> kept (st_world st') \<and>
    map fst got = files \<and> gave ok fails value (table_answer ok user_key value r fs) got \<and>
    result_of st' = first_answer snd value got \<and>
    st_stats st' = charged st (map fst (probed snd got))"
  using assms(2-4)
proof (induction files arbitrary: st)
  case Nil
  then show ?case
    by (simp add: searching_def result_of_def charged_def charge_def last_read_def gave_def
        split: option.splits)
next
  case (Cons p files)
  obtain l f where p: "p = (l, f)" by (cases p)
  let ?ans = "table_answer ok user_key value r fs"
  have "live fs f" using Cons.prems(1) p by simp
  from Match_step [OF r this Cons.prems(2,3), of l] obtain a continue st1 where
    1: "Match ok table_get fs l f st = Inr (continue, st1)" "kept (st_world st1)"
    "last_read st1 = [(l, f)]" "st_stats st1 = charged st [(l, f)]"
    "answers_with ok fails value (?ans (l, f)) a"
    "case a of Absent \<Rightarrow> continue \<and> searching user_key ikey value st1
     | Answer s v \<Rightarrow> \<not> continue \<and> result_of st1 = (s, v)" by blast
  show ?case
  proof (cases a)
    case Absent
    then have c: "continue" "searching user_key ikey value st1" using 1(6) by simp_all
    have "\<forall>p \<in> set files. live fs (snd p)" using Cons.prems(1) by simp
    from Cons.IH [OF this c(2) 1(2)] obtain st2 got where
      2: "visit (Match ok table_get fs) files st1 = Inr st2" "kept (st_world st2)"
      "map fst got = files" "gave ok fails value ?ans got"
      "result_of st2 = first_answer snd value got" "st_stats st2 = charged st1 (map fst (probed snd got))"
      by blast
    have "charged st1 (map fst (probed snd got)) = charged st ((l, f) # map fst (probed snd got))"
      using 1(3,4) by (auto simp: charged_def charge_def last_read_def split: option.splits list.splits)
    then show ?thesis
      using 1(1,5) 2 c(1) Absent p by (intro exI [of _ st2] exI [of _ "(p, a) # got"]) (simp add: gave_def)
  next
    case (Answer s v)
    define got where "got = (p, a) # map (\<lambda>q. (q, ?ans q)) files"
    have "map fst got = p # files" "gave ok fails value ?ans got"
      using 1(5) by (auto simp: got_def gave_def answers_with_def p comp_def)
    moreover have "first_answer snd value got = (s, v)" "map fst (probed snd got) = [p]"
      by (simp_all add: got_def Answer)
    ultimately show ?thesis using 1(1,2,4,6) p Answer
      by (intro exI [of _ st1] exI [of _ got]) simp
  qed
qed

lemma Version_Get_result:
  assumes "reads_table ok fails kept table_get user_key internal_key value r"
    and "visits ForEachOverlapping user_key internal_key files"
    and "\<forall>p \<in> set files. live fs (snd p)" and "kept w"
  shows "\<exists>got w'. map fst got = files \<and> gave ok fails value (table_answer ok user_key value r fs) got \<and>
    kept w' \<and>
    Version_Get ok table_get ForEachOverlapping fs user_key internal_key value w =
    Inr (fst (first_answer snd value got), snd (first_answer snd value got),
         (case map fst (probed snd got) of
            p # q # _ \<Rightarrow> \<lparr>gt_seek_file = Some (snd p), gt_seek_file_level = fst p\<rparr>
          | _ \<Rightarrow> \<lparr>gt_seek_file = None, gt_seek_file_level = -1\<rparr>), w')"
proof -
  let ?st = "\<lparr>st_saver = \<lparr>sv_state = Saver_kNotFound, sv_user_key = user_key, sv_value = value\<rparr>,
                st_stats = \<lparr>gt_seek_file = None, gt_seek_file_level = -1\<rparr>,
                st_ikey = internal_key, st_last_file_read = None, st_last_file_read_level = -1,
                st_s = Status_default, st_found = False, st_world = w\<rparr>"
  have "searching user_key internal_key value ?st" by (simp add: searching_def)
  from visit_Match [OF assms(1,3) this] assms(4) obtain st' got where
    "visit (Match ok table_get fs) files ?st = Inr st'" "kept (st_world st')" "map fst got = files"
    "gave ok fails value (table_answer ok user_key value r fs) got"
    "result_of st' = first_answer snd value got"
    "st_stats st' = charge \<lparr>gt_seek_file = None, gt_seek_file_level = -1\<rparr> (map fst (probed snd got))"
    by (auto simp: charged_def last_read_def)
  moreover obtain s v where "first_answer snd value got = (s, v)" by (cases "first_answer snd value got")
  ultimately show ?thesis
    using assms(2) by (auto simp: Version_Get_def visits_def result_of_def charge_def)
qed

section \<open>Properties\<close>

text \<open>C19: when \<open>ForEachOverlapping\<close> walks the files that can hold the key and a table's answer
  depends on the file only, \<open>Version::Get\<close> returns the answer of the first table that has
  one: the error of a failed read, the value found, a not-found status for a deletion, a
  corruption status for a corrupt key; a not-found status when none has. The file charged with
  a seek is the first one read, exactly when a second one had to be read.\<close>

theorem Version_Get_first_decisive:
  assumes "reads_table ok False (\<lambda>x. x = w) table_get user_key internal_key value r"
    and "visits ForEachOverlapping user_key internal_key files"
    and "\<forall>p \<in> set files. live fs (snd p)"
  shows "Version_Get ok table_get ForEachOverlapping fs user_key internal_key value w =
    Inr (fst (first_answer (table_answer ok user_key value r fs) value files),
         snd (first_answer (table_answer ok user_key value r fs) value files),
         (case probed (table_answer ok user_key value r fs) files of
            p # q # _ \<Rightarrow> \<lparr>gt_seek_file = Some (snd p), gt_seek_file_level = fst p\<rparr>
          | _ \<Rightarrow> \<lparr>gt_seek_file = None, gt_seek_file_level = -1\<rparr>), w)"
proof -
  from Version_Get_result [OF assms, of w] obtain got where
    "map fst got = files" "gave ok False value (table_answer ok user_key value r fs) got"
    "Version_Get ok table_get ForEachOverlapping fs user_key internal_key value w =
    Inr (fst (first_answer snd value got), snd (first_answer snd value got),
         (case map fst (probed snd got) of
            p # q # _ \<Rightarrow> \<lparr>gt_seek_file = Some (snd p), gt_seek_file_level = fst p\<rparr>
          | _ \<Rightarrow> \<lparr>gt_seek_file = None, gt_seek_file_level = -1\<rparr>), w)"
    by blast
  with gave_exact [OF this(2)] show ?thesis by simp
qed

text \<open>Two files of level 0: the newer one does not have the key, the older one does.\<close>

definition ex_answers :: "u64 \<Rightarrow> status \<times> saver" where
  "ex_answers n = (Status_default,
     if n = 4 then \<lparr>sv_state = Saver_kFound, sv_user_key = ''k'', sv_value = ''v''\<rparr>
     else \<lparr>sv_state = Saver_kNotFound, sv_user_key = ''k'', sv_value = ''''\<rparr>)"

definition ex_table_get :: "unit table_get" where
  "ex_table_get n sz ikey sv w = Inr (fst (ex_answers n), snd (ex_answers n), w)"

definition ex_files :: fstore where
  "ex_files = \<lparr>fs_at = (\<lambda>p. if p = 0 then Some ((FileMetaData 0)\<lparr>fm_number := 7\<rparr>)
     else if p = 1 then Some ((FileMetaData 0)\<lparr>fm_number := 4\<rparr>) else None), fs_next = 2\<rparr>"

theorem Version_Get_first_decisive_witness:
  "Version_Get Status_ok ex_table_get (\<lambda>uk ik func. visit func [(0, 0), (0, 1)]) ex_files
     ''k'' ''k1'' '''' () =
   Inr (Status_default, ''v'', \<lparr>gt_seek_file = Some 0, gt_seek_file_level = 0\<rparr>, ())"
proof -
  have "reads_table Status_ok False (\<lambda>x. x = ()) ex_table_get ''k'' ''k1'' '''' ex_answers"
    by (simp add: reads_table_def ex_table_get_def ex_answers_def)
  moreover have "visits (\<lambda>uk ik func. visit func [(0, 0), (0, 1)]) ''k'' ''k1'' [(0, 0), (0, 1)]"
    by (simp add: visits_def)
  moreover have "\<forall>p \<in> set [(0 :: int, 0 :: nat), (0, 1)]. live ex_files (snd p)"
    by (simp add: live_def ex_files_def)
  ultimately have "Version_Get Status_ok ex_table_get (\<lambda>uk ik func. visit func [(0, 0), (0, 1)]) ex_files
     ''k'' ''k1'' '''' () = Inr
      (fst (first_answer (table_answer Status_ok ''k'' '''' ex_answers ex_files) '''' [(0, 0), (0, 1)]),
       snd (first_answer (table_answer Status_ok ''k'' '''' ex_answers ex_files) '''' [(0, 0), (0, 1)]),
       (case probed (table_answer Status_ok ''k'' '''' ex_answers ex_files) [(0, 0), (0, 1)] of
            p # q # _ \<Rightarrow> \<lparr>gt_seek_file = Some (snd p), gt_seek_file_level = fst p\<rparr>
          | _ \<Rightarrow> \<lparr>gt_seek_file = None, gt_seek_file_level = -1\<rparr>), ())"
    by (rule Version_Get_first_decisive)
  then show ?thesis
    by (simp add: table_answer_def answer_of_def ex_answers_def ex_files_def FileMetaData_def Status_ok_def)
qed

end
