(* ===== verification/BuildTable.thy ===== *)
theory BuildTable
  imports VersionStore
begin

text \<open>
  \<open>BuildTable\<close> of \<open>db/builder.cc\<close>: the entries of an iterator are written to a table file.
  The iterator, the environment, the file, \<open>TableBuilder::Add\<close>, \<open>Finish\<close>,
  \<open>TableCache::NewIterator\<close> and \<open>TableFileName\<close> are not in the repository: they are the
  fields of \<open>bt_ops\<close>, over an iterator \<open>'i\<close> and a world \<open>'w\<close>. Line 48 names the member
  \<open>meta->file_number\<close>, read as \<open>meta->number\<close>, and line 63 \<open>env_\<close>, read as \<open>env\<close>.
\<close>

record ('i, 'w) bt_ops =
  bt_SeekToFirst :: "'i \<Rightarrow> 'i"
  bt_Valid :: "'i \<Rightarrow> bool"
  bt_Next :: "'i \<Rightarrow> 'i"
  bt_key :: "'i \<Rightarrow> slice"
  bt_value :: "'i \<Rightarrow> slice"
  bt_iter_status :: "'i \<Rightarrow> status"
  bt_TableFileName :: "string \<Rightarrow> u64 \<Rightarrow> string"
  bt_NewWritableFile :: "string \<Rightarrow> 'w \<Rightarrow> status \<times> nat option \<times> 'w"
  bt_NewTableBuilder :: "nat option \<Rightarrow> 'w \<Rightarrow> 'w"
  bt_Add :: "slice \<Rightarrow> slice \<Rightarrow> 'w \<Rightarrow> 'w"
  bt_Finish :: "'w \<Rightarrow> status \<times> 'w"
  bt_Sync :: "nat \<Rightarrow> 'w \<Rightarrow> status \<times> 'w"
  bt_Close :: "nat \<Rightarrow> 'w \<Rightarrow> status \<times> 'w"
  bt_delete_file :: "nat option \<Rightarrow> 'w \<Rightarrow> 'w"
  bt_NewIterator_status :: "u64 \<Rightarrow> u64 \<Rightarrow> 'w \<Rightarrow> status \<times> 'w"
  bt_RemoveFile :: "string \<Rightarrow> 'w \<Rightarrow> status \<times> 'w"

section \<open>The function\<close>

text \<open>Lines 29-33; the loop runs as long as the iterator is valid.\<close>

partial_function (option) BuildTable_loop ::
  "('i, 'w) bt_ops \<Rightarrow> 'i \<Rightarrow> fmeta \<Rightarrow> 'w \<Rightarrow> ('i \<times> fmeta \<times> 'w) option" where
  "BuildTable_loop ops iter meta w =
     (if bt_Valid ops iter then
        let key = bt_key ops iter;
            meta = meta\<lparr>fm_largest := snd (InternalKey_DecodeFrom key)\<rparr>;
            w = bt_Add ops key (bt_value ops iter) w
        in BuildTable_loop ops (bt_Next ops iter) meta w
      else Some (iter, meta, w))"

declare BuildTable_loop.simps [code]

text \<open>Lines 35-52: finish, sync, close, verify; \<open>file\<close> is dereferenced by \<open>Sync\<close> and \<open>Close\<close>.\<close>

definition deref_file :: "nat option \<Rightarrow> (nat \<Rightarrow> 'w \<Rightarrow> status \<times> 'w) \<Rightarrow> 'w \<Rightarrow> (status \<times> 'w) outcome" where
  "deref_file file f w = (case file of None \<Rightarrow> Inl NullDeref | Some p \<Rightarrow> Inr (f p w))"

definition BuildTable_finish ::
  "(status \<Rightarrow> bool) \<Rightarrow> ('i, 'w) bt_ops \<Rightarrow> nat option \<Rightarrow> fmeta \<Rightarrow> 'w \<Rightarrow> (status \<times> 'w) outcome" where
  "BuildTable_finish ok ops file meta w =
     (let (s, w) = bt_Finish ops w
      in obind (if ok s then deref_file file (bt_Sync ops) w else Inr (s, w)) (\<lambda>(s, w).
         obind (if ok s then deref_file file (bt_Close ops) w else Inr (s, w)) (\<lambda>(s, w).
         let w = bt_delete_file ops file w
         in Inr (if ok s then bt_NewIterator_status ops (fm_number meta) (fm_file_size meta) w
                 else (s, w)))))"

text \<open>Lines 55-65.\<close>

definition BuildTable_end ::
  "(status \<Rightarrow> bool) \<Rightarrow> ('i, 'w) bt_ops \<Rightarrow> string \<Rightarrow> 'i \<Rightarrow> fmeta \<Rightarrow> status \<times> 'w
   \<Rightarrow> status \<times> fmeta \<times> 'w" where
  "BuildTable_end ok ops fname iter meta r =
     (case r of (s, w) \<Rightarrow>
      let s = (if \<not> ok (bt_iter_status ops iter) then bt_iter_status ops iter else s);
          w = (if ok s \<and> fm_file_size meta > 0 then w else snd (bt_RemoveFile ops fname w))
      in (s, meta, w))"

definition BuildTable ::
  "(status \<Rightarrow> bool) \<Rightarrow> ('i, 'w) bt_ops \<Rightarrow> string \<Rightarrow> 'i \<Rightarrow> fmeta \<Rightarrow> 'w
   \<Rightarrow> (status \<times> fmeta \<times> 'w) run" where
  "BuildTable ok ops dbname iter meta w =
     (let meta = meta\<lparr>fm_file_size := 0\<rparr>;
          iter = bt_SeekToFirst ops iter;
          fname = bt_TableFileName ops dbname (fm_number meta)
      in if bt_Valid ops iter then
           let (s, file, w) = bt_NewWritableFile ops fname w
           in if \<not> ok s then Some (Inr (s, meta, w))
              else
                let w = bt_NewTableBuilder ops file w;
                    meta = meta\<lparr>fm_smallest := snd (InternalKey_DecodeFrom (bt_key ops iter))\<rparr>
                in (case BuildTable_loop ops iter meta w of
                      None \<Rightarrow> None
                    | Some (iter, meta, w) \<Rightarrow>
                        Some (obind (BuildTable_finish ok ops file meta w) (\<lambda>r.
                          Inr (BuildTable_end ok ops fname iter meta r))))
         else Some (Inr (BuildTable_end ok ops fname iter meta (Status_default, w))))"

section \<open>Iterators over a list of entries\<close>

text \<open>What the loop relies on: the iterator yields the entries of a list, in order.\<close>

fun yields :: "('i, 'w) bt_ops \<Rightarrow> 'i \<Rightarrow> (slice \<times> slice) list \<Rightarrow> bool" where
  "yields ops i [] \<longleftrightarrow> \<not> bt_Valid ops i"
| "yields ops i ((k, v) # es) \<longleftrightarrow>
     bt_Valid ops i \<and> bt_key ops i = k \<and> bt_value ops i = v \<and> yields ops (bt_Next ops i) es"

fun last_iter :: "('i, 'w) bt_ops \<Rightarrow> 'i \<Rightarrow> (slice \<times> slice) list \<Rightarrow> 'i" where
  "last_iter ops i [] = i"
| "last_iter ops i (e # es) = last_iter ops (bt_Next ops i) es"

lemma InternalKey_DecodeFrom_snd [simp]: "snd (InternalKey_DecodeFrom k) = k"
  by (simp add: InternalKey_DecodeFrom_def)

lemma BuildTable_loop_yields:
  "yields ops i es \<Longrightarrow> BuildTable_loop ops i meta w =
     Some (last_iter ops i es,
       (if es = [] then meta else meta\<lparr>fm_largest := fst (last es)\<rparr>),
       fold (\<lambda>(k, v). bt_Add ops k v) es w)"
proof (induction es arbitrary: i meta w)
  case Nil
  then show ?case by (simp add: BuildTable_loop.simps)
next
  case (Cons e es)
  then show ?case by (cases e) (simp add: BuildTable_loop.simps [of ops i] Let_def)
qed

lemma BuildTable_loop_size:
  assumes "BuildTable_loop ops i meta w = Some r"
  shows "fm_file_size (fst (snd r)) = fm_file_size meta \<and> fm_number (fst (snd r)) = fm_number meta"
  using assms
  by (rule BuildTable_loop.raw_induct [where P = "\<lambda>ops i meta w r.
      fm_file_size (fst (snd r)) = fm_file_size meta \<and> fm_number (fst (snd r)) = fm_number meta", rotated])
    (auto simp: Let_def split: if_splits)

lemma BuildTable_result:
  assumes "BuildTable ok ops dbname iter meta w = Some (Inr (s, meta', w'))"
  shows "fm_file_size meta' = 0 \<and> fm_number meta' = fm_number meta \<and>
    ((\<exists>w1. w' = snd (bt_RemoveFile ops (bt_TableFileName ops dbname (fm_number meta)) w1)) \<or>
     (\<exists>file. bt_NewWritableFile ops (bt_TableFileName ops dbname (fm_number meta)) w = (s, file, w') \<and> \<not> ok s))"
proof -
  let ?i = "bt_SeekToFirst ops iter" and ?fname = "bt_TableFileName ops dbname (fm_number meta)"
  have "end": "BuildTable_end ok ops ?fname i m r = (s, meta', w') \<Longrightarrow> fm_file_size m = 0 \<Longrightarrow>
      fm_number m = fm_number meta \<Longrightarrow> fm_file_size meta' = 0 \<and> fm_number meta' = fm_number meta \<and>
      (\<exists>w1. w' = snd (bt_RemoveFile ops ?fname w1))" for i m r
    by (auto simp: BuildTable_end_def Let_def split: prod.splits)
  show ?thesis
  proof (cases "bt_Valid ops ?i")
    case True
    obtain s1 fl w1 where f: "bt_NewWritableFile ops ?fname w = (s1, fl, w1)"
      by (cases "bt_NewWritableFile ops ?fname w") auto
    show ?thesis
    proof (cases "ok s1")
      case False
      then show ?thesis using assms True f by (auto simp: BuildTable_def Let_def)
    next
      case ok: True
      let ?m = "meta\<lparr>fm_file_size := 0, fm_smallest := bt_key ops ?i\<rparr>"
      obtain i2 m2 w2 r where 2: "BuildTable_loop ops ?i ?m (bt_NewTableBuilder ops fl w1) = Some (i2, m2, w2)"
        "BuildTable_end ok ops ?fname i2 m2 r = (s, meta', w')"
        using assms True f ok
        by (auto simp: BuildTable_def Let_def obind_eq_Inr split: option.splits prod.splits)
      show ?thesis using "end" [OF 2(2)] BuildTable_loop_size [OF 2(1)] by simp
    qed
  next
    case False
    then have "BuildTable_end ok ops ?fname ?i (meta\<lparr>fm_file_size := 0\<rparr>) (Status_default, w) = (s, meta', w')"
      using assms by (simp add: BuildTable_def Let_def)
    from "end" [OF this] show ?thesis by simp
  qed
qed

section \<open>Properties\<close>

text \<open>C35: \<open>BuildTable\<close> never keeps the file it builds: whatever the iterator, the environment
  and the statuses do, when it returns, \<open>meta->file_size\<close> is 0, since nothing sets it after it
  was cleared, and unless the file could not be created its last action is to remove it.\<close>

theorem BuildTable_removes_file:
  assumes "BuildTable ok ops dbname iter meta w = Some (Inr (s, meta', w'))"
  shows "fm_file_size meta' = 0 \<and> fm_number meta' = fm_number meta \<and>
    ((\<exists>w1. w' = snd (bt_RemoveFile ops (bt_TableFileName ops dbname (fm_number meta)) w1)) \<or>
     (\<exists>file. bt_NewWritableFile ops (bt_TableFileName ops dbname (fm_number meta)) w = (s, file, w') \<and> \<not> ok s))"
  using BuildTable_result [OF assms] .

text \<open>An iterator that is the list of its entries, and a world that records the calls.\<close>

definition ex_bt_ops :: "((slice \<times> slice) list, string list) bt_ops" where
  "ex_bt_ops = \<lparr>bt_SeekToFirst = (\<lambda>i. i), bt_Valid = (\<lambda>i. i \<noteq> []), bt_Next = tl,
     bt_key = (\<lambda>i. fst (hd i)), bt_value = (\<lambda>i. snd (hd i)), bt_iter_status = (\<lambda>i. Status_default),
     bt_TableFileName = (\<lambda>db n. db @ ''/table''),
     bt_NewWritableFile = (\<lambda>name w. (Status_default, Some 0, w @ [''new''])),
     bt_NewTableBuilder = (\<lambda>fl w. w), bt_Add = (\<lambda>k v w. w @ [k]),
     bt_Finish = (\<lambda>w. (Status_default, w @ [''finish''])),
     bt_Sync = (\<lambda>fl w. (Status_default, w)), bt_Close = (\<lambda>fl w. (Status_default, w)),
     bt_delete_file = (\<lambda>fl w. w),
     bt_NewIterator_status = (\<lambda>n sz w. (Status_default, w)),
     bt_RemoveFile = (\<lambda>name w. (Status_default, w @ [''remove'']))\<rparr>"

definition ex_meta :: fmeta where
  "ex_meta = (FileMetaData 0)\<lparr>fm_number := 4\<rparr>"

text \<open>C36: for a non-empty iterator that yields a list of entries, when every step succeeds,
  \<open>BuildTable\<close> returns OK, the table builder is given every entry once, in order, between the
  creation of the file and \<open>Finish\<close>, and the key range in the metadata runs from the first key
  to the last one.\<close>

theorem BuildTable_adds_entries:
  assumes "yields ops (bt_SeekToFirst ops iter) es" and "es \<noteq> []"
    and "bt_NewWritableFile ops (bt_TableFileName ops dbname (fm_number meta)) w = (s1, Some fl, w1)"
    and "bt_Finish ops (fold (\<lambda>(k, v). bt_Add ops k v) es (bt_NewTableBuilder ops (Some fl) w1)) = (s2, w2)"
    and "bt_Sync ops fl w2 = (s3, w3)" and "bt_Close ops fl w3 = (s4, w4)"
    and "bt_NewIterator_status ops (fm_number meta) 0 (bt_delete_file ops (Some fl) w4) = (s5, w5)"
    and "ok s1" and "ok s2" and "ok s3" and "ok s4"
    and "ok (bt_iter_status ops (last_iter ops (bt_SeekToFirst ops iter) es))"
  shows "\<exists>meta' w'. BuildTable ok ops dbname iter meta w = Some (Inr (s5, meta', w')) \<and>
    fm_smallest meta' = fst (hd es) \<and> fm_largest meta' = fst (last es)"
proof -
  let ?i = "bt_SeekToFirst ops iter"
  obtain k v es' where es: "es = (k, v) # es'" using assms(2) by (cases es) auto
  have i: "bt_Valid ops ?i" "bt_key ops ?i = k" using assms(1) es by simp_all
  have "BuildTable_loop ops ?i (meta\<lparr>fm_file_size := 0, fm_smallest := k\<rparr>) (bt_NewTableBuilder ops (Some fl) w1)
    = Some (last_iter ops ?i es, meta\<lparr>fm_file_size := 0, fm_smallest := k, fm_largest := fst (last es)\<rparr>,
        fold (\<lambda>(k, v). bt_Add ops k v) es (bt_NewTableBuilder ops (Some fl) w1))"
    using BuildTable_loop_yields [OF assms(1)] assms(2) by simp
  then show ?thesis
    using i assms(3-) es
    by (simp add: BuildTable_def BuildTable_finish_def BuildTable_end_def deref_file_def Let_def)
qed

theorem BuildTable_adds_entries_witness:
  "\<exists>meta' w'. BuildTable Status_ok ex_bt_ops ''db'' [(''a'', ''1''), (''b'', ''2'')] ex_meta [] =
      Some (Inr (Status_default, meta', w')) \<and>
    fm_smallest meta' = ''a'' \<and> fm_largest meta' = ''b''"
proof -
  let ?es = "[(''a'', ''1''), (''b'', ''2'')]"
  have "\<exists>meta' w'. BuildTable Status_ok ex_bt_ops ''db'' ?es ex_meta [] =
      Some (Inr (Status_default, meta', w')) \<and>
    fm_smallest meta' = fst (hd ?es) \<and> fm_largest meta' = fst (last ?es)"
    by (rule BuildTable_adds_entries [where ?s1.0 = Status_default and ?w1.0 = "[''new'']" and fl = 0
          and ?s2.0 = Status_default and ?w2.0 = "[''new'', ''a'', ''b'', ''finish'']"
          and ?s3.0 = Status_default and ?w3.0 = "[''new'', ''a'', ''b'', ''finish'']"
          and ?s4.0 = Status_default and ?w4.0 = "[''new'', ''a'', ''b'', ''finish'']"
          and ?w5.0 = "[''new'', ''a'', ''b'', ''finish'']"])
      (simp_all add: ex_bt_ops_def Status_ok_def)
  then show ?thesis by simp
qed

theorem BuildTable_removes_file_witness:
  "\<exists>meta' w'. BuildTable Status_ok ex_bt_ops ''db'' [] ex_meta [] = Some (Inr (Status_default, meta', w')) \<and>
    fm_file_size meta' = 0 \<and> fm_number meta' = 4"
proof -
  obtain meta' w' where run: "BuildTable Status_ok ex_bt_ops ''db'' [] ex_meta [] =
      Some (Inr (Status_default, meta', w'))"
    by (simp add: BuildTable_def ex_bt_ops_def Let_def BuildTable_end_def Status_ok_def)
  from BuildTable_removes_file [OF this] run show ?thesis by (auto simp: ex_meta_def)
qed

end
