(* ===== verification/MemTable.thy ===== *)
theory MemTable
  imports LdbPrelude
begin

text \<open>
  The reference counts of memtables: \<open>db/memtable.h\<close>, \<open>db/memtable.cc\<close>. \<open>Add\<close>, \<open>Get\<close> and
  \<open>ApproximateMemoryUsage\<close> are declared only; the contents of a memtable are the type \<open>'m\<close>.
  A store holds the memtables that are allocated; \<open>delete this\<close> takes one out of it.
\<close>

record 'm memtable =
  mt_refs :: int
  mt_table :: 'm

type_synonym 'm memtables = "nat \<Rightarrow> 'm memtable option"

text \<open>The constructor; \<open>new_table\<close> is the empty table.\<close>

definition MemTable :: "'m \<Rightarrow> 'm memtable" where
  "MemTable new_table = \<lparr>mt_refs = 0, mt_table = new_table\<rparr>"

definition deref_mem :: "'m memtables \<Rightarrow> nat \<Rightarrow> 'm memtable outcome" where
  "deref_mem ms a = (case ms a of None \<Rightarrow> Inl BadAddress | Some m \<Rightarrow> Inr m)"

definition MemTable_Ref :: "nat \<Rightarrow> 'm memtables \<Rightarrow> 'm memtables outcome" where
  "MemTable_Ref a ms =
     obind (deref_mem ms a) (\<lambda>m. Inr (ms(a \<mapsto> m\<lparr>mt_refs := mt_refs m + 1\<rparr>)))"

definition MemTable_Unref :: "nat \<Rightarrow> 'm memtables \<Rightarrow> 'm memtables outcome" where
  "MemTable_Unref a ms =
     obind (deref_mem ms a) (\<lambda>m.
     let m = m\<lparr>mt_refs := mt_refs m - 1\<rparr>
     in obind (cpp_assert (mt_refs m \<ge> 0)) (\<lambda>_.
        Inr (if mt_refs m \<le> 0 then ms(a := None) else ms(a \<mapsto> m))))"

text \<open>
  The contract of a counted object: a reference taken and given back leaves the store as it
  was, as long as someone else holds one.
\<close>

locale counted =
  fixes ref unref :: "nat \<Rightarrow> 's \<Rightarrow> 's outcome" and count :: "'s \<Rightarrow> nat \<Rightarrow> int option"
  assumes ref_ok: "count s a = Some n \<Longrightarrow> \<exists>s'. ref a s = Inr s' \<and> count s' = (count s)(a \<mapsto> n + 1)"
    and unref_ok: "count s a = Some n \<Longrightarrow> 0 < n \<Longrightarrow>
      \<exists>s'. unref a s = Inr s' \<and> count s' = (count s)(a := if n = 1 then None else Some (n - 1))"
begin

lemma ref_unref:
  assumes "count s a = Some n" and "0 < n"
  shows "\<exists>s'. obind (ref a s) (unref a) = Inr s' \<and> count s' = count s"
proof -
  obtain s1 where 1: "ref a s = Inr s1" "count s1 = (count s)(a \<mapsto> n + 1)"
    using ref_ok [OF assms(1)] by blast
  then obtain s2 where "unref a s1 = Inr s2"
    "count s2 = (count s1)(a := if n + 1 = 1 then None else Some (n + 1 - 1))"
    using unref_ok [of s1 a "n + 1"] assms(2) by auto
  with 1 assms show ?thesis by (auto simp: fun_upd_idem)
qed

end

definition mem_count :: "'m memtables \<Rightarrow> nat \<Rightarrow> int option" where
  "mem_count ms a = map_option mt_refs (ms a)"

lemma mem_count_update [simp]:
  "mem_count (ms(a \<mapsto> m)) = (mem_count ms)(a \<mapsto> mt_refs m)"
  "mem_count (ms(a := None)) = (mem_count ms)(a := None)"
  by (auto simp: mem_count_def fun_eq_iff)

lemma mem_count_SomeE:
  assumes "mem_count ms a = Some n"
  obtains m where "ms a = Some m" and "mt_refs m = n"
  using assms by (auto simp: mem_count_def)

interpretation mem: counted MemTable_Ref MemTable_Unref mem_count
proof
  show "\<exists>s'. MemTable_Ref a s = Inr s' \<and> mem_count s' = (mem_count s)(a \<mapsto> n + 1)"
    if "mem_count s a = Some n" for s a n
    by (rule mem_count_SomeE [OF that]) (simp add: MemTable_Ref_def deref_mem_def)
  show "\<exists>s'. MemTable_Unref a s = Inr s' \<and>
      mem_count s' = (mem_count s)(a := if n = 1 then None else Some (n - 1))"
    if "mem_count s a = Some n" "0 < n" for s a n
    by (rule mem_count_SomeE [OF that(1)])
      (use that(2) in \<open>simp add: MemTable_Unref_def deref_mem_def Let_def\<close>)
qed

end
