(* ===== verification/DbImpl.thy ===== *)
theory DbImpl
  imports VersionSet VersionGet BuildTable MemTable
begin

text \<open>
  \<open>DBImpl\<close> of \<open>db/db_impl.cc\<close>: the state a database keeps and its operations, as functions on
  that state. The mutex is held where the code holds it: \<open>Unlock\<close>, \<open>Lock\<close> and the waits on
  condition variables are functions on the whole state, since other threads run there. What
  the code calls and the repository does not define is a field of \<open>db_ops\<close>. Members the
  code uses without declaring them (\<open>manual_compaction_\<close>, \<open>has_imm_\<close>, \<open>tmp_batch_\<close>,
  \<open>stats_\<close>, \<open>env_\<close>'s queue) are members of the record or operations on the world \<open>'w\<close>.
\<close>

section \<open>State\<close>

record writer =
  wr_status :: status
  wr_batch :: "nat option"
  wr_sync :: bool
  wr_done :: bool

definition Writer :: writer where
  "Writer = \<lparr>wr_status = Status_default, wr_batch = None, wr_sync = False, wr_done = False\<rparr>"

text \<open>
  A batch is its \<open>rep_\<close>. \<open>db_writer\<close> holds the \<open>Writer\<close> objects on the stacks of the threads
  inside \<open>Write\<close>, by address; \<open>db_signalled\<close> the writers whose condition variable was signalled.
\<close>

record ('d, 'm, 'w) db =
  db_versions :: "'d vset"
  db_memtables :: "'m memtables"
  db_next_mem :: nat
  db_mem :: "nat option"
  db_imm :: "nat option"
  db_has_imm :: bool
  db_logfile :: "nat option"
  db_logfile_number :: u64
  db_log :: "nat option"
  db_writers :: "nat list"
  db_writer :: "nat \<Rightarrow> writer option"
  db_signalled :: "nat set"
  db_batches :: "nat \<Rightarrow> string option"
  db_tmp_batch :: nat
  db_pending_outputs :: "u64 set"
  db_background_compaction_scheduled :: bool
  db_bg_error :: status
  db_shutting_down :: bool
  db_manual_compaction :: bool
  db_world :: 'w

record ('d, 'm, 'i, 'w) db_ops =
  op_vs :: "('d, 'w) vs_ops"
  op_doubles :: "'d double_ops"
  op_bt :: "('i, 'w) bt_ops"
  op_icmp :: "ikey \<Rightarrow> ikey \<Rightarrow> int"
  op_comparator_name :: string
  op_dbname :: string
  op_kNumLevels :: nat
  op_ExtractUserKey :: "slice \<Rightarrow> slice"
  op_PickLevelForMemtableOutput :: "'d vset \<Rightarrow> nat \<Rightarrow> slice \<Rightarrow> slice \<Rightarrow> int"
  op_NewMemIterator :: "'m \<Rightarrow> 'i"
  op_empty_table :: 'm
  op_NowMicros :: "'w \<Rightarrow> u64 \<times> 'w"
  op_AddStats :: "int \<Rightarrow> u64 \<Rightarrow> u64 \<Rightarrow> 'w \<Rightarrow> 'w"
  op_Unlock :: "('d, 'm, 'w) db \<Rightarrow> ('d, 'm, 'w) db"
  op_Lock :: "('d, 'm, 'w) db \<Rightarrow> ('d, 'm, 'w) db"
  op_Sleep :: "('d, 'm, 'w) db \<Rightarrow> ('d, 'm, 'w) db"
  op_WaitBackground :: "('d, 'm, 'w) db \<Rightarrow> ('d, 'm, 'w) db"
  op_Schedule :: "'w \<Rightarrow> 'w"
  op_SignalAll :: "'w \<Rightarrow> 'w"
  op_NeedsCompaction :: "'d vset \<Rightarrow> bool"
  op_NumLevelFile :: "'d vset \<Rightarrow> int \<Rightarrow> int"
  op_kL0_SlowdownWritesTrigger :: int
  op_kL0_StopWritesTrigger :: int
  op_ApproximateMemoryUsage :: "'m \<Rightarrow> nat"
  op_write_buffer_size :: nat
  op_PrevLogNumber :: "'d vset \<Rightarrow> u64"
  op_ReuseFileNumber :: "u64 \<Rightarrow> 'd vset \<Rightarrow> 'd vset"
  op_delete_log :: "nat option \<Rightarrow> 'w \<Rightarrow> 'w"
  op_RecordBackgroundError :: "status \<Rightarrow> ('d, 'm, 'w) db \<Rightarrow> ('d, 'm, 'w) db"
  op_RemoveObsoleteFiles :: "('d, 'm, 'w) db \<Rightarrow> ('d, 'm, 'w) db"
  op_others :: "('d, 'm, 'w) db \<Rightarrow> ('d, 'm, 'w) db"

definition upd_world :: "('w \<Rightarrow> 'w) \<Rightarrow> ('d, 'm, 'w) db \<Rightarrow> ('d, 'm, 'w) db" where
  "upd_world f s = s\<lparr>db_world := f (db_world s)\<rparr>"

definition lift_versions ::
  "('d vset \<Rightarrow> 'd vset outcome) \<Rightarrow> ('d, 'm, 'w) db \<Rightarrow> ('d, 'm, 'w) db outcome" where
  "lift_versions f s = obind (f (db_versions s)) (\<lambda>vs. Inr (s\<lparr>db_versions := vs\<rparr>))"

definition lift_memtables ::
  "('m memtables \<Rightarrow> 'm memtables outcome) \<Rightarrow> ('d, 'm, 'w) db \<Rightarrow> ('d, 'm, 'w) db outcome" where
  "lift_memtables f s = obind (f (db_memtables s)) (\<lambda>ms. Inr (s\<lparr>db_memtables := ms\<rparr>))"

text \<open>A pointer that the code dereferences.\<close>

definition nonnull :: "'a option \<Rightarrow> 'a outcome" where
  "nonnull p = (case p of None \<Rightarrow> Inl NullDeref | Some a \<Rightarrow> Inr a)"

text \<open>
  \<open>versions_->LogAndApply(&edit, &mutex_)\<close>: other threads may change the other members while
  it has the mutex released; \<open>op_others\<close> is what they do.
\<close>

definition call_LogAndApply ::
  "(status \<Rightarrow> bool) \<Rightarrow> ('d, 'm, 'i, 'w) db_ops \<Rightarrow> version_edit \<Rightarrow> ('d, 'm, 'w) db
   \<Rightarrow> (status \<times> ('d, 'm, 'w) db) outcome" where
  "call_LogAndApply ok ops edit s =
     obind (LogAndApply ok (op_vs ops) (op_doubles ops) (op_icmp ops) (op_comparator_name ops)
              (op_dbname ops) (op_kNumLevels ops) edit (db_versions s, db_world s))
       (\<lambda>(st, _, vs, w). Inr (st, op_others ops (s\<lparr>db_versions := vs, db_world := w\<rparr>)))"

section \<open>WriteLevel0Table\<close>

text \<open>Lines 112-127, after the table is built.\<close>

definition WriteLevel0Table_end ::
  "(status \<Rightarrow> bool) \<Rightarrow> ('d, 'm, 'i, 'w) db_ops \<Rightarrow> version_edit \<Rightarrow> nat option \<Rightarrow> u64 \<Rightarrow> status \<Rightarrow> fmeta
   \<Rightarrow> ('d, 'm, 'w) db \<Rightarrow> status \<times> version_edit \<times> ('d, 'm, 'w) db" where
  "WriteLevel0Table_end ok ops edit base start_micros st meta s =
     (let s = s\<lparr>db_pending_outputs := db_pending_outputs s - {fm_number meta}\<rparr>;
          adds = (ok st \<and> fm_file_size meta > 0);
          level = (if adds then (case base of None \<Rightarrow> 0
             | Some b \<Rightarrow> op_PickLevelForMemtableOutput ops (db_versions s) b
                 (InternalKey_user_key (op_ExtractUserKey ops) (fm_smallest meta))
                 (InternalKey_user_key (op_ExtractUserKey ops) (fm_largest meta)))
           else 0);
          edit = (if adds then AddFile 0 level (fm_number meta) (fm_file_size meta)
                    (fm_smallest meta) (fm_largest meta) edit else edit);
          (now, w) = op_NowMicros ops (db_world s)
      in (st, edit, upd_world (op_AddStats ops level (now - start_micros) (fm_file_size meta))
                      (s\<lparr>db_world := w\<rparr>)))"

definition WriteLevel0Table ::
  "(status \<Rightarrow> bool) \<Rightarrow> ('d, 'm, 'i, 'w) db_ops \<Rightarrow> u64 \<Rightarrow> nat \<Rightarrow> version_edit \<Rightarrow> nat option
   \<Rightarrow> ('d, 'm, 'w) db \<Rightarrow> (status \<times> version_edit \<times> ('d, 'm, 'w) db) run" where
  "WriteLevel0Table ok ops garbage mem edit base s =
     (let (start_micros, w) = op_NowMicros ops (db_world s);
          (number, vs) = NewFileNumber (db_versions s);
          meta = (FileMetaData garbage)\<lparr>fm_number := number\<rparr>;
          s = s\<lparr>db_world := w, db_versions := vs,
                db_pending_outputs := insert number (db_pending_outputs s)\<rparr>
      in rbind (Some (deref_mem (db_memtables s) mem)) (\<lambda>m.
         let iter = op_NewMemIterator ops (mt_table m);
             s = op_Unlock ops s
         in rbind (BuildTable ok (op_bt ops) (op_dbname ops) iter meta (db_world s)) (\<lambda>(st, meta, w).
            let s = op_Lock ops (s\<lparr>db_world := w\<rparr>)
            in Some (Inr (WriteLevel0Table_end ok ops edit base start_micros st meta s)))))"

section \<open>CompactMemtable\<close>

text \<open>Lines 141-159.\<close>

definition CompactMemtable_apply ::
  "(status \<Rightarrow> bool) \<Rightarrow> ('d, 'm, 'i, 'w) db_ops \<Rightarrow> status \<Rightarrow> version_edit \<Rightarrow> ('d, 'm, 'w) db
   \<Rightarrow> (status \<times> ('d, 'm, 'w) db) outcome" where
  "CompactMemtable_apply ok ops st edit s =
     (let st = (if ok st \<and> db_shutting_down s
                then Status_IOError ''Delete DB during memtable compaction'' '''' else st)
      in if ok st then
           call_LogAndApply ok ops (SetLogNumber (db_logfile_number s) (SetPrevLogNumber 0 edit)) s
         else Inr (st, s))"

definition CompactMemtable_end ::
  "(status \<Rightarrow> bool) \<Rightarrow> ('d, 'm, 'i, 'w) db_ops \<Rightarrow> status \<Rightarrow> ('d, 'm, 'w) db \<Rightarrow> ('d, 'm, 'w) db outcome" where
  "CompactMemtable_end ok ops st s =
     (if ok st then
        obind (nonnull (db_imm s)) (\<lambda>imm.
        obind (lift_memtables (MemTable_Unref imm) s) (\<lambda>s.
          Inr (op_RemoveObsoleteFiles ops (s\<lparr>db_imm := None, db_has_imm := False\<rparr>))))
      else Inr (op_RecordBackgroundError ops st s))"

definition CompactMemtable ::
  "(status \<Rightarrow> bool) \<Rightarrow> ('d, 'm, 'i, 'w) db_ops \<Rightarrow> u64 \<Rightarrow> ('d, 'm, 'w) db \<Rightarrow> ('d, 'm, 'w) db run" where
  "CompactMemtable ok ops garbage s =
     rbind (Some (cpp_assert (db_imm s \<noteq> None))) (\<lambda>_.
     rbind (Some (nonnull (vs_current (db_versions s)))) (\<lambda>base.
     rbind (Some (lift_versions (vo_Ref (op_vs ops) base) s)) (\<lambda>s.
     rbind (WriteLevel0Table ok ops garbage (the (db_imm s)) VersionEdit (Some base) s) (\<lambda>(st, edit, s).
     rbind (Some (lift_versions (vo_Unref (op_vs ops) base) s)) (\<lambda>s.
     rbind (Some (CompactMemtable_apply ok ops st edit s)) (\<lambda>(st, s).
       Some (CompactMemtable_end ok ops st s)))))))"

section \<open>Background work\<close>

definition MaybeScheduleCompaction ::
  "(status \<Rightarrow> bool) \<Rightarrow> ('d, 'm, 'i, 'w) db_ops \<Rightarrow> ('d, 'm, 'w) db \<Rightarrow> ('d, 'm, 'w) db" where
  "MaybeScheduleCompaction ok ops s =
     (if db_background_compaction_scheduled s then s
      else if db_shutting_down s then s
      else if \<not> ok (db_bg_error s) then s
      else if db_imm s = None \<and> \<not> db_manual_compaction s
              \<and> \<not> op_NeedsCompaction ops (db_versions s) then s
      else upd_world (op_Schedule ops) (s\<lparr>db_background_compaction_scheduled := True\<rparr>))"

text \<open>\<open>BackgroundCall\<close> up to the call of \<open>BackgroundCompaction\<close>, and after it.\<close>

definition BackgroundCall_works ::
  "(status \<Rightarrow> bool) \<Rightarrow> ('d, 'm, 'w) db \<Rightarrow> bool outcome" where
  "BackgroundCall_works ok s =
     obind (cpp_assert (db_background_compaction_scheduled s)) (\<lambda>_.
       Inr (\<not> db_shutting_down s \<and> ok (db_bg_error s)))"

definition BackgroundCall_end ::
  "(status \<Rightarrow> bool) \<Rightarrow> ('d, 'm, 'i, 'w) db_ops \<Rightarrow> ('d, 'm, 'w) db \<Rightarrow> ('d, 'm, 'w) db" where
  "BackgroundCall_end ok ops s =
     upd_world (op_SignalAll ops)
       (MaybeScheduleCompaction ok ops (s\<lparr>db_background_compaction_scheduled := False\<rparr>))"

definition BackgroundCall ::
  "(status \<Rightarrow> bool) \<Rightarrow> ('d, 'm, 'i, 'w) db_ops \<Rightarrow> (('d, 'm, 'w) db \<Rightarrow> ('d, 'm, 'w) db run)
   \<Rightarrow> ('d, 'm, 'w) db \<Rightarrow> ('d, 'm, 'w) db run" where
  "BackgroundCall ok ops BackgroundCompaction s =
     rbind (Some (BackgroundCall_works ok s)) (\<lambda>works.
     rbind (if works then BackgroundCompaction s else Some (Inr s)) (\<lambda>s.
       Some (Inr (BackgroundCall_end ok ops s))))"

section \<open>BackgroundCompaction\<close>

text \<open>The data members of \<open>Compaction\<close> (\<open>db/version_set.h\<close>) the code reads, and its accessors.\<close>

record compaction =
  cp_level :: int
  cp_max_output_file_size :: u64
  cp_edit :: version_edit
  cp_inputs :: "nat list list"

definition Compaction_level :: "compaction \<Rightarrow> int" where
  "Compaction_level c = cp_level c"

definition Compaction_MaxOutputFileSize :: "compaction \<Rightarrow> u64" where
  "Compaction_MaxOutputFileSize c = cp_max_output_file_size c"

definition Compaction_edit :: "compaction \<Rightarrow> version_edit" where
  "Compaction_edit c = cp_edit c"

definition num_input_files :: "compaction \<Rightarrow> int \<Rightarrow> nat outcome" where
  "num_input_files c which = obind (at_level which (cp_inputs c)) (\<lambda>fs. Inr (length fs))"

definition Compaction_input :: "compaction \<Rightarrow> int \<Rightarrow> int \<Rightarrow> nat outcome" where
  "Compaction_input c which i = obind (at_level which (cp_inputs c)) (at_level i)"

record ('d, 'm, 'w) compaction_ops =
  co_PickCompaction :: "('d, 'm, 'w) db \<Rightarrow> compaction option \<times> ('d, 'm, 'w) db"
  co_IsTrivialMove :: "compaction \<Rightarrow> bool"
  co_DoCompactionWork :: "compaction \<Rightarrow> ('d, 'm, 'w) db \<Rightarrow> (status \<times> ('d, 'm, 'w) db) outcome"
  co_CleanupCompaction :: "compaction \<Rightarrow> ('d, 'm, 'w) db \<Rightarrow> ('d, 'm, 'w) db"
  co_ReleaseInputs :: "compaction \<Rightarrow> ('d, 'm, 'w) db \<Rightarrow> ('d, 'm, 'w) db"
  co_delete :: "compaction \<Rightarrow> ('d, 'm, 'w) db \<Rightarrow> ('d, 'm, 'w) db"

text \<open>Lines 223-227: the edit that moves the only input file to the next level.\<close>

definition trivial_move_edit :: "fstore \<Rightarrow> compaction \<Rightarrow> version_edit outcome" where
  "trivial_move_edit fs c =
     obind (num_input_files c 0) (\<lambda>n.
     obind (cpp_assert (n = 1)) (\<lambda>_.
     obind (Compaction_input c 0 0) (\<lambda>p.
     obind (deref fs p) (\<lambda>f.
       let edit = RemoveFile (Compaction_level c) (fm_number f) (Compaction_edit c)
       in Inr (AddFile 0 (Compaction_level c + 1) (fm_number f) (fm_file_size f) (fm_smallest f)
                 (fm_largest f) edit)))))"

text \<open>
  With a manual compaction the pointer \<open>c\<close> is never set (line 212 is an empty block) and line
  219 reads it: \<open>Uninitialised\<close>.
\<close>

definition BackgroundCompaction ::
  "(status \<Rightarrow> bool) \<Rightarrow> ('d, 'm, 'i, 'w) db_ops \<Rightarrow> ('d, 'm, 'w) compaction_ops \<Rightarrow> u64
   \<Rightarrow> ('d, 'm, 'w) db \<Rightarrow> ('d, 'm, 'w) db run" where
  "BackgroundCompaction ok ops co garbage s =
     (if db_imm s \<noteq> None then CompactMemtable ok ops garbage s
      else if db_manual_compaction s then Some (Inl Uninitialised)
      else
        let (c, s) = co_PickCompaction co s
        in case c of
             None \<Rightarrow> Some (Inr s)
           | Some c \<Rightarrow>
               if co_IsTrivialMove co c then
                 Some (obind (trivial_move_edit (vs_files (db_versions s)) c) (\<lambda>edit.
                   obind (call_LogAndApply ok ops edit s) (\<lambda>(status, s).
                   let s = (if \<not> ok status then op_RecordBackgroundError ops status s else s)
                   in Inr (co_delete co c s))))
               else
                 Some (obind (co_DoCompactionWork co c s) (\<lambda>(status, s).
                   let s = (if \<not> ok status then op_RecordBackgroundError ops status s else s);
                       s = op_RemoveObsoleteFiles ops
                             (co_ReleaseInputs co c (co_CleanupCompaction co c s))
                   in Inr (co_delete co c s))))"

end
