(* ===== verification/DbWrite.thy ===== *)
theory DbWrite
  imports DbImpl
begin

text \<open>
  \<open>DBImpl::MakeRoomForWrite\<close>, \<open>Write\<close> and \<open>DB::Put\<close>. \<open>Write\<close> is given in the pieces between
  which it can lose the mutex: entering the queue, the test it waits for, the commit of a batch
  (which releases the mutex while it writes the log and the memtable), and leaving the queue.
  \<open>log_\<close> is the pointer to the file the log writer writes to.
\<close>

section \<open>MakeRoomForWrite\<close>

text \<open>Lines 295-315: a new log and a new memtable.\<close>

datatype ('d, 'm, 'w) room =
  Break status "('d, 'm, 'w) db"
| Again bool bool status "('d, 'm, 'w) db"

definition MakeRoom_switch ::
  "(status \<Rightarrow> bool) \<Rightarrow> ('d, 'm, 'i, 'w) db_ops \<Rightarrow> bool \<Rightarrow> ('d, 'm, 'w) db
   \<Rightarrow> ('d, 'm, 'w) room outcome" where
  "MakeRoom_switch ok ops allow_delay s =
     obind (cpp_assert (op_PrevLogNumber ops (db_versions s) = 0)) (\<lambda>_.
     let (new_log_number, vs) = NewFileNumber (db_versions s);
         s = s\<lparr>db_versions := vs\<rparr>
     in obind (LogFileName (op_dbname ops) new_log_number) (\<lambda>fname.
        let (st, lfile, w) = vo_NewWritableFile (op_vs ops) fname (db_world s);
            s = s\<lparr>db_world := w\<rparr>
        in if \<not> ok st then
             Inr (Break st (s\<lparr>db_versions := op_ReuseFileNumber ops new_log_number (db_versions s)\<rparr>))
           else
             let w = vo_delete_file (op_vs ops) (db_logfile s) (op_delete_log ops (db_log s) (db_world s));
                 a = db_next_mem s;
                 s = s\<lparr>db_world := w, db_logfile := lfile, db_logfile_number := new_log_number,
                       db_log := lfile, db_imm := db_mem s, db_has_imm := True,
                       db_memtables := (db_memtables s)(a \<mapsto> MemTable (op_empty_table ops)),
                       db_next_mem := Suc a, db_mem := Some a\<rparr>
             in obind (lift_memtables (MemTable_Ref a) s) (\<lambda>s.
                Inr (Again False allow_delay st (MaybeScheduleCompaction ok ops s)))))"

text \<open>One round of the loop; line 268 tests \<open>bg_error_.ok()\<close> without a negation.\<close>

definition MakeRoom_round ::
  "(status \<Rightarrow> bool) \<Rightarrow> ('d, 'm, 'i, 'w) db_ops \<Rightarrow> bool \<Rightarrow> bool \<Rightarrow> status \<Rightarrow> ('d, 'm, 'w) db
   \<Rightarrow> ('d, 'm, 'w) room outcome" where
  "MakeRoom_round ok ops force allow_delay st s =
     (if ok (db_bg_error s) then Inr (Break (db_bg_error s) s)
      else if allow_delay \<and> op_NumLevelFile ops (db_versions s) 0 \<ge> op_kL0_SlowdownWritesTrigger ops
      then Inr (Again force False st (op_Lock ops (op_Sleep ops (op_Unlock ops s))))
      else
        obind (nonnull (db_mem s)) (\<lambda>mem.
        obind (deref_mem (db_memtables s) mem) (\<lambda>m.
        if \<not> force \<and> op_ApproximateMemoryUsage ops (mt_table m) \<le> op_write_buffer_size ops
        then Inr (Break st s)
        else if db_imm s \<noteq> None then Inr (Again force allow_delay st (op_WaitBackground ops s))
        else if op_NumLevelFile ops (db_versions s) 0 \<ge> op_kL0_StopWritesTrigger ops
        then Inr (Again force allow_delay st (op_WaitBackground ops s))
        else MakeRoom_switch ok ops allow_delay s)))"

partial_function (option) MakeRoom_loop ::
  "(status \<Rightarrow> bool) \<Rightarrow> ('d, 'm, 'i, 'w) db_ops \<Rightarrow> bool \<Rightarrow> bool \<Rightarrow> status \<Rightarrow> ('d, 'm, 'w) db
   \<Rightarrow> (status \<times> ('d, 'm, 'w) db) run" where
  "MakeRoom_loop ok ops force allow_delay st s =
     (case MakeRoom_round ok ops force allow_delay st s of
        Inl e \<Rightarrow> Some (Inl e)
      | Inr r \<Rightarrow> (case r of
            Break st s \<Rightarrow> Some (Inr (st, s))
          | Again force allow_delay st s \<Rightarrow> MakeRoom_loop ok ops force allow_delay st s))"

declare MakeRoom_loop.simps [code]

definition MakeRoomForWrite ::
  "(status \<Rightarrow> bool) \<Rightarrow> ('d, 'm, 'i, 'w) db_ops \<Rightarrow> bool \<Rightarrow> ('d, 'm, 'w) db
   \<Rightarrow> (status \<times> ('d, 'm, 'w) db) run" where
  "MakeRoomForWrite ok ops force s =
     rbind (Some (cpp_assert (db_writers s \<noteq> []))) (\<lambda>_.
       MakeRoom_loop ok ops force (\<not> force) Status_default s)"

section \<open>The queue of writers\<close>

text \<open>Lines 322-328; \<open>w\<close> is the address of the \<open>Writer\<close>.\<close>

definition Write_enter :: "nat \<Rightarrow> nat option \<Rightarrow> bool \<Rightarrow> ('d, 'm, 'w) db \<Rightarrow> ('d, 'm, 'w) db" where
  "Write_enter w updates sync s =
     s\<lparr>db_writer := (db_writer s)(w \<mapsto> Writer\<lparr>wr_batch := updates, wr_sync := sync, wr_done := False\<rparr>),
       db_writers := db_writers s @ [w]\<rparr>"

definition deref_writer :: "('d, 'm, 'w) db \<Rightarrow> nat \<Rightarrow> writer outcome" where
  "deref_writer s w = (case db_writer s w of None \<Rightarrow> Inl BadAddress | Some x \<Rightarrow> Inr x)"

text \<open>\<open>front\<close> of an empty deque is undefined.\<close>

definition front :: "nat list \<Rightarrow> nat outcome" where
  "front q = (case q of [] \<Rightarrow> Inl OutOfBounds | w # _ \<Rightarrow> Inr w)"

text \<open>Line 329: the condition of the waiting loop.\<close>

definition Write_waits :: "nat \<Rightarrow> ('d, 'm, 'w) db \<Rightarrow> bool outcome" where
  "Write_waits w s =
     obind (deref_writer s w) (\<lambda>x.
     if wr_done x then Inr False else obind (front (db_writers s)) (\<lambda>f. Inr (w \<noteq> f)))"

text \<open>Lines 367-376, on the queue; the writers it passes are told the status.\<close>

fun Write_pop ::
  "nat \<Rightarrow> nat \<Rightarrow> status \<Rightarrow> nat list \<Rightarrow> ('d, 'm, 'w) db \<Rightarrow> ('d, 'm, 'w) db outcome" where
  "Write_pop w last_writer status [] s = Inl OutOfBounds"
| "Write_pop w last_writer status (ready # rest) s =
     obind
       (if ready \<noteq> w then
          obind (deref_writer s ready) (\<lambda>x.
            Inr (s\<lparr>db_writer := (db_writer s)(ready \<mapsto> x\<lparr>wr_status := status, wr_done := True\<rparr>),
                   db_signalled := insert ready (db_signalled s)\<rparr>))
        else Inr s) (\<lambda>s.
     let s = s\<lparr>db_writers := rest\<rparr>
     in if ready = last_writer then Inr s else Write_pop w last_writer status rest s)"

text \<open>Lines 367-382.\<close>

definition Write_leave ::
  "nat \<Rightarrow> nat \<Rightarrow> status \<Rightarrow> ('d, 'm, 'w) db \<Rightarrow> ('d, 'm, 'w) db outcome" where
  "Write_leave w last_writer status s =
     obind (Write_pop w last_writer status (db_writers s) s) (\<lambda>s.
       Inr (case db_writers s of [] \<Rightarrow> s | f # _ \<Rightarrow> s\<lparr>db_signalled := insert f (db_signalled s)\<rparr>))"

section \<open>Committing a batch\<close>

text \<open>
  \<open>BuildBatchGroup\<close> is called with the address of \<open>last_sequence\<close>, which it may change; the
  other fields are the members of \<open>WriteBatchInternal\<close> that are declared only.
\<close>

record ('d, 'm, 'w) batch_ops =
  ba_BuildBatchGroup :: "u64 \<Rightarrow> ('d, 'm, 'w) db \<Rightarrow> (nat \<times> u64 \<times> ('d, 'm, 'w) db) outcome"
  ba_SetSequence :: "string \<Rightarrow> u64 \<Rightarrow> string"
  ba_Count :: "string \<Rightarrow> int"
  ba_InsertInto :: "string \<Rightarrow> 'm \<Rightarrow> status \<times> 'm"
  ba_Clear :: "string \<Rightarrow> string"
  ba_new_batch :: string
  ba_Put :: "slice \<Rightarrow> slice \<Rightarrow> string \<Rightarrow> string"

definition Contents :: "string \<Rightarrow> slice" where
  "Contents batch = batch"

definition ByteSize :: "string \<Rightarrow> nat" where
  "ByteSize batch = length batch"

definition deref_batch :: "('d, 'm, 'w) db \<Rightarrow> nat \<Rightarrow> string outcome" where
  "deref_batch s b = (case db_batches s b of None \<Rightarrow> Inl BadAddress | Some x \<Rightarrow> Inr x)"

text \<open>Lines 347-353; the result says whether \<open>Sync\<close> failed.\<close>

definition Write_sync ::
  "(status \<Rightarrow> bool) \<Rightarrow> ('d, 'm, 'i, 'w) db_ops \<Rightarrow> bool \<Rightarrow> status \<Rightarrow> ('d, 'm, 'w) db
   \<Rightarrow> (bool \<times> status \<times> ('d, 'm, 'w) db) outcome" where
  "Write_sync ok ops sync st s =
     (if ok st \<and> sync then
        obind (nonnull (db_logfile s)) (\<lambda>logfile.
          let (st, w) = vo_Sync (op_vs ops) logfile (db_world s)
          in Inr (\<not> ok st, st, s\<lparr>db_world := w\<rparr>))
      else Inr (False, st, s))"

text \<open>Lines 354-356.\<close>

definition Write_insert ::
  "(status \<Rightarrow> bool) \<Rightarrow> ('d, 'm, 'w) batch_ops \<Rightarrow> string \<Rightarrow> status \<Rightarrow> ('d, 'm, 'w) db
   \<Rightarrow> (status \<times> ('d, 'm, 'w) db) outcome" where
  "Write_insert ok ba batch st s =
     (if ok st then
        obind (nonnull (db_mem s)) (\<lambda>mem.
        obind (deref_mem (db_memtables s) mem) (\<lambda>m.
          let (st, t) = ba_InsertInto ba batch (mt_table m)
          in Inr (st, s\<lparr>db_memtables := (db_memtables s)(mem \<mapsto> m\<lparr>mt_table := t\<rparr>)\<rparr>)))
      else Inr (st, s))"

text \<open>Lines 345-361: the mutex is released around the log and the memtable.\<close>

definition Write_log ::
  "(status \<Rightarrow> bool) \<Rightarrow> ('d, 'm, 'i, 'w) db_ops \<Rightarrow> ('d, 'm, 'w) batch_ops \<Rightarrow> bool \<Rightarrow> string
   \<Rightarrow> ('d, 'm, 'w) db \<Rightarrow> (status \<times> ('d, 'm, 'w) db) outcome" where
  "Write_log ok ops ba sync batch s =
     (let s = op_Unlock ops s
      in obind (nonnull (db_log s)) (\<lambda>log.
         let (st, w) = vo_AddRecord (op_vs ops) log (Contents batch) (db_world s)
         in obind (Write_sync ok ops sync st (s\<lparr>db_world := w\<rparr>)) (\<lambda>(sync_error, st, s).
            obind (Write_insert ok ba batch st s) (\<lambda>(st, s).
            let s = op_Lock ops s
            in Inr (st, if sync_error then op_RecordBackgroundError ops st s else s)))))"

text \<open>Lines 338-365.\<close>

definition Write_commit ::
  "(status \<Rightarrow> bool) \<Rightarrow> ('d, 'm, 'i, 'w) db_ops \<Rightarrow> ('d, 'm, 'w) batch_ops \<Rightarrow> bool \<Rightarrow> nat option \<Rightarrow> status
   \<Rightarrow> ('d, 'm, 'w) db \<Rightarrow> (status \<times> ('d, 'm, 'w) db) outcome" where
  "Write_commit ok ops ba sync updates st s =
     (let last_sequence = vs_last_sequence (db_versions s)
      in if ok st \<and> updates \<noteq> None then
           obind (ba_BuildBatchGroup ba last_sequence s) (\<lambda>(write_batch, last_sequence, s).
           obind (deref_batch s write_batch) (\<lambda>rep.
           let rep = ba_SetSequence ba rep (last_sequence + 1);
               s = s\<lparr>db_batches := (db_batches s)(write_batch \<mapsto> rep)\<rparr>;
               last_sequence = last_sequence + of_int (ba_Count ba rep)
           in obind (Write_log ok ops ba sync rep s) (\<lambda>(st, s).
              let s = (if write_batch = db_tmp_batch s
                       then s\<lparr>db_batches := (db_batches s)(write_batch \<mapsto>
                              ba_Clear ba (case db_batches s write_batch of None \<Rightarrow> rep | Some r \<Rightarrow> r))\<rparr>
                       else s)
              in Inr (st, s\<lparr>db_versions := (db_versions s)\<lparr>vs_last_sequence := last_sequence\<rparr>\<rparr>))))
         else Inr (st, s))"

text \<open>
  \<open>Write\<close> for a writer that has entered the queue and whose waiting loop is over: it returns
  what another writer did for it, or commits and leaves (\<open>last_writer\<close> is never set again, so
  it is the writer itself).
\<close>

definition Write_run ::
  "(status \<Rightarrow> bool) \<Rightarrow> ('d, 'm, 'i, 'w) db_ops \<Rightarrow> ('d, 'm, 'w) batch_ops \<Rightarrow> nat \<Rightarrow> bool \<Rightarrow> nat option
   \<Rightarrow> ('d, 'm, 'w) db \<Rightarrow> (status \<times> ('d, 'm, 'w) db) run" where
  "Write_run ok ops ba w sync updates s =
     rbind (Some (deref_writer s w)) (\<lambda>x.
     if wr_done x then Some (Inr (wr_status x, s))
     else
       rbind (MakeRoomForWrite ok ops (updates = None) s) (\<lambda>(st, s).
       rbind (Some (Write_commit ok ops ba sync updates st s)) (\<lambda>(st, s).
       rbind (Some (Write_leave w w st s)) (\<lambda>s. Some (Inr (st, s))))))"

text \<open>\<open>Write\<close> called when no other writer is in the queue, so that it does not wait.\<close>

definition Write_alone ::
  "(status \<Rightarrow> bool) \<Rightarrow> ('d, 'm, 'i, 'w) db_ops \<Rightarrow> ('d, 'm, 'w) batch_ops \<Rightarrow> nat \<Rightarrow> bool \<Rightarrow> nat option
   \<Rightarrow> ('d, 'm, 'w) db \<Rightarrow> (status \<times> ('d, 'm, 'w) db) run" where
  "Write_alone ok ops ba w sync updates s = Write_run ok ops ba w sync updates (Write_enter w updates sync s)"

text \<open>\<open>DB::Put\<close>, on a batch at the address \<open>b\<close>; \<open>DBImpl::Put\<close> only calls it.\<close>

definition DB_Put ::
  "('d, 'm, 'w) batch_ops \<Rightarrow> (nat option \<Rightarrow> ('d, 'm, 'w) db \<Rightarrow> (status \<times> ('d, 'm, 'w) db) run) \<Rightarrow> nat
   \<Rightarrow> slice \<Rightarrow> slice \<Rightarrow> ('d, 'm, 'w) db \<Rightarrow> (status \<times> ('d, 'm, 'w) db) run" where
  "DB_Put ba Write b key val s =
     Write (Some b) (s\<lparr>db_batches := (db_batches s)(b \<mapsto> ba_Put ba key val (ba_new_batch ba))\<rparr>)"

definition DBImpl_Put ::
  "('d, 'm, 'w) batch_ops \<Rightarrow> (nat option \<Rightarrow> ('d, 'm, 'w) db \<Rightarrow> (status \<times> ('d, 'm, 'w) db) run) \<Rightarrow> nat
   \<Rightarrow> slice \<Rightarrow> slice \<Rightarrow> ('d, 'm, 'w) db \<Rightarrow> (status \<times> ('d, 'm, 'w) db) run" where
  "DBImpl_Put ba Write b key val s = DB_Put ba Write b key val s"

end
