(* ===== verification/WriteQueue.thy ===== *)
theory WriteQueue
  imports DbWrite
begin

text \<open>
  The threads inside \<open>DBImpl::Write\<close> as a transition system over the queue \<open>writers_\<close>: a
  writer enters the queue, tests the condition of its waiting loop, sleeps on its condition
  variable until it is signalled (or wakes up spuriously), works at the front of the queue, and
  leaves. While it works it may release the mutex (in \<open>MakeRoomForWrite\<close> and around the log),
  so steps of other threads come in between; the work itself does not touch the queue, as
  \<open>Write_commit_keeps_queue\<close> shows. \<open>ws_entered\<close> and \<open>ws_left\<close> record who came and went.
\<close>

datatype phase = Absent | Entered | Blocked | Working | Returned status

record ('d, 'm, 'w) wsys =
  ws_db :: "('d, 'm, 'w) db"
  ws_phase :: "nat \<Rightarrow> phase"
  ws_entered :: "nat list"
  ws_left :: "nat list"

definition same_queue :: "('d, 'm, 'w) db \<Rightarrow> ('d, 'm, 'w) db \<Rightarrow> bool" where
  "same_queue s s' \<longleftrightarrow> db_writers s' = db_writers s \<and> db_writer s' = db_writer s \<and>
     db_signalled s' = db_signalled s"

text \<open>A signal wakes a writer that is asleep; it is lost otherwise.\<close>

definition deliver :: "nat set \<Rightarrow> (nat \<Rightarrow> phase) \<Rightarrow> nat \<Rightarrow> phase" where
  "deliver sig ph w = (if w \<in> sig \<and> ph w = Blocked then Entered else ph w)"

inductive wstep :: "('d, 'm, 'w) wsys \<Rightarrow> ('d, 'm, 'w) wsys \<Rightarrow> bool" where
  enter: "ws_phase s w = Absent \<Longrightarrow>
    wstep s (s\<lparr>ws_db := Write_enter w updates sync (ws_db s), ws_phase := (ws_phase s)(w := Entered),
               ws_entered := ws_entered s @ [w]\<rparr>)"
| block: "ws_phase s w = Entered \<Longrightarrow> Write_waits w (ws_db s) = Inr True \<Longrightarrow>
    wstep s (s\<lparr>ws_phase := (ws_phase s)(w := Blocked)\<rparr>)"
| finished: "ws_phase s w = Entered \<Longrightarrow> Write_waits w (ws_db s) = Inr False \<Longrightarrow>
    deref_writer (ws_db s) w = Inr x \<Longrightarrow> wr_done x \<Longrightarrow>
    wstep s (s\<lparr>ws_phase := (ws_phase s)(w := Returned (wr_status x))\<rparr>)"
| start: "ws_phase s w = Entered \<Longrightarrow> Write_waits w (ws_db s) = Inr False \<Longrightarrow>
    deref_writer (ws_db s) w = Inr x \<Longrightarrow> \<not> wr_done x \<Longrightarrow>
    wstep s (s\<lparr>ws_phase := (ws_phase s)(w := Working)\<rparr>)"
| spurious: "ws_phase s w = Blocked \<Longrightarrow> wstep s (s\<lparr>ws_phase := (ws_phase s)(w := Entered)\<rparr>)"
| work: "ws_phase s w = Working \<Longrightarrow> same_queue (ws_db s) db' \<Longrightarrow> wstep s (s\<lparr>ws_db := db'\<rparr>)"
| leave: "ws_phase s w = Working \<Longrightarrow> Write_leave w w st (ws_db s) = Inr db' \<Longrightarrow>
    wstep s (s\<lparr>ws_db := db'\<lparr>db_signalled := {}\<rparr>,
               ws_phase := deliver (db_signalled db') ((ws_phase s)(w := Returned st)),
               ws_left := ws_left s @ [w]\<rparr>)"

inductive_cases wstepE: "wstep s s'"

definition winit :: "('d, 'm, 'w) wsys \<Rightarrow> bool" where
  "winit s \<longleftrightarrow> db_writers (ws_db s) = [] \<and> db_signalled (ws_db s) = {} \<and>
     (\<forall>w. ws_phase s w = Absent) \<and> ws_entered s = [] \<and> ws_left s = []"

inductive wreach :: "('d, 'm, 'w) wsys \<Rightarrow> bool" where
  init: "winit s \<Longrightarrow> wreach s"
| step: "wreach s \<Longrightarrow> wstep s s' \<Longrightarrow> wreach s'"

section \<open>The invariant\<close>

definition winv :: "('d, 'm, 'w) wsys \<Rightarrow> bool" where
  "winv s \<longleftrightarrow>
     distinct (db_writers (ws_db s)) \<and>
     (\<forall>w. w \<in> set (db_writers (ws_db s)) \<longleftrightarrow> ws_phase s w \<in> {Entered, Blocked, Working}) \<and>
     (\<forall>w \<in> set (db_writers (ws_db s)). \<exists>x. db_writer (ws_db s) w = Some x \<and> \<not> wr_done x) \<and>
     (\<forall>w. ws_phase s w = Working \<longrightarrow> (\<exists>rest. db_writers (ws_db s) = w # rest)) \<and>
     (\<forall>w rest. db_writers (ws_db s) = w # rest \<longrightarrow> ws_phase s w \<noteq> Blocked) \<and>
     db_signalled (ws_db s) = {} \<and>
     ws_entered s = ws_left s @ db_writers (ws_db s) \<and>
     (\<forall>w \<in> set (ws_left s). \<exists>st. ws_phase s w = Returned st)"

lemma Write_pop_self:
  "Write_pop w w st (w # rest) s = Inr (s\<lparr>db_writers := rest\<rparr>)"
  by simp

lemma Write_leave_self:
  assumes "db_writers s = w # rest"
  shows "Write_leave w w st s = Inr (s\<lparr>db_writers := rest,
    db_signalled := (case rest of [] \<Rightarrow> db_signalled s | f # _ \<Rightarrow> insert f (db_signalled s))\<rparr>)"
  using assms by (cases rest) (simp_all add: Write_leave_def)

lemma Write_waits_queued:
  assumes "db_writers s = f # rest" and "db_writer s w = Some x" and "\<not> wr_done x"
  shows "Write_waits w s = Inr (w \<noteq> f)"
  using assms by (simp add: Write_waits_def deref_writer_def front_def)

lemma winv_enter:
  assumes inv: "winv s" and w: "ws_phase s w = Absent"
  shows "winv (s\<lparr>ws_db := Write_enter w updates sync (ws_db s), ws_phase := (ws_phase s)(w := Entered),
               ws_entered := ws_entered s @ [w]\<rparr>)"
proof -
  have "w \<notin> set (db_writers (ws_db s))" using inv w by (auto simp: winv_def)
  moreover have "w \<notin> set (ws_left s)" using inv w by (fastforce simp: winv_def)
  ultimately show ?thesis
    using inv by (cases "db_writers (ws_db s)") (auto simp: winv_def Write_enter_def Writer_def)
qed

lemma winv_leave:
  assumes inv: "winv s" and w: "ws_phase s w = Working" and run: "Write_leave w w st (ws_db s) = Inr db'"
  shows "winv (s\<lparr>ws_db := db'\<lparr>db_signalled := {}\<rparr>,
               ws_phase := deliver (db_signalled db') ((ws_phase s)(w := Returned st)),
               ws_left := ws_left s @ [w]\<rparr>)"
proof -
  obtain rest where q: "db_writers (ws_db s) = w # rest" using inv w by (auto simp: winv_def)
  have sig: "db_signalled (ws_db s) = {}" using inv by (simp add: winv_def)
  have db': "db_writers db' = rest" "db_writer db' = db_writer (ws_db s)"
    "db_signalled db' = (case rest of [] \<Rightarrow> {} | f # _ \<Rightarrow> {f})"
    using run Write_leave_self [OF q, of st] sig by (auto split: list.splits)
  have nw: "ws_phase s v \<noteq> Working" if "v \<noteq> w" for v using inv q that by (auto simp: winv_def)
  let ?ph = "deliver (db_signalled db') ((ws_phase s)(w := Returned st))"
  have ph: "?ph v = (if v = w then Returned st else if (\<exists>tl. rest = v # tl) \<and> ws_phase s v = Blocked
      then Entered else ws_phase s v)" for v
    unfolding deliver_def db'(3) by (cases rest) auto
  have dist: "distinct rest" "w \<notin> set rest" using inv q by (auto simp: winv_def)
  have member: "v \<in> set rest \<longleftrightarrow> ?ph v \<in> {Entered, Blocked, Working}" for v
  proof -
    have "v \<in> set (w # rest) \<longleftrightarrow> ws_phase s v \<in> {Entered, Blocked, Working}"
      using inv q by (simp add: winv_def)
    then show ?thesis using dist(2) unfolding ph by auto
  qed
  have "\<forall>v \<in> set rest. \<exists>x. db_writer (ws_db s) v = Some x \<and> \<not> wr_done x"
    using inv q by (simp add: winv_def)
  moreover have "\<forall>v. ?ph v \<noteq> Working" using nw unfolding ph by auto
  moreover have "\<forall>v tl. rest = v # tl \<longrightarrow> ?ph v \<noteq> Blocked" unfolding ph by auto
  moreover have "ws_entered s = (ws_left s @ [w]) @ rest" using inv q by (simp add: winv_def)
  moreover have "\<forall>v \<in> set (ws_left s @ [w]). \<exists>st'. ?ph v = Returned st'"
  proof
    fix v assume "v \<in> set (ws_left s @ [w])"
    then have "v = w \<or> (\<exists>st'. ws_phase s v = Returned st')" using inv by (auto simp: winv_def)
    then show "\<exists>st'. ?ph v = Returned st'" unfolding ph by auto
  qed
  ultimately show ?thesis
    unfolding winv_def using dist(1) member db'(1,2) by simp
qed

lemma winv_step:
  assumes "wstep s s'" and "winv s"
  shows "winv s'"
  using assms(1)
proof (cases rule: wstep.cases)
  case (enter w updates sync)
  then show ?thesis using assms(2) by (simp add: winv_enter)
next
  case (block w)
  then have "w \<in> set (db_writers (ws_db s))" using assms(2) by (simp add: winv_def)
  then obtain x where "db_writer (ws_db s) w = Some x" "\<not> wr_done x"
    using assms(2) unfolding winv_def by blast
  then have "\<not> (\<exists>rest. db_writers (ws_db s) = w # rest)"
    using block Write_waits_queued [of "ws_db s" w _ w x] by auto
  then show ?thesis using block assms(2) by (auto simp: winv_def)
next
  case (finished w x)
  then have "w \<in> set (db_writers (ws_db s))" "db_writer (ws_db s) w = Some x"
    using assms(2) by (auto simp: winv_def deref_writer_def split: option.splits)
  moreover from this obtain y where "db_writer (ws_db s) w = Some y" "\<not> wr_done y"
    using assms(2) unfolding winv_def by blast
  ultimately show ?thesis using finished by simp
next
  case (start w x)
  then have "w \<in> set (db_writers (ws_db s))" "db_writer (ws_db s) w = Some x"
    using assms(2) by (auto simp: winv_def deref_writer_def split: option.splits)
  then have "\<exists>rest. db_writers (ws_db s) = w # rest"
    using start Write_waits_queued [of "ws_db s" _ _ w x] by (cases "db_writers (ws_db s)") auto
  then show ?thesis using start assms(2) by (auto simp: winv_def)
next
  case (spurious w)
  then show ?thesis using assms(2) by (auto simp: winv_def)
next
  case (work w db')
  then show ?thesis using assms(2) by (auto simp: winv_def same_queue_def)
next
  case (leave w st db')
  then show ?thesis using assms(2) by (simp add: winv_leave)
qed

lemma winv_reach: "wreach s \<Longrightarrow> winv s"
  by (induction rule: wreach.induct) (simp add: winit_def winv_def, rule winv_step)

section \<open>The work leaves the queue alone\<close>

lemma same_queue_refl [simp]: "same_queue s s"
  by (simp add: same_queue_def)

lemma same_queue_trans: "same_queue s s1 \<Longrightarrow> same_queue s1 s2 \<Longrightarrow> same_queue s s2"
  by (simp add: same_queue_def)

text \<open>
  The functions that stand for what others do while the mutex is released, and the ones that
  are not in the repository, without their own effect on the queue: that is the other threads'
  steps of the transition system.
\<close>

definition ops_keep_queue ::
  "('d, 'm, 'i, 'w) db_ops \<Rightarrow> ('d, 'm, 'w) batch_ops \<Rightarrow> bool" where
  "ops_keep_queue ops ba \<longleftrightarrow>
     (\<forall>s. same_queue s (op_Unlock ops s)) \<and> (\<forall>s. same_queue s (op_Lock ops s)) \<and>
     (\<forall>st s. same_queue s (op_RecordBackgroundError ops st s)) \<and>
     (\<forall>n s b n' s'. ba_BuildBatchGroup ba n s = Inr (b, n', s') \<longrightarrow> same_queue s s')"

lemma Write_sync_keeps_queue: "Write_sync ok ops sync st s = Inr (e, st', s') \<Longrightarrow> same_queue s s'"
  by (auto simp: Write_sync_def Let_def obind_eq_Inr same_queue_def case_prod_beta split: if_splits)

lemma Write_insert_keeps_queue: "Write_insert ok ba batch st s = Inr (st', s') \<Longrightarrow> same_queue s s'"
  by (auto simp: Write_insert_def Let_def obind_eq_Inr same_queue_def case_prod_beta split: if_splits)

lemma Write_log_keeps_queue:
  assumes "ops_keep_queue ops ba" and "Write_log ok ops ba sync batch s = Inr (st, s')"
  shows "same_queue s s'"
proof -
  have lock: "same_queue t (op_Unlock ops t)" "same_queue t (op_Lock ops t)"
    "same_queue t (op_RecordBackgroundError ops st t)" for t st
    using assms(1) by (simp_all add: ops_keep_queue_def)
  obtain log where log: "nonnull (db_log (op_Unlock ops s)) = Inr log"
    using assms(2) by (cases "nonnull (db_log (op_Unlock ops s))") (simp_all add: Write_log_def Let_def)
  obtain st0 w where add: "vo_AddRecord (op_vs ops) log (Contents batch) (db_world (op_Unlock ops s)) = (st0, w)"
    by (cases "vo_AddRecord (op_vs ops) log (Contents batch) (db_world (op_Unlock ops s))")
  obtain e st1 s1 where 1: "Write_sync ok ops sync st0 ((op_Unlock ops s)\<lparr>db_world := w\<rparr>) = Inr (e, st1, s1)"
    using assms(2) log add
    by (cases "Write_sync ok ops sync st0 ((op_Unlock ops s)\<lparr>db_world := w\<rparr>)") (auto simp: Write_log_def Let_def)
  obtain st2 s2 where 2: "Write_insert ok ba batch st1 s1 = Inr (st2, s2)"
    using assms(2) log add 1
    by (cases "Write_insert ok ba batch st1 s1") (auto simp: Write_log_def Let_def)
  have 3: "s' = (if e then op_RecordBackgroundError ops st2 (op_Lock ops s2) else op_Lock ops s2)"
    using assms(2) log add 1 2 by (auto simp: Write_log_def Let_def)
  have a: "same_queue (op_Unlock ops s) s1"
    using Write_sync_keeps_queue [OF 1] by (simp add: same_queue_def)
  have b: "same_queue s1 s2" by (rule Write_insert_keeps_queue [OF 2])
  have c: "same_queue s2 s'"
    unfolding 3 using same_queue_trans [OF lock(2) lock(3)] lock(2) by simp
  show ?thesis
    by (rule same_queue_trans [OF lock(1) same_queue_trans [OF a same_queue_trans [OF b c]]])
qed

lemma Write_commit_keeps_queue:
  assumes "ops_keep_queue ops ba" and "Write_commit ok ops ba sync updates st s = Inr (st', s')"
  shows "same_queue s s'"
proof (cases "ok st \<and> updates \<noteq> None")
  case True
  let ?n = "vs_last_sequence (db_versions s)"
  obtain b n s1 where 1: "ba_BuildBatchGroup ba ?n s = Inr (b, n, s1)"
    using assms(2) True by (cases "ba_BuildBatchGroup ba ?n s") (auto simp: Write_commit_def Let_def)
  obtain rep0 where rep0: "deref_batch s1 b = Inr rep0"
    using assms(2) True 1 by (cases "deref_batch s1 b") (auto simp: Write_commit_def Let_def)
  let ?rep = "ba_SetSequence ba rep0 (n + 1)"
  let ?log = "Write_log ok ops ba sync ?rep (s1\<lparr>db_batches := (db_batches s1)(b \<mapsto> ?rep)\<rparr>)"
  obtain st2 s2 where 2: "?log = Inr (st2, s2)"
    using assms(2) True 1 rep0 by (cases ?log) (auto simp: Write_commit_def Let_def)
  have 3: "same_queue s2 s'"
    using assms(2) True 1 rep0 2
    by (cases "b = db_tmp_batch s2") (auto simp: Write_commit_def Let_def same_queue_def)
  have a: "same_queue s s1" using assms(1) 1 by (simp add: ops_keep_queue_def)
  have b: "same_queue s1 s2"
    using Write_log_keeps_queue [OF assms(1) 2] by (simp add: same_queue_def)
  show ?thesis by (rule same_queue_trans [OF a same_queue_trans [OF b 3]])
next
  case False
  then show ?thesis using assms(2) by (auto simp: Write_commit_def Let_def)
qed

section \<open>Properties\<close>

text \<open>C8: in every reachable state at most one writer works, and it is the one at the front of
  the queue; writers leave in the order in which they entered; nobody waits outside the queue;
  and no writer in the queue has been marked done by another one, so every writer commits its
  own batch and batches are never grouped.\<close>

theorem Write_queue_exclusive_fifo:
  assumes "wreach s"
  shows "(\<forall>v w. ws_phase s v = Working \<longrightarrow> ws_phase s w = Working \<longrightarrow> v = w) \<and>
    (\<forall>w. ws_phase s w = Working \<longrightarrow> front (db_writers (ws_db s)) = Inr w) \<and>
    ws_entered s = ws_left s @ db_writers (ws_db s) \<and> distinct (db_writers (ws_db s)) \<and>
    (\<forall>w. ws_phase s w \<in> {Entered, Blocked} \<longrightarrow> w \<in> set (db_writers (ws_db s)) \<and>
       (\<exists>x. deref_writer (ws_db s) w = Inr x \<and> \<not> wr_done x))"
proof -
  have inv: "winv s" by (rule winv_reach [OF assms])
  have front: "front (db_writers (ws_db s)) = Inr w" if "ws_phase s w = Working" for w
    using inv that by (auto simp: winv_def front_def)
  then have "v = w" if "ws_phase s v = Working" "ws_phase s w = Working" for v w
    using that by (metis sum.inject(2))
  moreover have "w \<in> set (db_writers (ws_db s)) \<and> (\<exists>x. deref_writer (ws_db s) w = Inr x \<and> \<not> wr_done x)"
    if "ws_phase s w \<in> {Entered, Blocked}" for w
  proof -
    have w: "w \<in> set (db_writers (ws_db s))" using inv that by (auto simp: winv_def)
    then obtain x where "db_writer (ws_db s) w = Some x" "\<not> wr_done x"
      using inv unfolding winv_def by blast
    then show ?thesis using w by (simp add: deref_writer_def)
  qed
  ultimately show ?thesis using front inv by (simp add: winv_def)
qed

text \<open>C29: no writer is forgotten: whenever the queue is not empty, the writer at its front is
  awake, and it is either working, and then it can leave with any status without a fault, or
  its waiting loop ends at its next test.\<close>

theorem Write_queue_progress:
  assumes "wreach s" and "db_writers (ws_db s) = w # rest"
  shows "(ws_phase s w = Entered \<and> Write_waits w (ws_db s) = Inr False \<and>
      wstep s (s\<lparr>ws_phase := (ws_phase s)(w := Working)\<rparr>)) \<or>
    (ws_phase s w = Working \<and> (\<forall>st. \<exists>db'. Write_leave w w st (ws_db s) = Inr db' \<and> db_writers db' = rest))"
proof -
  have inv: "winv s" by (rule winv_reach [OF assms(1)])
  have w: "w \<in> set (db_writers (ws_db s))" using assms(2) by simp
  then obtain x where x: "db_writer (ws_db s) w = Some x" "\<not> wr_done x"
    using inv unfolding winv_def by blast
  have "ws_phase s w \<in> {Entered, Blocked, Working}" "ws_phase s w \<noteq> Blocked"
    using inv w assms(2) by (auto simp: winv_def)
  then consider (e) "ws_phase s w = Entered" | (k) "ws_phase s w = Working" by auto
  then show ?thesis
  proof cases
    case e
    have waits: "Write_waits w (ws_db s) = Inr False" using Write_waits_queued [OF assms(2) x] by simp
    have "deref_writer (ws_db s) w = Inr x" using x by (simp add: deref_writer_def)
    from wstep.start [OF e waits this x(2)] show ?thesis using e waits by simp
  next
    case k
    have "db_writers (ws_db s\<lparr>db_writers := rest, db_signalled := S\<rparr>) = rest" for S by simp
    then show ?thesis using k Write_leave_self [OF assms(2)] by auto
  qed
qed

text \<open>Two writers entering an empty queue.\<close>

definition ex_db :: "(int, unit, unit) db" where
  "ex_db = \<lparr>db_versions = \<lparr>vs_files = \<lparr>fs_at = \<lambda>_. None, fs_next = 0\<rparr>, vs_versions = \<lambda>_. None,
        vs_next_version = 0, vs_next_file_number = 2, vs_manifest_file_number = 1, vs_last_sequence = 0,
        vs_log_number = 0, vs_prev_log_number = 0, vs_descriptor_file = None, vs_descriptor_log = None,
        vs_dummy = 0, vs_current = None, vs_compact_pointer = []\<rparr>,
      db_memtables = \<lambda>_. None, db_next_mem = 0, db_mem = None, db_imm = None, db_has_imm = False,
      db_logfile = None, db_logfile_number = 0, db_log = None, db_writers = [], db_writer = \<lambda>_. None,
      db_signalled = {}, db_batches = \<lambda>_. None, db_tmp_batch = 0, db_pending_outputs = {},
      db_background_compaction_scheduled = False, db_bg_error = Status_default,
      db_shutting_down = False, db_manual_compaction = False, db_world = ()\<rparr>"

definition ex_sys :: "(int, unit, unit) wsys" where
  "ex_sys = \<lparr>ws_db = ex_db, ws_phase = \<lambda>_. Absent, ws_entered = [], ws_left = []\<rparr>"

definition ex_enter :: "nat \<Rightarrow> (int, unit, unit) wsys \<Rightarrow> (int, unit, unit) wsys" where
  "ex_enter w s = s\<lparr>ws_db := Write_enter w None False (ws_db s), ws_phase := (ws_phase s)(w := Entered),
     ws_entered := ws_entered s @ [w]\<rparr>"

lemma ex_reach: "wreach (ex_enter 4 (ex_enter 3 ex_sys))"
proof -
  have "wreach ex_sys" by (rule wreach.init) (simp add: winit_def ex_sys_def ex_db_def)
  moreover have "wstep ex_sys (ex_enter 3 ex_sys)"
    unfolding ex_enter_def by (rule wstep.enter) (simp add: ex_sys_def)
  moreover have "wstep (ex_enter 3 ex_sys) (ex_enter 4 (ex_enter 3 ex_sys))"
    unfolding ex_enter_def by (rule wstep.enter) (simp add: ex_sys_def)
  ultimately show ?thesis by (blast intro: wreach.step)
qed

theorem Write_queue_exclusive_fifo_witness:
  "db_writers (ws_db (ex_enter 4 (ex_enter 3 ex_sys))) = [3, 4] \<and>
   ws_entered (ex_enter 4 (ex_enter 3 ex_sys)) =
     ws_left (ex_enter 4 (ex_enter 3 ex_sys)) @ db_writers (ws_db (ex_enter 4 (ex_enter 3 ex_sys)))"
  using Write_queue_exclusive_fifo [OF ex_reach]
  by (simp add: ex_enter_def Write_enter_def ex_sys_def ex_db_def)

theorem Write_queue_progress_witness:
  "ws_phase (ex_enter 4 (ex_enter 3 ex_sys)) 3 = Entered \<and>
   Write_waits 3 (ws_db (ex_enter 4 (ex_enter 3 ex_sys))) = Inr False"
proof -
  have "db_writers (ws_db (ex_enter 4 (ex_enter 3 ex_sys))) = [3, 4]"
    by (simp add: ex_enter_def Write_enter_def ex_sys_def ex_db_def)
  from Write_queue_progress [OF ex_reach this] show ?thesis
    by (auto simp: ex_enter_def ex_sys_def)
qed

end
