(* ===== verification/Background.thy ===== *)
theory Background
  imports DbImpl
begin

text \<open>
  The scheduling of background work as a transition system. The environment keeps the calls of
  \<open>BGWork\<close> that are scheduled and not begun, and runs them on threads of its own; a
  \<open>BackgroundCall\<close> releases the mutex while it compacts, so it is a step that begins it and a
  step that ends it, and clients of the database come in between.
\<close>

record ('d, 'm, 'w) bsys =
  bs_db :: "('d, 'm, 'w) db"
  bs_running :: nat

text \<open>
  The documented behaviour of \<open>Env::Schedule\<close>: one more call is pending; \<open>calls\<close> reads their
  number off the world. Signalling a condition variable does not change it.
\<close>

definition counts_calls :: "('d, 'm, 'i, 'w) db_ops \<Rightarrow> ('w \<Rightarrow> nat) \<Rightarrow> bool" where
  "counts_calls ops calls \<longleftrightarrow>
     (\<forall>w. calls (op_Schedule ops w) = Suc (calls w)) \<and> (\<forall>w. calls (op_SignalAll ops w) = calls w)"

text \<open>
  \<open>client\<close>: any change to the database that is not a call of \<open>MaybeScheduleCompaction\<close>: writes,
  flushes, errors, the work of a compaction itself. \<open>maybe\<close>: a call of it (by \<open>Get\<close>,
  \<open>MakeRoomForWrite\<close>). \<open>start\<close> and \<open>finish\<close>: \<open>BackgroundCall\<close> on a thread of the environment.
\<close>

inductive bstep ::
  "(status \<Rightarrow> bool) \<Rightarrow> ('d, 'm, 'i, 'w) db_ops \<Rightarrow> ('w \<Rightarrow> nat) \<Rightarrow> ('d, 'm, 'w) bsys
   \<Rightarrow> ('d, 'm, 'w) bsys \<Rightarrow> bool" for ok ops calls where
  client: "db_background_compaction_scheduled db' = db_background_compaction_scheduled (bs_db s) \<Longrightarrow>
    calls (db_world db') = calls (db_world (bs_db s)) \<Longrightarrow> bstep ok ops calls s (s\<lparr>bs_db := db'\<rparr>)"
| maybe: "bstep ok ops calls s (s\<lparr>bs_db := MaybeScheduleCompaction ok ops (bs_db s)\<rparr>)"
| start: "calls (db_world (bs_db s)) = Suc (calls w) \<Longrightarrow>
    BackgroundCall_works ok (bs_db s) = Inr works \<Longrightarrow>
    bstep ok ops calls s (s\<lparr>bs_db := (bs_db s)\<lparr>db_world := w\<rparr>, bs_running := Suc (bs_running s)\<rparr>)"
| finish: "bs_running s = Suc n \<Longrightarrow>
    bstep ok ops calls s (s\<lparr>bs_db := BackgroundCall_end ok ops (bs_db s), bs_running := n\<rparr>)"

inductive breach ::
  "(status \<Rightarrow> bool) \<Rightarrow> ('d, 'm, 'i, 'w) db_ops \<Rightarrow> ('w \<Rightarrow> nat) \<Rightarrow> ('d, 'm, 'w) bsys \<Rightarrow> bool"
  for ok ops calls where
  init: "\<not> db_background_compaction_scheduled (bs_db s) \<Longrightarrow> calls (db_world (bs_db s)) = 0 \<Longrightarrow>
    bs_running s = 0 \<Longrightarrow> breach ok ops calls s"
| step: "breach ok ops calls s \<Longrightarrow> bstep ok ops calls s s' \<Longrightarrow> breach ok ops calls s'"

inductive_cases bstepE: "bstep ok ops calls s s'"

text \<open>The flag is set exactly while one call is pending or running.\<close>

definition binv :: "('w \<Rightarrow> nat) \<Rightarrow> ('d, 'm, 'w) bsys \<Rightarrow> bool" where
  "binv calls s \<longleftrightarrow> calls (db_world (bs_db s)) + bs_running s =
     (if db_background_compaction_scheduled (bs_db s) then 1 else 0)"

lemma binv_maybe:
  assumes "counts_calls ops calls"
    and "calls (db_world db) + n = (if db_background_compaction_scheduled db then 1 else 0)"
  shows "calls (db_world (MaybeScheduleCompaction ok ops db)) + n =
    (if db_background_compaction_scheduled (MaybeScheduleCompaction ok ops db) then 1 else 0)"
  using assms by (auto simp: MaybeScheduleCompaction_def upd_world_def counts_calls_def)

lemma binv_step: "counts_calls ops calls \<Longrightarrow> bstep ok ops calls s s' \<Longrightarrow> binv calls s \<Longrightarrow> binv calls s'"
proof (erule bstepE)
  assume "counts_calls ops calls" "binv calls s" "s' = s\<lparr>bs_db := MaybeScheduleCompaction ok ops (bs_db s)\<rparr>"
  then show "binv calls s'" using binv_maybe [of ops calls "bs_db s" "bs_running s"] by (simp add: binv_def)
next
  fix n
  assume ops: "counts_calls ops calls" and inv: "binv calls s" and n: "bs_running s = Suc n"
    and s': "s' = s\<lparr>bs_db := BackgroundCall_end ok ops (bs_db s), bs_running := n\<rparr>"
  let ?db = "(bs_db s)\<lparr>db_background_compaction_scheduled := False\<rparr>"
  have z: "n = 0 \<and> calls (db_world (bs_db s)) = 0" using inv n by (auto simp: binv_def split: if_splits)
  then have "calls (db_world (MaybeScheduleCompaction ok ops ?db)) + 0 =
      (if db_background_compaction_scheduled (MaybeScheduleCompaction ok ops ?db) then 1 else 0)"
    by (intro binv_maybe [OF ops]) simp
  then show "binv calls s'"
    using z ops by (simp add: s' binv_def BackgroundCall_end_def upd_world_def counts_calls_def)
qed (auto simp: binv_def)

lemma binv_reach:
  assumes "counts_calls ops calls" and "breach ok ops calls s"
  shows "binv calls s"
  using assms(2)
proof induction
  case (init s)
  then show ?case by (simp add: binv_def)
next
  case (step s s')
  then show ?case using binv_step [OF assms(1)] by blast
qed

text \<open>C28: at most one background compaction is scheduled or running at any time, exactly when
  \<open>background_compaction_scheduled_\<close> is set, so the assert at the start of \<open>BackgroundCall\<close>
  never fails, whatever clients do in between.\<close>

theorem Background_single:
  assumes "counts_calls ops calls" and "breach ok ops calls s"
  shows "calls (db_world (bs_db s)) + bs_running s \<le> 1 \<and>
    (db_background_compaction_scheduled (bs_db s) \<longleftrightarrow> calls (db_world (bs_db s)) + bs_running s = 1) \<and>
    (0 < calls (db_world (bs_db s)) + bs_running s \<longrightarrow>
       (\<exists>works. BackgroundCall_works ok (bs_db s) = Inr works))"
  using binv_reach [OF assms]
  by (auto simp: binv_def BackgroundCall_works_def cpp_assert_def split: if_splits)

end
