(* ===== verification/DbRead.thy ===== *)
theory DbRead
  imports DbImpl
begin

text \<open>
  \<open>DBImpl::Get\<close>, \<open>Recover\<close> and \<open>DB::Open\<close>. \<open>LookupKey\<close> and \<open>MemTable::Get\<close> are not in the
  repository: fields of \<open>read_ops\<close>; \<open>ForEachOverlapping\<close> reads the files of the version. A snapshot is its sequence number.
\<close>

section \<open>Get\<close>

record ('d, 'm, 'k, 'w) read_ops =
  rd_LookupKey :: "slice \<Rightarrow> u64 \<Rightarrow> 'k"
  rd_user_key :: "'k \<Rightarrow> slice"
  rd_internal_key :: "'k \<Rightarrow> slice"
  rd_mem_Get :: "'m \<Rightarrow> 'k \<Rightarrow> string \<Rightarrow> status \<Rightarrow> bool \<times> string \<times> status"
  rd_table_get :: "'w table_get"
  rd_ForEachOverlapping :: "nat list list \<Rightarrow> fstore \<Rightarrow> 'w get_state for_each"
  rd_UpdateStats :: "nat \<Rightarrow> get_stats \<Rightarrow> ('d, 'm, 'w) db \<Rightarrow> bool \<times> ('d, 'm, 'w) db"

text \<open>\<open>imm->Get\<close> is called only when \<open>imm\<close> is not null.\<close>

definition Get_imm ::
  "('d, 'm, 'k, 'w) read_ops \<Rightarrow> nat option \<Rightarrow> 'k \<Rightarrow> string \<Rightarrow> status \<Rightarrow> ('d, 'm, 'w) db
   \<Rightarrow> (bool \<times> string \<times> status) outcome" where
  "Get_imm rd imm lkey value s db =
     (case imm of
        None \<Rightarrow> Inr (False, value, s)
      | Some a \<Rightarrow> obind (deref_mem (db_memtables db) a) (\<lambda>m. Inr (rd_mem_Get rd (mt_table m) lkey value s)))"

text \<open>Lines 409-417: the result is the status, the value, and the statistics of a file lookup.\<close>

definition Get_lookup ::
  "(status \<Rightarrow> bool) \<Rightarrow> ('d, 'm, 'k, 'w) read_ops \<Rightarrow> nat \<Rightarrow> nat option \<Rightarrow> nat \<Rightarrow> 'k \<Rightarrow> string
   \<Rightarrow> ('d, 'm, 'w) db \<Rightarrow> (status \<times> string \<times> get_stats option \<times> ('d, 'm, 'w) db) outcome" where
  "Get_lookup ok rd mem imm current lkey value db =
     obind (deref_mem (db_memtables db) mem) (\<lambda>m.
     let (found, value, s) = rd_mem_Get rd (mt_table m) lkey value Status_default
     in if found then Inr (s, value, None, db)
        else obind (Get_imm rd imm lkey value s db) (\<lambda>(found, value, s).
          if found then Inr (s, value, None, db)
          else
            obind (deref_version (db_versions db) current) (\<lambda>ver.
            let fs = vs_files (db_versions db)
            in obind (Version_Get ok (rd_table_get rd) (rd_ForEachOverlapping rd (v_files ver) fs) fs
                 (rd_user_key rd lkey) (rd_internal_key rd lkey) value (db_world db))
                 (\<lambda>(s, value, stats, w). Inr (s, value, Some stats, db\<lparr>db_world := w\<rparr>)))))"

definition ref_imm ::
  "(nat \<Rightarrow> 'm memtables \<Rightarrow> 'm memtables outcome) \<Rightarrow> nat option \<Rightarrow> ('d, 'm, 'w) db
   \<Rightarrow> ('d, 'm, 'w) db outcome" where
  "ref_imm f imm s = (case imm of None \<Rightarrow> Inr s | Some a \<Rightarrow> lift_memtables (f a) s)"

definition DBImpl_Get ::
  "(status \<Rightarrow> bool) \<Rightarrow> ('d, 'm, 'i, 'w) db_ops \<Rightarrow> ('d, 'm, 'k, 'w) read_ops \<Rightarrow> u64 option \<Rightarrow> slice
   \<Rightarrow> string \<Rightarrow> ('d, 'm, 'w) db \<Rightarrow> (status \<times> string \<times> ('d, 'm, 'w) db) outcome" where
  "DBImpl_Get ok ops rd snapshot key value s =
     (let snapshot = (case snapshot of Some n \<Rightarrow> n | None \<Rightarrow> vs_last_sequence (db_versions s));
          imm = db_imm s
      in obind (nonnull (db_mem s)) (\<lambda>mem.
         obind (nonnull (vs_current (db_versions s))) (\<lambda>current.
         obind (lift_memtables (MemTable_Ref mem) s) (\<lambda>s.
         obind (ref_imm MemTable_Ref imm s) (\<lambda>s.
         obind (lift_versions (vo_Ref (op_vs ops) current) s) (\<lambda>s.
         let s = op_Unlock ops s
         in obind (Get_lookup ok rd mem imm current (rd_LookupKey rd key snapshot) value s)
              (\<lambda>(st, value, stats, s).
            let s = op_Lock ops s;
                s = (case stats of
                       None \<Rightarrow> s
                     | Some g \<Rightarrow> (let (b, s) = rd_UpdateStats rd current g s
                                  in if b then MaybeScheduleCompaction ok ops s else s))
            in obind (lift_memtables (MemTable_Unref mem) s) (\<lambda>s.
               obind (ref_imm MemTable_Unref imm s) (\<lambda>s.
               obind (lift_versions (vo_Unref (op_vs ops) current) s) (\<lambda>s.
                 Inr (st, value, s)))))))))))"

section \<open>Open\<close>

definition DBImpl_Recover :: "version_edit \<Rightarrow> bool \<Rightarrow> status \<times> version_edit \<times> bool" where
  "DBImpl_Recover edit save_manifest = (Status_OK, edit, save_manifest)"

text \<open>
  \<open>DB::Open\<close>: it returns on line 36, with a database whose members no constructor has set.
  The result is the status and \<open>*dbptr\<close>.
\<close>

definition DB_Open :: "nat \<Rightarrow> status \<times> nat option" where
  "DB_Open new_impl = (Status_default, Some new_impl)"

text \<open>
  Lines 38-74, after the return: what \<open>Open\<close> does once these lines are reached, for a database
  \<open>s\<close> just constructed. \<open>LogAndApply\<close> is commented out on line 66.
\<close>

definition DB_Open_log ::
  "(status \<Rightarrow> bool) \<Rightarrow> ('d, 'm, 'i, 'w) db_ops \<Rightarrow> version_edit \<Rightarrow> status \<Rightarrow> ('d, 'm, 'w) db
   \<Rightarrow> (status \<times> version_edit \<times> ('d, 'm, 'w) db) outcome" where
  "DB_Open_log ok ops edit st s =
     (if ok st \<and> db_mem s = None then
        let (new_log_number, vs) = NewFileNumber (db_versions s);
            s = s\<lparr>db_versions := vs\<rparr>
        in obind (LogFileName (op_dbname ops) new_log_number) (\<lambda>fname.
           let (st, lfile, w) = vo_NewWritableFile (op_vs ops) fname (db_world s);
               s = s\<lparr>db_world := w\<rparr>
           in if \<not> ok st then Inr (st, edit, s)
              else
                let a = db_next_mem s;
                    s = s\<lparr>db_logfile := lfile, db_logfile_number := new_log_number, db_log := lfile,
                          db_memtables := (db_memtables s)(a \<mapsto> MemTable (op_empty_table ops)),
                          db_next_mem := Suc a, db_mem := Some a\<rparr>
                in obind (lift_memtables (MemTable_Ref a) s) (\<lambda>s.
                     Inr (st, SetLogNumber new_log_number edit, s)))
      else Inr (st, edit, s))"

definition DB_Open_real ::
  "(status \<Rightarrow> bool) \<Rightarrow> ('d, 'm, 'i, 'w) db_ops \<Rightarrow> nat \<Rightarrow> ('d, 'm, 'w) db
   \<Rightarrow> (status \<times> version_edit \<times> nat option \<times> ('d, 'm, 'w) db) outcome" where
  "DB_Open_real ok ops impl s =
     (let s = op_Lock ops s;
          (st, edit, save_manifest) = DBImpl_Recover VersionEdit False
      in obind (DB_Open_log ok ops edit st s) (\<lambda>(st, edit, s).
         let edit = (if ok st \<and> save_manifest
                     then SetLogNumber (db_logfile_number s) (SetPrevLogNumber 0 edit) else edit)
         in if ok st then
              obind (cpp_assert (db_mem s \<noteq> None)) (\<lambda>_. Inr (st, edit, Some impl, s))
            else Inr (st, edit, None, s)))"

end
