(* ===== verification/DbExample.thy ===== *)
theory DbExample
  imports WriteQueue Background DbRead VersionSetProps
begin

text \<open>
  An instance of the database for the properties: the version set of \<open>VersionBuilderProps\<close>, a
  memtable at address 0 and an immutable one at address 1, each a list of entries, and
  parameters that do what their documentation says in a single thread. The world is the list
  of calls made, a scheduled background call leaving the entry ''bg''.
\<close>

type_synonym entries = "(slice \<times> slice) list"

definition ex_state :: "(int, entries, string list) db" where
  "ex_state = \<lparr>db_versions = ex_vset,
      db_memtables = (\<lambda>a. if a = 0 then Some \<lparr>mt_refs = 1, mt_table = [(''a'', ''1'')]\<rparr>
        else if a = 1 then Some \<lparr>mt_refs = 1, mt_table = [(''b'', ''2'')]\<rparr> else None),
      db_next_mem = 2, db_mem = Some 0, db_imm = Some 1, db_has_imm = True,
      db_logfile = Some 0, db_logfile_number = 3, db_log = Some 0, db_writers = [7],
      db_writer = (\<lambda>w. if w = 7 then Some Writer else None),
      db_signalled = {}, db_batches = (\<lambda>b. if b = 5 then Some ''x'' else None), db_tmp_batch = 0,
      db_pending_outputs = {}, db_background_compaction_scheduled = False,
      db_bg_error = Status_default, db_shutting_down = False, db_manual_compaction = False,
      db_world = []\<rparr>"

definition ex_db_ops :: "(int, entries, entries, string list) db_ops" where
  "ex_db_ops = \<lparr>op_vs = ex_ops, op_doubles = ex_doubles, op_bt = ex_bt_ops,
      op_icmp = ikey_bytes_compare, op_comparator_name = ''cmp'', op_dbname = ''db'', op_kNumLevels = 2,
      op_ExtractUserKey = (\<lambda>k. k), op_PickLevelForMemtableOutput = (\<lambda>vs v a b. 0),
      op_NewMemIterator = (\<lambda>m. m), op_empty_table = [], op_NowMicros = (\<lambda>w. (0, w)),
      op_AddStats = (\<lambda>l t n w. w), op_Unlock = (\<lambda>s. s), op_Lock = (\<lambda>s. s), op_Sleep = (\<lambda>s. s),
      op_WaitBackground = (\<lambda>s. s), op_Schedule = (\<lambda>w. w @ [''bg'']), op_SignalAll = (\<lambda>w. w),
      op_NeedsCompaction = (\<lambda>vs. False), op_NumLevelFile = (\<lambda>vs l. 0),
      op_kL0_SlowdownWritesTrigger = 8, op_kL0_StopWritesTrigger = 12,
      op_ApproximateMemoryUsage = length, op_write_buffer_size = 4,
      op_PrevLogNumber = vs_prev_log_number, op_ReuseFileNumber = (\<lambda>n vs. vs),
      op_delete_log = (\<lambda>l w. w), op_RecordBackgroundError = (\<lambda>st s. s\<lparr>db_bg_error := st\<rparr>),
      op_RemoveObsoleteFiles = (\<lambda>s. s), op_others = (\<lambda>s. s)\<rparr>"

definition ex_read :: "(int, entries, slice, string list) read_ops" where
  "ex_read = \<lparr>rd_LookupKey = (\<lambda>k n. k), rd_user_key = (\<lambda>k. k), rd_internal_key = (\<lambda>k. k),
      rd_mem_Get = (\<lambda>m k v st. case map_of m k of None \<Rightarrow> (False, v, st) | Some x \<Rightarrow> (True, x, Status_default)),
      rd_table_get = (\<lambda>n sz ik sv w. Inr (Status_default, sv, w)),
      rd_ForEachOverlapping = (\<lambda>files fs uk ik func. visit func []),
      rd_UpdateStats = (\<lambda>c g s. (False, s))\<rparr>"

definition ex_batch :: "(int, entries, string list) batch_ops" where
  "ex_batch = \<lparr>ba_BuildBatchGroup = (\<lambda>n s. Inr (5, n, s)), ba_SetSequence = (\<lambda>r n. ''s'' @ r),
      ba_Count = (\<lambda>r. 3), ba_InsertInto = (\<lambda>r m. (Status_default, (''k'', r) # m)),
      ba_Clear = (\<lambda>r. ''''), ba_new_batch = '''', ba_Put = (\<lambda>k v r. r @ k @ v)\<rparr>"

definition ex_compaction :: compaction where
  "ex_compaction = \<lparr>cp_level = 1, cp_max_output_file_size = 0, cp_edit = VersionEdit,
      cp_inputs = [[0], []]\<rparr>"

definition ex_calls :: "string list \<Rightarrow> nat" where
  "ex_calls w = count_list w ''bg''"

lemma ex_counts_calls: "counts_calls ex_db_ops ex_calls"
  by (simp add: counts_calls_def ex_db_ops_def ex_calls_def)

end
