(* ===== verification/DbProps.thy ===== *)
theory DbProps
  imports DbExample
begin

text \<open>
  Properties of \<open>DBImpl\<close>: flushing a memtable, making room, the scheduling of background work
  as a transition system, the edit of a trivial move, reads, and what one write does.
\<close>

section \<open>Flushing a memtable\<close>

text \<open>\<open>WriteLevel0Table\<close> never adds a file to the edit, whatever the memtable holds and
  whatever the environment does: \<open>BuildTable\<close> reports file size 0. So a flush that counts as
  successful makes \<open>CompactMemtable\<close> drop the memtable with no table in its place.\<close>

theorem WriteLevel0Table_adds_nothing:
  assumes "WriteLevel0Table ok ops garbage mem edit base s = Some (Inr (st, edit', s'))"
  shows "edit' = edit"
proof -
  obtain st0 meta w s1 m0 it w0 micros b where
    build: "BuildTable ok (op_bt ops) (op_dbname ops) it m0 w0 = Some (Inr (st0, meta, w))" and
    res: "WriteLevel0Table_end ok ops edit b micros st0 meta s1 = (st, edit', s')"
    using assms
    by (auto simp: WriteLevel0Table_def Let_def rbind_def case_prod_beta split: option.splits sum.splits)
  have "fm_file_size meta = 0" using BuildTable_result [OF build] by simp
  then show ?thesis using res by (auto simp: WriteLevel0Table_end_def Let_def case_prod_beta)
qed

section \<open>Making room\<close>


section \<open>Trivial moves\<close>

text \<open>The edit of a trivial move, on a compaction whose own edit is empty, takes the number of
  the input file off its level, adds it to the next one and changes no other level.\<close>

theorem trivial_move_moves:
  assumes "trivial_move_edit fs c = Inr edit" and "0 \<le> cp_level c"
    and "ve_deleted_files (cp_edit c) = []" and "ve_new_files (cp_edit c) = []"
  shows "\<exists>p. cp_inputs c ! 0 = [p] \<and> (\<forall>i S. edit_numbers i edit S =
    (if int i = cp_level c then S - {fm_number (fm fs p)}
     else if int i = cp_level c + 1 then insert (fm_number (fm fs p)) S else S))"
proof -
  obtain p f where p: "cp_inputs c ! 0 = [p]" "fs_at fs p = Some f" and
    edit: "edit = AddFile 0 (cp_level c + 1) (fm_number f) (fm_file_size f) (fm_smallest f) (fm_largest f)
      (RemoveFile (cp_level c) (fm_number f) (cp_edit c))"
    using assms(1)
    by (cases "cp_inputs c ! 0") (auto simp: trivial_move_edit_def num_input_files_def Compaction_input_def
        at_level_def obind_eq_Inr deref_def Compaction_level_def Compaction_edit_def cpp_assert_def Let_def
        split: if_splits option.splits)
  have "set (ve_deleted_files edit) = {(cp_level c, fm_number f)}"
    using assms(3) set_RemoveFile [of "cp_level c" "fm_number f" "cp_edit c"]
    by (simp add: edit AddFile_def Let_def)
  moreover have "ve_new_files edit = [(cp_level c + 1, (FileMetaData 0)\<lparr>fm_number := fm_number f,
      fm_file_size := fm_file_size f, fm_smallest := fm_smallest f, fm_largest := fm_largest f\<rparr>)]"
    using assms(4) by (simp add: edit AddFile_def RemoveFile_def Let_def)
  ultimately show ?thesis
    using p by (auto simp: edit_numbers_def new_numbers_def)
qed

section \<open>Reads\<close>

lemma mem_ref_unref:
  assumes "ms a = Some m" and "0 < mt_refs m"
  shows "MemTable_Ref a ms = Inr (ms(a \<mapsto> m\<lparr>mt_refs := mt_refs m + 1\<rparr>))"
    and "MemTable_Unref a (ms(a \<mapsto> m\<lparr>mt_refs := mt_refs m + 1\<rparr>)) = Inr ms"
  using assms by (simp_all add: MemTable_Ref_def MemTable_Unref_def deref_mem_def Let_def fun_upd_idem)

text \<open>What \<open>Get\<close> answers: the memtable first, then the immutable one, then the files.\<close>

definition imm_table :: "('d, 'm, 'w) db \<Rightarrow> 'm option" where
  "imm_table s = Option.bind (db_imm s) (\<lambda>b. map_option mt_table (db_memtables s b))"

definition Get_answer ::
  "(status \<Rightarrow> bool) \<Rightarrow> ('d, 'm, 'k, 'w) read_ops \<Rightarrow> 'm \<Rightarrow> 'm option \<Rightarrow> 'd version \<Rightarrow> 'k \<Rightarrow> string
   \<Rightarrow> ('d, 'm, 'w) db \<Rightarrow> (status \<times> string \<times> 'w) outcome" where
  "Get_answer ok rd mem imm ver k value s =
     (let (found, v, st) = rd_mem_Get rd mem k value Status_default
      in if found then Inr (st, v, db_world s)
         else let (found, v, st) = (case imm of None \<Rightarrow> (False, v, st) | Some t \<Rightarrow> rd_mem_Get rd t k v st)
           in if found then Inr (st, v, db_world s)
              else let fs = vs_files (db_versions s)
                in obind (Version_Get ok (rd_table_get rd) (rd_ForEachOverlapping rd (v_files ver) fs) fs
                     (rd_user_key rd k) (rd_internal_key rd k) v (db_world s))
                     (\<lambda>(st, v, _, w). Inr (st, v, w)))"

text \<open>The references taken and given back, with and without an immutable memtable.\<close>

lemma imm_ref_unref:
  fixes s :: "('d, 'm, 'w) db"
  assumes "db_mem s = Some a" and "db_memtables s a = Some m" and "0 < mt_refs m"
    and "\<And>b. db_imm s = Some b \<Longrightarrow> b \<noteq> a \<and> (\<exists>mi. db_memtables s b = Some mi \<and> 0 < mt_refs mi)"
  obtains ms where
    "lift_memtables (MemTable_Ref a) s =
      Inr (s\<lparr>db_memtables := (db_memtables s)(a \<mapsto> m\<lparr>mt_refs := mt_refs m + 1\<rparr>)\<rparr>)"
    and "ref_imm MemTable_Ref (db_imm s)
      (s\<lparr>db_memtables := (db_memtables s)(a \<mapsto> m\<lparr>mt_refs := mt_refs m + 1\<rparr>)\<rparr>) =
      Inr (s\<lparr>db_memtables := ms\<rparr>)"
    and "map_option mt_table (ms a) = Some (mt_table m)"
    and "\<And>b. db_imm s = Some b \<Longrightarrow> map_option mt_table (ms b) = imm_table s"
    and "\<And>t :: ('d, 'm, 'w) db. db_memtables t = ms \<Longrightarrow> obind (lift_memtables (MemTable_Unref a) t) (ref_imm MemTable_Unref (db_imm s)) =
      Inr (t\<lparr>db_memtables := db_memtables s\<rparr>)"
proof -
  let ?ms = "db_memtables s"
  let ?ms1 = "?ms(a \<mapsto> m\<lparr>mt_refs := mt_refs m + 1\<rparr>)"
  note mems = mem_ref_unref [where ms = ?ms and a = a and m = m, OF assms(2,3)]
  show thesis
  proof (cases "db_imm s")
    case None
    show thesis
      by (rule that [of ?ms1]) (use None mems in \<open>simp_all add: lift_memtables_def ref_imm_def\<close>)
  next
    case (Some b)
    then obtain mi where b: "b \<noteq> a" "?ms b = Some mi" "0 < mt_refs mi" using assms(4) by blast
    let ?ms2 = "?ms1(b \<mapsto> mi\<lparr>mt_refs := mt_refs mi + 1\<rparr>)"
    let ?ms3 = "?ms(b \<mapsto> mi\<lparr>mt_refs := mt_refs mi + 1\<rparr>)"
    have "MemTable_Ref b ?ms1 = Inr ?ms2" using mem_ref_unref(1) [of ?ms1 b mi] b by simp
    moreover have "MemTable_Unref a ?ms2 = Inr ?ms3"
      using mem_ref_unref(2) [of ?ms3 a m] b assms by (simp add: fun_upd_twist)
    moreover have "MemTable_Unref b ?ms3 = Inr ?ms" using mem_ref_unref(2) [of ?ms b mi] b by simp
    ultimately show thesis
      by (intro that [of ?ms2])
        (use Some b mems in \<open>simp_all add: lift_memtables_def ref_imm_def imm_table_def\<close>)
  qed
qed

lemma Get_lookup_answer:
  assumes d: "deref_mem (db_memtables t) a = Inr m'" "mt_table m' = x"
      "deref_version (db_versions t) c = Inr ver'" "v_files ver' = v_files ver"
      "vs_files (db_versions t) = vs_files (db_versions s)" "db_world t = db_world s"
    and i: "\<And>v st. Get_imm rd imm k v st t = Inr (case im of None \<Rightarrow> (False, v, st) | Some y \<Rightarrow> rd_mem_Get rd y k v st)"
  shows "case Get_answer ok rd x im ver k value s of
      Inl e \<Rightarrow> Get_lookup ok rd a imm c k value t = Inl e
    | Inr (st, v, w) \<Rightarrow> \<exists>g. Get_lookup ok rd a imm c k value t = Inr (st, v, g, t\<lparr>db_world := w\<rparr>)"
proof -
  obtain f1 v1 st1 where 1: "rd_mem_Get rd x k value Status_default = (f1, v1, st1)"
    by (cases "rd_mem_Get rd x k value Status_default")
  obtain f2 v2 st2 where 2: "(case im of None \<Rightarrow> (False, v1, st1) | Some y \<Rightarrow> rd_mem_Get rd y k v1 st1) = (f2, v2, st2)"
    by (metis prod_cases3)
  have w: "t\<lparr>db_world := db_world s\<rparr> = t" by (simp flip: d(6))
  show ?thesis
    by (cases f1; cases f2; cases "Version_Get ok (rd_table_get rd)
        (rd_ForEachOverlapping rd (v_files ver) (vs_files (db_versions s))) (vs_files (db_versions s))
        (rd_user_key rd k) (rd_internal_key rd k) v2 (db_world s)")
      (simp_all add: Get_lookup_def Get_answer_def d 1 2 i w Let_def split: prod.splits)
qed

lemma DBImpl_Get_order_result:
  fixes s :: "('d, 'm, 'w) db"
  assumes "Ref_increments (vo_Ref (op_vs ops))" and "Unref_decrements (vo_Unref (op_vs ops))"
    and "db_mem s = Some a" and "db_memtables s a = Some m" and "0 < mt_refs m"
    and "\<And>b. db_imm s = Some b \<Longrightarrow> b \<noteq> a \<and> (\<exists>mi. db_memtables s b = Some mi \<and> 0 < mt_refs mi)"
    and "vs_current (db_versions s) = Some c" and "vs_versions (db_versions s) c = Some ver"
    and "0 < v_refs ver"
    and "op_Unlock ops = (\<lambda>t. t)" and "op_Lock ops = (\<lambda>t. t)"
    and "rd_UpdateStats rd c = (\<lambda>g t. (False, t))"
  shows "DBImpl_Get ok ops rd snapshot key value s =
    obind (Get_answer ok rd (mt_table m) (imm_table s) ver
        (rd_LookupKey rd key (case snapshot of Some n \<Rightarrow> n | None \<Rightarrow> vs_last_sequence (db_versions s))) value s)
      (\<lambda>(st, v, w). Inr (st, v, s\<lparr>db_world := w\<rparr>))"
proof -
  let ?k = "rd_LookupKey rd key (case snapshot of Some n \<Rightarrow> n | None \<Rightarrow> vs_last_sequence (db_versions s))"
  let ?vs = "db_versions s"
  let ?vs1 = "store_version c (ver\<lparr>v_refs := v_refs ver + 1\<rparr>) ?vs"
  obtain ms where ms: "lift_memtables (MemTable_Ref a) s =
      Inr (s\<lparr>db_memtables := (db_memtables s)(a \<mapsto> m\<lparr>mt_refs := mt_refs m + 1\<rparr>)\<rparr>)"
    "ref_imm MemTable_Ref (db_imm s)
      (s\<lparr>db_memtables := (db_memtables s)(a \<mapsto> m\<lparr>mt_refs := mt_refs m + 1\<rparr>)\<rparr>) =
      Inr (s\<lparr>db_memtables := ms\<rparr>)"
    "map_option mt_table (ms a) = Some (mt_table m)"
    "\<And>b. db_imm s = Some b \<Longrightarrow> map_option mt_table (ms b) = imm_table s"
    "\<And>t :: ('d, 'm, 'w) db. db_memtables t = ms \<Longrightarrow> obind (lift_memtables (MemTable_Unref a) t) (ref_imm MemTable_Unref (db_imm s)) =
      Inr (t\<lparr>db_memtables := db_memtables s\<rparr>)"
    using imm_ref_unref [OF assms(3-6)] by metis
  let ?s1 = "s\<lparr>db_memtables := ms, db_versions := ?vs1\<rparr>"
  have vers: "vo_Ref (op_vs ops) c ?vs = Inr ?vs1" "vo_Unref (op_vs ops) c ?vs1 = Inr ?vs"
    using assms(1,2,8,9) by (simp_all add: Ref_increments_def Unref_decrements_def store_version_def fun_upd_idem)
  obtain m' where m': "ms a = Some m'" "mt_table m' = mt_table m" using ms(3) by auto
  have imm: "Get_imm rd (db_imm s) k v st ?s1 =
      Inr (case imm_table s of None \<Rightarrow> (False, v, st) | Some t \<Rightarrow> rd_mem_Get rd t k v st)" for k v st
  proof (cases "db_imm s")
    case (Some b)
    then obtain mi where "db_memtables s b = Some mi" using assms(6) by blast
    with Some ms(4) [OF Some] show ?thesis by (auto simp: Get_imm_def deref_mem_def imm_table_def)
  qed (simp add: Get_imm_def imm_table_def)
  have look: "case Get_answer ok rd (mt_table m) (imm_table s) ver ?k value s of
      Inl e \<Rightarrow> Get_lookup ok rd a (db_imm s) c ?k value ?s1 = Inl e
    | Inr (st, v, w) \<Rightarrow> \<exists>g. Get_lookup ok rd a (db_imm s) c ?k value ?s1 = Inr (st, v, g, ?s1\<lparr>db_world := w\<rparr>)"
  proof (rule Get_lookup_answer [where m' = m' and ver' = "ver\<lparr>v_refs := v_refs ver + 1\<rparr>"])
    show "\<And>v st. Get_imm rd (db_imm s) ?k v st ?s1 =
        Inr (case imm_table s of None \<Rightarrow> (False, v, st) | Some t \<Rightarrow> rd_mem_Get rd t ?k v st)" by (rule imm)
  qed (use m' in \<open>simp_all add: deref_mem_def deref_version_def store_version_def\<close>)
  show ?thesis
  proof (cases "Get_answer ok rd (mt_table m) (imm_table s) ver ?k value s")
    case (Inl e)
    then show ?thesis
      using look ms(1,2) vers assms(3,7,10)
      by (simp add: DBImpl_Get_def nonnull_def lift_versions_def Let_def)
  next
    case (Inr r)
    obtain st v w where r: "r = (st, v, w)" by (cases r)
    obtain g where g: "Get_lookup ok rd a (db_imm s) c ?k value ?s1 = Inr (st, v, g, ?s1\<lparr>db_world := w\<rparr>)"
      using look Inr r by auto
    have rel: "obind (lift_memtables (MemTable_Unref a) (?s1\<lparr>db_world := w\<rparr>)) (\<lambda>t.
        obind (ref_imm MemTable_Unref (db_imm s) t) G) = G (s\<lparr>db_versions := ?vs1, db_world := w\<rparr>)"
      for G :: "_ \<Rightarrow> (status \<times> string \<times> _) outcome"
      using ms(5) [of "?s1\<lparr>db_world := w\<rparr>"] by (simp flip: obind_assoc)
    show ?thesis
      using Inr r g ms(1,2) vers assms(3,7,10,11,12)
      by (cases g) (simp_all add: DBImpl_Get_def nonnull_def lift_versions_def Let_def rel)
  qed
qed


section \<open>Instances\<close>

lemma ex_flush: "case WriteLevel0Table Status_ok ex_db_ops 0 1 ex_edit (Some 1) ex_state of
    Some (Inr (st, edit', s')) \<Rightarrow> st = Status_default \<and> db_world s' = [''new'', ''b'', ''finish'', ''remove'']
  | _ \<Rightarrow> False"
  by code_simp

theorem WriteLevel0Table_adds_nothing_witness:
  "\<exists>s'. WriteLevel0Table Status_ok ex_db_ops 0 1 ex_edit (Some 1) ex_state =
      Some (Inr (Status_default, ex_edit, s')) \<and>
    db_world s' = [''new'', ''b'', ''finish'', ''remove'']"
proof -
  obtain edit' s' where run: "WriteLevel0Table Status_ok ex_db_ops 0 1 ex_edit (Some 1) ex_state =
      Some (Inr (Status_default, edit', s'))" "db_world s' = [''new'', ''b'', ''finish'', ''remove'']"
    using ex_flush by (auto split: option.splits sum.splits)
  from WriteLevel0Table_adds_nothing [OF run(1)] run show ?thesis by simp
qed


theorem trivial_move_moves_witness:
  "\<exists>edit. trivial_move_edit (vs_files ex_vset) ex_compaction = Inr edit \<and>
    (\<exists>p. cp_inputs ex_compaction ! 0 = [p] \<and> (\<forall>i S. edit_numbers i edit S =
      (if int i = 1 then S - {fm_number (fm (vs_files ex_vset) p)}
       else if int i = 2 then insert (fm_number (fm (vs_files ex_vset) p)) S else S)))"
proof -
  obtain edit where run: "trivial_move_edit (vs_files ex_vset) ex_compaction = Inr edit"
    by (simp add: trivial_move_edit_def ex_compaction_def num_input_files_def Compaction_input_def
        at_level_def ex_vset_def Let_def)
  have "0 \<le> cp_level ex_compaction" "ve_deleted_files (cp_edit ex_compaction) = []"
    "ve_new_files (cp_edit ex_compaction) = []"
    by (simp_all add: ex_compaction_def VersionEdit_def VersionEdit_Clear_def)
  from trivial_move_moves [OF run this] run show ?thesis by (simp add: ex_compaction_def)
qed


section \<open>One write\<close>

lemma Write_alone_result:
  assumes "db_writers s = []" and "ok (db_bg_error s)"
    and "db_batches s b = Some rep" and "b \<noteq> db_tmp_batch s"
    and "\<forall>t. ba_BuildBatchGroup ba n t = Inr (b, n, t)" and "n = vs_last_sequence (db_versions s)"
    and "op_Unlock ops = (\<lambda>t. t)" and "op_Lock ops = (\<lambda>t. t)"
    and "db_log s = Some l" and "db_mem s = Some a" and "db_memtables s a = Some m"
    and "rep' = ba_SetSequence ba rep (n + 1)"
    and "vo_AddRecord (op_vs ops) l rep' (db_world s) = (st, wd)"
  shows "\<exists>q bt. Write_alone ok ops ba w False (Some b) s =
      Some (Inr (if ok st then fst (ba_InsertInto ba rep' (mt_table m)) else st,
        s\<lparr>db_writer := q, db_batches := bt, db_world := wd,
          db_memtables := (if ok st then (db_memtables s)
            (a \<mapsto> m\<lparr>mt_table := snd (ba_InsertInto ba rep' (mt_table m))\<rparr>) else db_memtables s),
          db_versions := (db_versions s)\<lparr>vs_last_sequence := n + of_int (ba_Count ba rep')\<rparr>\<rparr>))"
proof -
  let ?s = "Write_enter w (Some b) False s"
  have s: "db_writers ?s = [w]" "db_bg_error ?s = db_bg_error s" "db_batches ?s = db_batches s"
    "db_versions ?s = db_versions s" "db_log ?s = Some l" "db_mem ?s = Some a"
    "db_memtables ?s = db_memtables s" "db_world ?s = db_world s" "db_tmp_batch ?s = db_tmp_batch s"
    using assms(1,9,10) by (simp_all add: Write_enter_def)
  have room: "MakeRoomForWrite ok ops False ?s = Some (Inr (db_bg_error s, ?s))"
    using s(1,2) assms(2) by (simp add: MakeRoomForWrite_def MakeRoom_loop.simps MakeRoom_round_def)
  have own: "deref_writer ?s w = Inr (Writer\<lparr>wr_batch := Some b, wr_sync := False, wr_done := False\<rparr>)"
    by (simp add: deref_writer_def Write_enter_def)
  obtain ist t where ins: "ba_InsertInto ba rep' (mt_table m) = (ist, t)"
    by (cases "ba_InsertInto ba rep' (mt_table m)")
  let ?s1 = "?s\<lparr>db_batches := (db_batches s)(b \<mapsto> rep')\<rparr>"
  let ?ms = "if ok st then (db_memtables s)(a \<mapsto> m\<lparr>mt_table := t\<rparr>) else db_memtables s"
  have log: "Write_log ok ops ba False rep' ?s1 =
      Inr (if ok st then ist else st, ?s1\<lparr>db_world := wd, db_memtables := ?ms\<rparr>)"
    using s assms(7,8,11,13) ins
    by (simp add: Write_log_def Write_sync_def Write_insert_def nonnull_def deref_mem_def Contents_def Let_def)
  let ?s2 = "?s1\<lparr>db_world := wd, db_memtables := ?ms,
    db_versions := (db_versions s)\<lparr>vs_last_sequence := n + of_int (ba_Count ba rep')\<rparr>\<rparr>"
  have commit: "Write_commit ok ops ba False (Some b) (db_bg_error s) ?s = Inr (if ok st then ist else st, ?s2)"
    using assms(2,3,4,5,6,12) s log by (simp add: Write_commit_def deref_batch_def Let_def)
  have leave: "Write_leave w w (if ok st then ist else st) ?s2 = Inr (?s2\<lparr>db_writers := []\<rparr>)"
    using s(1) by (simp add: Write_leave_def)
  have "Write_alone ok ops ba w False (Some b) s =
      Some (Inr (if ok st then ist else st, ?s2\<lparr>db_writers := []\<rparr>))"
    using own room commit leave by (simp add: Write_alone_def Write_run_def Writer_def)
  moreover have "?s2\<lparr>db_writers := []\<rparr> = s\<lparr>db_writer := db_writer ?s, db_batches := (db_batches s)(b \<mapsto> rep'),
      db_world := wd, db_memtables := ?ms,
      db_versions := (db_versions s)\<lparr>vs_last_sequence := n + of_int (ba_Count ba rep')\<rparr>\<rparr>"
    using assms(1) by (simp add: Write_enter_def)
  ultimately show ?thesis using ins by (metis (no_types) fst_conv snd_conv)
qed

text \<open>A write that finds the queue empty, with no background error and with a batch group that
  is its own batch, appends the batch's contents to the log with the sequence number after the
  last one, inserts exactly what it logged into the memtable when the log succeeded, advances
  the last sequence number by the number of entries, and leaves the queue empty. The result is
  the status of the log when that failed, of the insertion otherwise.\<close>

theorem Write_appends_batch:
  assumes "db_writers s = []" and "ok (db_bg_error s)"
    and "db_batches s b = Some rep" and "b \<noteq> db_tmp_batch s"
    and "\<forall>t. ba_BuildBatchGroup ba n t = Inr (b, n, t)" and "n = vs_last_sequence (db_versions s)"
    and "op_Unlock ops = (\<lambda>t. t)" and "op_Lock ops = (\<lambda>t. t)"
    and "db_log s = Some l" and "db_mem s = Some a" and "db_memtables s a = Some m"
    and "rep' = ba_SetSequence ba rep (n + 1)"
    and "vo_AddRecord (op_vs ops) l rep' (db_world s) = (st, wd)"
  shows "\<exists>s'. Write_alone ok ops ba w False (Some b) s =
      Some (Inr (if ok st then fst (ba_InsertInto ba rep' (mt_table m)) else st, s')) \<and>
    db_world s' = wd \<and> db_writers s' = [] \<and>
    vs_last_sequence (db_versions s') = n + of_int (ba_Count ba rep') \<and>
    db_memtables s' = (if ok st then (db_memtables s)
      (a \<mapsto> m\<lparr>mt_table := snd (ba_InsertInto ba rep' (mt_table m))\<rparr>) else db_memtables s)"
  using Write_alone_result [where ok = ok and w = w, OF assms] assms(1) by auto

theorem Write_appends_batch_witness:
  "\<exists>s'. Write_alone Status_ok ex_db_ops ex_batch 9 False (Some 5) (ex_state\<lparr>db_writers := []\<rparr>) =
      Some (Inr (Status_default, s')) \<and> db_world s' = [''sx''] \<and> db_writers s' = [] \<and>
    vs_last_sequence (db_versions s') = 3"
proof -
  have "\<exists>s'. Write_alone Status_ok ex_db_ops ex_batch 9 False (Some 5) (ex_state\<lparr>db_writers := []\<rparr>) =
      Some (Inr (if Status_ok Status_default then fst (ba_InsertInto ex_batch ''sx''
        (mt_table \<lparr>mt_refs = 1, mt_table = [(''a'', ''1'')]\<rparr>)) else Status_default, s')) \<and>
    db_world s' = [''sx''] \<and> db_writers s' = [] \<and>
    vs_last_sequence (db_versions s') = 0 + of_int (ba_Count ex_batch ''sx'') \<and>
    db_memtables s' = (if Status_ok Status_default then (db_memtables (ex_state\<lparr>db_writers := []\<rparr>))
      (0 \<mapsto> \<lparr>mt_refs = 1, mt_table = [(''a'', ''1'')]\<rparr>\<lparr>mt_table := snd (ba_InsertInto ex_batch ''sx''
        (mt_table \<lparr>mt_refs = 1, mt_table = [(''a'', ''1'')]\<rparr>))\<rparr>) else db_memtables (ex_state\<lparr>db_writers := []\<rparr>))"
    by (rule Write_appends_batch [where l = 0 and n = 0])
      (simp_all add: ex_state_def ex_vset_def ex_db_ops_def ex_batch_def ex_ops_def Status_ok_def)
  then show ?thesis by (auto simp: ex_batch_def Status_ok_def)
qed

theorem Background_single_witness:
  "ex_calls (db_world (bs_db \<lparr>bs_db = ex_state, bs_running = 0\<rparr>)) + 0 \<le> 1 \<and>
   (let db = MaybeScheduleCompaction Status_ok ex_db_ops ex_state in
      db_background_compaction_scheduled db \<and> ex_calls (db_world db) = 1 \<and>
      BackgroundCall_works Status_ok db = Inr True)"
proof -
  let ?s = "\<lparr>bs_db = ex_state, bs_running = 0\<rparr>"
  let ?s1 = "?s\<lparr>bs_db := MaybeScheduleCompaction Status_ok ex_db_ops (bs_db ?s)\<rparr>"
  have init: "breach Status_ok ex_db_ops ex_calls ?s"
    by (rule breach.init) (simp_all add: ex_state_def ex_calls_def)
  have "breach Status_ok ex_db_ops ex_calls ?s1"
    by (rule breach.step [OF init bstep.maybe])
  from Background_single [OF ex_counts_calls this] Background_single [OF ex_counts_calls init]
  show ?thesis
    by (simp add: MaybeScheduleCompaction_def ex_state_def upd_world_def ex_db_ops_def ex_calls_def
        BackgroundCall_works_def Status_ok_def Let_def)
qed

end
