(* ===== verification/DbFlush.thy ===== *)
theory DbFlush
  imports DbProps VersionCommit
begin

text \<open>
  Flushing a memtable from end to end: \<open>CompactMemtable\<close> through \<open>BuildTable\<close> and
  \<open>LogAndApply\<close>.
\<close>

lemma WriteLevel0Table_frame:
  assumes "WriteLevel0Table ok ops garbage mem edit base s = Some (Inr (st, edit', s'))"
    and "op_Unlock ops = (\<lambda>t. t)" and "op_Lock ops = (\<lambda>t. t)"
  shows "db_versions s' = snd (NewFileNumber (db_versions s)) \<and> db_imm s' = db_imm s \<and>
    db_memtables s' = db_memtables s \<and> db_logfile_number s' = db_logfile_number s"
  using assms
  by (auto simp: WriteLevel0Table_def WriteLevel0Table_end_def NewFileNumber_def upd_world_def Let_def
      rbind_def case_prod_beta split: option.splits sum.splits)

definition flush_edit :: "u64 \<Rightarrow> version_edit" where
  "flush_edit log_number = SetLogNumber log_number (SetPrevLogNumber 0 VersionEdit)"

lemma flush_edit_simps [simp]:
  "edit_ok n (flush_edit m)" "fresh_numbers (flush_edit m)" "edit_numbers i (flush_edit m) S = S"
  "ve_log_number (flush_edit m) = m"
  by (simp_all add: flush_edit_def edit_ok_def fresh_numbers_def edit_numbers_def new_numbers_def
      SetLogNumber_def SetPrevLogNumber_def VersionEdit_def VersionEdit_Clear_def)

lemma flush_edit_applied:
  assumes "ikey_comparator icmp" and "commit_laws ops" and "current_ok n c vs"
    and "vs_log_number vs \<le> m" and "m < vs_next_file_number vs"
    and "manifest_ready ok ops vs"
    and "LogAndApply ok ops D icmp name dbname n (flush_edit m) (vs, w) = Inr (st, edit', vs', w')" and "ok st"
  shows "\<exists>v. vs_current vs' = Some v \<and> (\<forall>i < n. numbers (vs_files vs') (level_files v vs' i) =
    numbers (vs_files vs) (level_files c vs i))"
proof -
  obtain st1 e vs2 w2 new where "LogAndApply ok ops D icmp name dbname n (flush_edit m) (vs, w) = Inr (st1, e, vs2, w2)"
    and saved: "saved_keys icmp n (flush_edit m) (level_keys c vs) new"
    and "committed ok ops n c (level_keys c vs) (vs_next_version vs) new
      (edit_log (flush_edit m) (vs_log_number vs)) vs st1 vs2"
    by (rule LogAndApply_result [where edit = "flush_edit m" and D = D and ok = ok and name = name
          and dbname = dbname and w = w, OF assms(1-3) flush_edit_simps(1,2) _ assms(6)])
      (use assms(4,5,7) in auto)
  then have com: "committed ok ops n c (level_keys c vs) (vs_next_version vs) new
      (edit_log (flush_edit m) (vs_log_number vs)) vs st vs'"
    using assms(7) by simp
  show ?thesis
    using com assms(8) saved_keys_numbers [OF saved]
    by (auto simp: committed_def current_ok_def numbers_keys)
qed

lemma current_ok_NewFileNumber:
  "current_ok n c vs \<Longrightarrow> current_ok n c (snd (NewFileNumber vs))"
  by (erule current_ok_same) (simp_all add: NewFileNumber_def)

text \<open>\<open>CompactMemtable\<close> up to \<open>LogAndApply\<close>: the version set is the old one, one file number later.\<close>

lemma CompactMemtable_until_apply:
  assumes "CompactMemtable ok ops garbage s = Some (Inr s')"
    and "commit_laws (op_vs ops)" and "current_ok n c (db_versions s)"
    and "op_Unlock ops = (\<lambda>t. t)" and "op_Lock ops = (\<lambda>t. t)"
  obtains st0 s3 st s4 where "db_versions s3 = snd (NewFileNumber (db_versions s))"
    and "db_imm s3 = db_imm s" and "db_logfile_number s3 = db_logfile_number s"
    and "CompactMemtable_apply ok ops st0 VersionEdit s3 = Inr (st, s4)"
    and "CompactMemtable_end ok ops st s4 = Inr s'"
proof -
  note laws = assms(2) [unfolded commit_laws_def] and cur = assms(3) [unfolded current_ok_def]
  obtain ver where ver: "vs_versions (db_versions s) c = Some ver" "0 < v_refs ver"
    using cur by (auto simp: vset_ok_def version_ok_def)
  let ?vs1 = "store_version c (ver\<lparr>v_refs := v_refs ver + 1\<rparr>) (db_versions s)"
  let ?s1 = "s\<lparr>db_versions := ?vs1\<rparr>"
  have ref: "vo_Ref (op_vs ops) c (db_versions s) = Inr ?vs1"
    using laws ver by (simp add: Ref_increments_def)
  obtain st0 edit s2 s3 st s4 where
    2: "WriteLevel0Table ok ops garbage (the (db_imm s)) VersionEdit (Some c) ?s1 = Some (Inr (st0, edit, s2))" and
    3: "lift_versions (vo_Unref (op_vs ops) c) s2 = Inr s3" and
    4: "CompactMemtable_apply ok ops st0 edit s3 = Inr (st, s4)" "CompactMemtable_end ok ops st s4 = Inr s'"
    using assms(1) cur ref
    by (auto simp: CompactMemtable_def rbind_def nonnull_def lift_versions_def case_prod_beta
        split: option.splits sum.splits)
  have frame: "db_versions s2 = snd (NewFileNumber ?vs1)" "db_imm s2 = db_imm s"
    "db_logfile_number s2 = db_logfile_number s"
    using WriteLevel0Table_frame [OF 2 assms(4,5)] by simp_all
  have "vo_Unref (op_vs ops) c (snd (NewFileNumber ?vs1)) = Inr (snd (NewFileNumber (db_versions s)))"
    using laws ver by (simp add: Unref_decrements_def NewFileNumber_def store_version_def fun_upd_idem)
  then have "s3 = s2\<lparr>db_versions := snd (NewFileNumber (db_versions s))\<rparr>"
    using 3 frame(1) by (simp add: lift_versions_def)
  moreover have "edit = VersionEdit" using WriteLevel0Table_adds_nothing [OF 2] .
  ultimately show thesis using that [of s3 st0 st s4] frame 4 by simp
qed

text \<open>
  C7: a flush loses what it flushes. Whenever \<open>CompactMemtable\<close> returns having dropped the immutable
  memtable, the version that is current then has, on every level, exactly the file numbers of the
  version that was current before: no table holds the entries of the memtable. This holds for
  every notion of an ok status, every memtable and every behaviour of the file system.
\<close>

theorem CompactMemtable_loses_entries:
  assumes "CompactMemtable ok ops garbage s = Some (Inr s')"
    and "ikey_comparator (op_icmp ops)" and "commit_laws (op_vs ops)"
    and "current_ok (op_kNumLevels ops) c (db_versions s)" and "db_imm s = Some a"
    and "vs_log_number (db_versions s) \<le> db_logfile_number s"
    and "db_logfile_number s < vs_next_file_number (db_versions s) + 1"
    and "manifest_ready ok (op_vs ops) (db_versions s)"
    and "op_Unlock ops = (\<lambda>t. t)" and "op_Lock ops = (\<lambda>t. t)" and "op_others ops = (\<lambda>t. t)"
    and "\<And>st t. db_imm (op_RecordBackgroundError ops st t) = db_imm t"
    and "\<And>t. db_versions (op_RemoveObsoleteFiles ops t) = db_versions t"
    and "db_imm s' = None"
  shows "\<exists>v. vs_current (db_versions s') = Some v \<and> (\<forall>i < op_kNumLevels ops.
    numbers (vs_files (db_versions s')) (level_files v (db_versions s') i) =
    numbers (vs_files (db_versions s)) (level_files c (db_versions s) i))"
proof -
  obtain st0 s3 st s4 where 3: "db_versions s3 = snd (NewFileNumber (db_versions s))"
    "db_imm s3 = db_imm s" "db_logfile_number s3 = db_logfile_number s"
    and apply': "CompactMemtable_apply ok ops st0 VersionEdit s3 = Inr (st, s4)"
    and end': "CompactMemtable_end ok ops st s4 = Inr s'"
    using CompactMemtable_until_apply [OF assms(1,3,4,9,10)] .
  let ?vs3 = "snd (NewFileNumber (db_versions s))"
  have run: "ok st \<Longrightarrow> \<exists>e w'. LogAndApply ok (op_vs ops) (op_doubles ops) (op_icmp ops) (op_comparator_name ops)
      (op_dbname ops) (op_kNumLevels ops) (flush_edit (db_logfile_number s)) (?vs3, db_world s3) =
      Inr (st, e, db_versions s4, w')" and imm: "db_imm s4 = db_imm s"
    using apply' 3 assms(11)
    by (auto simp: CompactMemtable_apply_def call_LogAndApply_def flush_edit_def obind_eq_Inr Let_def split: if_splits)
  show ?thesis
  proof (cases "ok st")
    case True
    obtain e w' where "LogAndApply ok (op_vs ops) (op_doubles ops) (op_icmp ops) (op_comparator_name ops)
        (op_dbname ops) (op_kNumLevels ops) (flush_edit (db_logfile_number s)) (?vs3, db_world s3) =
        Inr (st, e, db_versions s4, w')"
      using run [OF True] by blast
    moreover have "vs_log_number ?vs3 \<le> db_logfile_number s" "db_logfile_number s < vs_next_file_number ?vs3"
      "manifest_ready ok (op_vs ops) ?vs3"
      using assms(6-8) by (simp_all add: NewFileNumber_def manifest_ready_def)
    ultimately obtain v where v: "vs_current (db_versions s4) = Some v" "\<forall>i < op_kNumLevels ops.
        numbers (vs_files (db_versions s4)) (level_files v (db_versions s4) i) =
        numbers (vs_files ?vs3) (level_files c ?vs3 i)"
      using flush_edit_applied [OF assms(2,3) current_ok_NewFileNumber [OF assms(4)]] True by blast
    have "db_versions s' = db_versions s4"
      using end' True assms(13) by (auto simp: CompactMemtable_end_def lift_memtables_def obind_eq_Inr)
    then show ?thesis using v by (simp add: NewFileNumber_def level_files_def)
  next
    case False
    then have "db_imm s' = db_imm s" using end' imm assms(12) by (auto simp: CompactMemtable_end_def)
    then show ?thesis using assms(5,14) by simp
  qed
qed

text \<open>An instance: the state of \<open>DbExample\<close> with an open MANIFEST.\<close>

definition ex_flushing :: "(int, entries, string list) db" where
  "ex_flushing = ex_state\<lparr>db_versions := ex_open\<rparr>"

lemma ex_flush_returns: "case CompactMemtable Status_ok ex_db_ops 0 ex_flushing of
    Some (Inr s') \<Rightarrow> db_imm s' = None \<and> db_memtables s' 1 = None | _ \<Rightarrow> False"
  by code_simp

theorem CompactMemtable_loses_entries_witness:
  "\<exists>s' v. CompactMemtable Status_ok ex_db_ops 0 ex_flushing = Some (Inr s') \<and>
    db_memtables ex_flushing 1 = Some \<lparr>mt_refs = 1, mt_table = [(''b'', ''2'')]\<rparr> \<and>
    db_memtables s' 1 = None \<and> vs_current (db_versions s') = Some v \<and>
    (\<forall>i < 2. numbers (vs_files (db_versions s')) (level_files v (db_versions s') i) =
      numbers (vs_files ex_open) (level_files 1 ex_open i))"
proof -
  have ex: "db_versions ex_flushing = ex_open" "db_imm ex_flushing = Some 1" "db_logfile_number ex_flushing = 3"
    "db_memtables ex_flushing 1 = Some \<lparr>mt_refs = 1, mt_table = [(''b'', ''2'')]\<rparr>"
    by (simp_all add: ex_flushing_def ex_state_def)
  have op: "op_kNumLevels ex_db_ops = 2" "op_vs ex_db_ops = ex_ops" "op_icmp ex_db_ops = ikey_bytes_compare"
    by (simp_all add: ex_db_ops_def)
  obtain s' where run: "CompactMemtable Status_ok ex_db_ops 0 ex_flushing = Some (Inr s')"
    "db_imm s' = None" "db_memtables s' 1 = None"
    using ex_flush_returns by (auto split: option.splits sum.splits)
  have "\<exists>v. vs_current (db_versions s') = Some v \<and> (\<forall>i < op_kNumLevels ex_db_ops.
    numbers (vs_files (db_versions s')) (level_files v (db_versions s') i) =
    numbers (vs_files (db_versions ex_flushing)) (level_files 1 (db_versions ex_flushing) i))"
  proof (rule CompactMemtable_loses_entries [OF run(1)])
    show "ikey_comparator (op_icmp ex_db_ops)" unfolding op by (rule bytes_ikey.ikey_comparator_axioms)
    show "commit_laws (op_vs ex_db_ops)" unfolding op by (rule ex_commit_laws)
    show "current_ok (op_kNumLevels ex_db_ops) 1 (db_versions ex_flushing)" unfolding op ex by (rule ex_current_ok)
    show "db_imm ex_flushing = Some 1" by (rule ex)
    show "vs_log_number (db_versions ex_flushing) \<le> db_logfile_number ex_flushing"
      "db_logfile_number ex_flushing < vs_next_file_number (db_versions ex_flushing) + 1"
      "manifest_ready Status_ok (op_vs ex_db_ops) (db_versions ex_flushing)"
      by (simp_all add: ex ex_open_def ex_linked_def ex_vset_def manifest_ready_def)
  qed (simp_all add: ex_db_ops_def run(2))
  then show ?thesis using run ex op by auto
qed

end
