(* ===== verification/DbCompact.thy ===== *)
theory DbCompact
  imports DbProps VersionHistory
begin

text \<open>
  A trivial move from end to end: \<open>BackgroundCompaction\<close> through the edit of the compaction and
  \<open>LogAndApply\<close>, down to the files of the version that is current afterwards.
\<close>

section \<open>Files that are apart\<close>

lemma keys_apart_subset: "keys_apart icmp K \<Longrightarrow> K' \<subseteq> K \<Longrightarrow> keys_apart icmp K'"
  unfolding keys_apart_def by blast

lemma keys_apart_insert:
  "keys_apart icmp K \<Longrightarrow> key_range icmp k \<Longrightarrow> \<forall>b \<in> K. key_before icmp k b \<or> key_before icmp b k \<Longrightarrow>
    keys_apart icmp (insert k K)"
  unfolding keys_apart_def by blast

lemma keys_ordered_apart: "keys_ordered icmp ks \<Longrightarrow> keys_apart icmp (set ks)"
proof (induction ks)
  case (Cons k ks)
  then have "keys_apart icmp (set ks)" "key_range icmp k" "\<forall>b \<in> set ks. key_before icmp k b"
    by (simp_all add: keys_ordered_def)
  then show ?case using keys_apart_insert [of icmp "set ks" k] by simp
qed (simp add: keys_apart_def)

section \<open>The edit of a trivial move\<close>

definition move_edit :: "int \<Rightarrow> fmeta \<Rightarrow> version_edit \<Rightarrow> version_edit" where
  "move_edit l f e = AddFile 0 (l + 1) (fm_number f) (fm_file_size f) (fm_smallest f) (fm_largest f)
     (RemoveFile l (fm_number f) e)"

lemma trivial_move_edit_eq:
  assumes "cp_inputs c = [p] # pss" and "live fs p"
  shows "trivial_move_edit fs c = Inr (move_edit (cp_level c) (fm fs p) (cp_edit c))"
  using assms
  by (auto simp: trivial_move_edit_def move_edit_def num_input_files_def Compaction_input_def at_level_def
      live_def Compaction_level_def Compaction_edit_def Let_def)

lemma move_edit_files:
  "ve_new_files e = [] \<Longrightarrow> ve_new_files (move_edit l f e) =
    [(l + 1, (FileMetaData 0)\<lparr>fm_number := fm_number f, fm_file_size := fm_file_size f,
        fm_smallest := fm_smallest f, fm_largest := fm_largest f\<rparr>)]"
  "ve_deleted_files e = [] \<Longrightarrow> set (ve_deleted_files (move_edit l f e)) = {(l, fm_number f)}"
  "ve_compact_pointers (move_edit l f e) = ve_compact_pointers e"
  "ve_has_log_number (move_edit l f e) = ve_has_log_number e"
  using set_RemoveFile [of l "fm_number f" e]
  by (simp_all add: move_edit_def AddFile_def RemoveFile_def Let_def)

lemma move_edit_new_keys:
  "ve_new_files e = [] \<Longrightarrow>
    new_keys i (ve_new_files (move_edit l f e)) = (if int i = l + 1 then {file_key f} else {})"
  by (auto simp: move_edit_files new_keys_def file_key_def)

lemma move_edit_keys:
  assumes "ve_new_files e = []" and "ve_deleted_files e = []"
  shows "edit_keys i (move_edit l f e) K =
    (if int i = l then {k \<in> K. fst k \<noteq> fm_number f} else if int i = l + 1 then insert (file_key f) K else K)"
  using assms by (auto simp: edit_keys_def new_numbers_keys move_edit_new_keys move_edit_files(2) file_key_def)

text \<open>The part of the edit that \<open>PickCompaction\<close> leaves: at most compaction pointers.\<close>

definition pointers_only :: "nat \<Rightarrow> version_edit \<Rightarrow> bool" where
  "pointers_only n e \<longleftrightarrow> edit_ok n e \<and> ve_new_files e = [] \<and> ve_deleted_files e = [] \<and> \<not> ve_has_log_number e"

lemma move_edit_ok:
  assumes "pointers_only n e" and "0 \<le> l" and "nat l + 1 < n"
  shows "edit_ok n (move_edit l f e)" and "fresh_numbers (move_edit l f e)"
    and "\<not> ve_has_log_number (move_edit l f e)"
  using assms
  by (auto simp: pointers_only_def edit_ok_def fresh_numbers_def move_edit_files list_all_iff level_in_def)

text \<open>
  What \<open>PickCompaction\<close> and \<open>IsTrivialMove\<close> promise: one input file, of the level of the
  compaction, and none it overlaps with on the next level.
\<close>

definition one_file_move :: "(ikey \<Rightarrow> ikey \<Rightarrow> int) \<Rightarrow> nat \<Rightarrow> compaction \<Rightarrow> nat \<Rightarrow> 'd vset \<Rightarrow> nat \<Rightarrow> bool" where
  "one_file_move icmp n cp c vs p \<longleftrightarrow>
     0 \<le> cp_level cp \<and> nat (cp_level cp) + 1 < n \<and> pointers_only n (cp_edit cp) \<and>
     (\<exists>pss. cp_inputs cp = [p] # pss) \<and> p \<in> set (level_files c vs (nat (cp_level cp))) \<and>
     (let k = file_key (fm (vs_files vs) p) in
        key_range icmp k \<and> (\<forall>b \<in> set (level_keys c vs (nat (cp_level cp) + 1)).
          fst b \<noteq> fst k \<and> (key_before icmp k b \<or> key_before icmp b k)))"

lemma one_file_move_apart:
  assumes move: "one_file_move icmp n cp c vs p" and cur: "vs_current vs = Some c"
    and ord: "levels_ordered icmp n vs"
  shows "edit_apart icmp n (move_edit (cp_level cp) (fm (vs_files vs) p) (cp_edit cp))
    (\<lambda>i. set (level_keys c vs i))"
  unfolding edit_apart_def
proof (intro allI impI conjI)
  let ?f = "fm (vs_files vs) p" and ?l = "cp_level cp"
  let ?e = "move_edit ?l ?f (cp_edit cp)"
  fix i assume i: "i < n" "0 < i"
  have e: "ve_new_files (cp_edit cp) = []" "ve_deleted_files (cp_edit cp) = []"
    using move by (simp_all add: one_file_move_def pointers_only_def)
  have old: "keys_apart icmp (set (level_keys c vs i))"
    using ord i cur by (simp add: levels_ordered_def keys_ordered_apart)
  have next_level: "key_range icmp (file_key ?f) \<and> (\<forall>b \<in> set (level_keys c vs i).
      fst b \<noteq> fst (file_key ?f) \<and> (key_before icmp (file_key ?f) b \<or> key_before icmp b (file_key ?f)))"
    if "int i = ?l + 1"
  proof -
    have "i = nat ?l + 1" using that move unfolding one_file_move_def by linarith
    then show ?thesis using move unfolding one_file_move_def Let_def by blast
  qed
  show "new_numbers i (ve_new_files ?e) \<inter> fst ` set (level_keys c vs i) = {}"
    using next_level by (cases "int i = ?l + 1") (fastforce simp: new_numbers_keys move_edit_new_keys e)+
  show "keys_apart icmp (edit_keys i ?e (set (level_keys c vs i)))"
  proof (cases "int i = ?l + 1")
    case True
    then show ?thesis using keys_apart_insert [OF old] next_level by (simp add: move_edit_keys e)
  next
    case False
    then show ?thesis using keys_apart_subset [OF old] by (auto simp: move_edit_keys e)
  qed
qed

section \<open>The move\<close>

text \<open>What the current version has afterwards.\<close>

definition moved_keys :: "int \<Rightarrow> fkey \<Rightarrow> nat \<Rightarrow> fkey set \<Rightarrow> fkey set" where
  "moved_keys l k i K =
     (if int i = l then {b \<in> K. fst b \<noteq> fst k} else if int i = l + 1 then insert k K else K)"

lemma LogAndApply_move:
  assumes cmp: "ikey_comparator icmp" and laws: "commit_laws ops" and cur: "current_ok n c vs"
    and ready: "manifest_ready ok ops vs" and ord: "levels_ordered icmp n vs"
    and move: "one_file_move icmp n cp c vs p"
  obtains st e vs' w' where
    "LogAndApply ok ops D icmp name dbname n (move_edit (cp_level cp) (fm (vs_files vs) p) (cp_edit cp)) (vs, w) =
      Inr (st, e, vs', w')"
    and "manifest_ready ok ops vs'" and "levels_ordered icmp n vs'" and "\<exists>v. current_ok n v vs'"
    and "\<forall>i < n. fl_keys (file_sets_of n vs') i =
      (if ok st then moved_keys (cp_level cp) (file_key (fm (vs_files vs) p)) i (set (level_keys c vs i))
       else set (level_keys c vs i))"
proof -
  let ?k = "file_key (fm (vs_files vs) p)"
  let ?e = "move_edit (cp_level cp) (fm (vs_files vs) p) (cp_edit cp)"
  have c: "vs_current vs = Some c" using cur by (simp add: current_ok_def)
  have only: "pointers_only n (cp_edit cp)" "0 \<le> cp_level cp" "nat (cp_level cp) + 1 < n"
    using move by (simp_all add: one_file_move_def)
  note ok = move_edit_ok [OF only, of "fm (vs_files vs) p"]
  have ordered: "\<forall>i < n. 0 < i \<longrightarrow> keys_ordered icmp (level_keys c vs i)"
    using ord c by (simp add: levels_ordered_def)
  obtain st e vs' w' new where run: "LogAndApply ok ops D icmp name dbname n ?e (vs, w) = Inr (st, e, vs', w')"
    and saved: "saved_keys icmp n ?e (level_keys c vs) new"
    and new: "\<forall>i < n. 0 < i \<longrightarrow> keys_ordered icmp (new i)"
    and com: "committed ok ops n c (level_keys c vs) (vs_next_version vs) new (edit_log ?e (vs_log_number vs)) vs st vs'"
    by (rule LogAndApply_apart [where edit = ?e and D = D and ok = ok and name = name and dbname = dbname and w = w,
          OF cmp laws cur ok(1,2) _ ready one_file_move_apart [OF move c ord] ordered])
      (simp add: ok(3), (rule that; assumption))
  note sets = committed_sets [OF com saved c]
  have "levels_ordered icmp n vs'"
    using sets(5) new ordered by (simp add: levels_ordered_def)
  moreover have "\<forall>i < n. fl_keys (file_sets_of n vs') i =
      (if ok st then moved_keys (cp_level cp) ?k i (set (level_keys c vs i)) else set (level_keys c vs i))"
    using only(1) unfolding sets(1)
    by (simp add: edit_sets_def file_sets_of_def c pointers_only_def move_edit_keys moved_keys_def file_key_def)
  ultimately show thesis using that [OF run sets(3)] sets(2) by blast
qed

text \<open>C14: a trivial move takes one file to the next level. When there is no immutable memtable and no
  manual compaction, and \<open>PickCompaction\<close> returns a compaction that moves one file of the current
  version to a level where nothing overlaps it, \<open>BackgroundCompaction\<close> returns: no assert of the
  builder fails, for every notion of an ok status and whatever the writes of the MANIFEST return.
  When the status counts as ok, the file is, with its number and range, on the next level and no
  longer on its own, and every other level has what it had; when not, every level has, and the
  error is recorded. Either way the version set is well kept, the MANIFEST can be written and the levels above 0
  are in order, before the compaction is deleted.\<close>

theorem BackgroundCompaction_trivial_move:
  assumes "ikey_comparator (op_icmp ops)" and "commit_laws (op_vs ops)"
    and "\<And>t. db_versions (op_others ops t) = db_versions t"
    and "db_imm s = None" and "\<not> db_manual_compaction s"
    and "co_PickCompaction co s = (Some cp, s1)" and "co_IsTrivialMove co cp"
    and "current_ok (op_kNumLevels ops) c (db_versions s1)" and "manifest_ready ok (op_vs ops) (db_versions s1)"
    and "levels_ordered (op_icmp ops) (op_kNumLevels ops) (db_versions s1)"
    and "one_file_move (op_icmp ops) (op_kNumLevels ops) cp c (db_versions s1) p"
  shows "\<exists>st s2. BackgroundCompaction ok ops co garbage s =
      Some (Inr (co_delete co cp (if ok st then s2 else op_RecordBackgroundError ops st s2))) \<and>
    (\<exists>v. current_ok (op_kNumLevels ops) v (db_versions s2)) \<and> manifest_ready ok (op_vs ops) (db_versions s2) \<and>
    levels_ordered (op_icmp ops) (op_kNumLevels ops) (db_versions s2) \<and>
    (\<forall>i < op_kNumLevels ops. fl_keys (file_sets_of (op_kNumLevels ops) (db_versions s2)) i =
      (if ok st then moved_keys (cp_level cp) (file_key (fm (vs_files (db_versions s1)) p)) i
           (set (level_keys c (db_versions s1) i))
       else set (level_keys c (db_versions s1) i)))"
proof -
  let ?vs = "db_versions s1"
  let ?e = "move_edit (cp_level cp) (fm (vs_files ?vs) p) (cp_edit cp)"
  obtain st e vs' w' where run: "LogAndApply ok (op_vs ops) (op_doubles ops) (op_icmp ops) (op_comparator_name ops)
      (op_dbname ops) (op_kNumLevels ops) ?e (?vs, db_world s1) = Inr (st, e, vs', w')"
    and facts: "manifest_ready ok (op_vs ops) vs'" "levels_ordered (op_icmp ops) (op_kNumLevels ops) vs'"
    "\<exists>v. current_ok (op_kNumLevels ops) v vs'"
    "\<forall>i < op_kNumLevels ops. fl_keys (file_sets_of (op_kNumLevels ops) vs') i =
      (if ok st then moved_keys (cp_level cp) (file_key (fm (vs_files ?vs) p)) i (set (level_keys c ?vs i))
       else set (level_keys c ?vs i))"
    using LogAndApply_move [OF assms(1,2,8-11)] .
  obtain pss where inputs: "cp_inputs cp = [p] # pss" and l: "nat (cp_level cp) < op_kNumLevels ops"
    and p: "p \<in> set (level_files c ?vs (nat (cp_level cp)))"
    using assms(11) by (auto simp: one_file_move_def)
  have "live (vs_files ?vs) p"
    using assms(8) l p by (auto simp: current_ok_def vset_ok_def version_ok_def level_files_def)
  then have edit: "trivial_move_edit (vs_files ?vs) cp = Inr ?e" by (rule trivial_move_edit_eq [OF inputs])
  let ?s2 = "op_others ops (s1\<lparr>db_versions := vs', db_world := w'\<rparr>)"
  have "BackgroundCompaction ok ops co garbage s =
      Some (Inr (co_delete co cp (if ok st then ?s2 else op_RecordBackgroundError ops st ?s2)))"
    using assms(4-7) edit run by (simp add: BackgroundCompaction_def call_LogAndApply_def)
  then show ?thesis using facts assms(3) by (intro exI [of _ st] exI [of _ ?s2]) simp
qed

section \<open>An instance\<close>

text \<open>File 5, from \<open>''b''\<close> to \<open>''c''\<close>, on level 0, and the compaction that moves it to level 1.\<close>

definition ex_upper :: "int vset" where
  "ex_upper = ex_open\<lparr>vs_versions := (vs_versions ex_open)
     (1 \<mapsto> (Version 2 (-1) 1)\<lparr>v_refs := 2, v_files := [[0], []], v_next := 0, v_prev := 0\<rparr>)\<rparr>"

definition ex_move :: compaction where
  "ex_move = \<lparr>cp_level = 0, cp_max_output_file_size = 0, cp_edit = VersionEdit, cp_inputs = [[0], []]\<rparr>"

definition ex_co_ops :: "(int, entries, string list) compaction_ops" where
  "ex_co_ops = \<lparr>co_PickCompaction = (\<lambda>s. (Some ex_move, s)),
     co_IsTrivialMove = (\<lambda>c. length (cp_inputs c ! 0) = 1 \<and> cp_inputs c ! 1 = []),
     co_DoCompactionWork = (\<lambda>c s. Inr (Status_default, s)), co_CleanupCompaction = (\<lambda>c s. s),
     co_ReleaseInputs = (\<lambda>c s. s), co_delete = (\<lambda>c s. s)\<rparr>"

definition ex_moving :: "(int, entries, string list) db" where
  "ex_moving = ex_state\<lparr>db_versions := ex_upper, db_imm := None, db_has_imm := False\<rparr>"

lemma ex_upper_ok: "current_ok 2 1 ex_upper"
proof -
  have "version_list ex_upper [1]"
    by (auto simp: version_list_def linked_def ex_upper_def ex_open_def ex_linked_def ex_vset_def)
  moreover have "vset_ok 2 1 ex_upper"
    by (auto simp: vset_ok_def version_ok_def ex_upper_def ex_open_def ex_linked_def ex_vset_def store_ok_def live_def
        less_2_cases_iff Version_def split: if_splits)
  moreover have "\<forall>p. live (vs_files ex_upper) p \<longrightarrow> refs_from 1 ex_upper p \<le> fm_refs (fm (vs_files ex_upper) p)"
    by (auto simp: ex_upper_def ex_open_def ex_linked_def ex_vset_def live_def refs_from_def ex_file_def)
  ultimately show ?thesis
    unfolding current_ok_def
    by (auto simp: ex_upper_def ex_open_def ex_linked_def ex_vset_def intro!: exI [of _ "[1]"])
qed

lemma ex_upper_keys: "level_keys 1 ex_upper 0 = [(5, ''b'', ''c'')]" "level_keys 1 ex_upper (Suc 0) = []"
  "level_files 1 ex_upper 0 = [0]" "file_key (fm (vs_files ex_upper) 0) = (5, ''b'', ''c'')"
  "vs_current ex_upper = Some 1"
  by (simp_all add: level_files_def keys_def file_key_def ex_upper_def ex_open_def ex_linked_def ex_vset_def ex_file_def)

lemma ex_move_runs:
  "case BackgroundCompaction Status_is_default ex_db_ops ex_co_ops 0 ex_moving of
     Some (Inr s') \<Rightarrow> db_bg_error s' = Status_default \<and>
       db_imm s' = None | _ \<Rightarrow> False"
  by code_simp

theorem BackgroundCompaction_trivial_move_witness:
  "\<exists>s'. BackgroundCompaction Status_is_default ex_db_ops ex_co_ops 0 ex_moving = Some (Inr s') \<and>
    fl_keys (file_sets_of 2 (db_versions s')) 0 = {} \<and>
    fl_keys (file_sets_of 2 (db_versions s')) 1 = {(5, ''b'', ''c'')}"
proof -
  have ops: "op_kNumLevels ex_db_ops = 2" "op_vs ex_db_ops = ex_ops" "op_icmp ex_db_ops = ikey_bytes_compare"
    "\<And>t. op_others ex_db_ops t = t"
    "\<And>c t. co_delete ex_co_ops c t = t" "co_PickCompaction ex_co_ops ex_moving = (Some ex_move, ex_moving)"
    "co_IsTrivialMove ex_co_ops ex_move"
    by (simp_all add: ex_db_ops_def ex_co_ops_def ex_move_def)
  have s: "db_versions ex_moving = ex_upper" "db_imm ex_moving = None" "\<not> db_manual_compaction ex_moving"
    by (simp_all add: ex_moving_def ex_state_def)
  have ready: "manifest_ready Status_is_default ex_ops ex_upper"
    by (simp add: manifest_ready_def ex_upper_def ex_open_def ex_linked_def ex_vset_def)
  have ord: "levels_ordered ikey_bytes_compare 2 ex_upper"
    by (auto simp: levels_ordered_def less_2_cases_iff ex_upper_keys ex_upper_keys [unfolded One_nat_def] keys_ordered_def)
  have "key_range ikey_bytes_compare (5, ''b'', ''c'')" "pointers_only 2 VersionEdit" by code_simp+
  then have move: "one_file_move ikey_bytes_compare 2 ex_move 1 ex_upper 0"
    by (simp add: one_file_move_def ex_move_def ex_upper_keys [unfolded One_nat_def] ex_upper_keys)
  let ?run = "BackgroundCompaction Status_is_default ex_db_ops ex_co_ops 0 ex_moving"
  obtain st s2 where run: "?run = Some (Inr (if Status_is_default st then s2 else op_RecordBackgroundError ex_db_ops st s2))"
    and sets: "\<forall>i < 2. fl_keys (file_sets_of 2 (db_versions s2)) i =
      (if Status_is_default st then moved_keys 0 (5, ''b'', ''c'') i (set (level_keys 1 ex_upper i))
       else set (level_keys 1 ex_upper i))"
    using BackgroundCompaction_trivial_move [of ex_db_ops ex_moving ex_co_ops ex_move ex_moving 1 Status_is_default 0 0,
        unfolded ops s ex_upper_keys, OF bytes_ikey.ikey_comparator_axioms ex_commit_laws refl refl s(3) refl ops(7)
        ex_upper_ok ready ord move]
    by (auto simp: ex_move_def)
  have "Status_is_default st"
    using ex_move_runs unfolding run by (auto simp: ex_db_ops_def Status_is_default_def split: if_splits)
  then show ?thesis
    using run sets by (auto simp: ex_upper_keys(1,2) [unfolded One_nat_def] moved_keys_def)
qed

end
