(* ===== verification/DbReadWrite.thy ===== *)
theory DbReadWrite
  imports DbProps
begin

text \<open>
  A write followed by a read: \<open>DB::Put\<close> through \<open>DBImpl::Write\<close>, and \<open>DBImpl::Get\<close> without a
  snapshot. What joins them is the sequence number: the batch is stamped with the number after the
  last one, the last one advances by the number of entries, and the read looks for entries up to it.
\<close>

text \<open>
  What the memtable and the batch promise for a batch of one entry: inserted with a sequence number,
  it is found by a lookup of its key at this number, before every older entry of the table.
\<close>

definition memtable_finds ::
  "('d, 'm, 'w) batch_ops \<Rightarrow> ('d, 'm, 'k, 'w) read_ops \<Rightarrow> bool" where
  "memtable_finds ba rd \<longleftrightarrow> (\<forall>key val n t v st.
     let rep = ba_SetSequence ba (ba_Put ba key val (ba_new_batch ba)) n
     in ba_Count ba rep = 1 \<and>
        rd_mem_Get rd (snd (ba_InsertInto ba rep t)) (rd_LookupKey rd key n) v st = (True, val, Status_default))"

text \<open>A lookup the memtable answers, whether there is an immutable memtable or not.\<close>

lemma DBImpl_Get_memtable:
  fixes s :: "('d, 'm, 'w) db"
  assumes ref: "Ref_increments (vo_Ref (op_vs ops))" "Unref_decrements (vo_Unref (op_vs ops))"
    and mem: "db_mem s = Some a" "db_memtables s a = Some m" "0 < mt_refs m"
    and imm: "\<And>b. db_imm s = Some b \<Longrightarrow> b \<noteq> a \<and> (\<exists>mi. db_memtables s b = Some mi \<and> 0 < mt_refs mi)"
    and cur: "vs_current (db_versions s) = Some c" "vs_versions (db_versions s) c = Some ver" "0 < v_refs ver"
    and lock: "op_Unlock ops = (\<lambda>t. t)" "op_Lock ops = (\<lambda>t. t)"
    and found: "rd_mem_Get rd (mt_table m) (rd_LookupKey rd key
      (case snapshot of Some n \<Rightarrow> n | None \<Rightarrow> vs_last_sequence (db_versions s))) value Status_default = (True, v, st)"
  shows "DBImpl_Get ok ops rd snapshot key value s = Inr (st, v, s)"
proof -
  let ?vs = "db_versions s" and ?ms1 = "(db_memtables s)(a \<mapsto> m\<lparr>mt_refs := mt_refs m + 1\<rparr>)"
  let ?vs1 = "store_version c (ver\<lparr>v_refs := v_refs ver + 1\<rparr>) ?vs"
  obtain ms where ms: "lift_memtables (MemTable_Ref a) s = Inr (s\<lparr>db_memtables := ?ms1\<rparr>)"
    "ref_imm MemTable_Ref (db_imm s) (s\<lparr>db_memtables := ?ms1\<rparr>) = Inr (s\<lparr>db_memtables := ms\<rparr>)"
    "map_option mt_table (ms a) = Some (mt_table m)"
    "\<And>t :: ('d, 'm, 'w) db. db_memtables t = ms \<Longrightarrow>
      obind (lift_memtables (MemTable_Unref a) t) (ref_imm MemTable_Unref (db_imm s)) =
      Inr (t\<lparr>db_memtables := db_memtables s\<rparr>)"
    using imm_ref_unref [OF mem imm] by metis
  have vers: "vo_Ref (op_vs ops) c ?vs = Inr ?vs1" "vo_Unref (op_vs ops) c ?vs1 = Inr ?vs"
    using ref cur(2,3) by (simp_all add: Ref_increments_def Unref_decrements_def store_version_def fun_upd_idem)
  obtain m' where m': "ms a = Some m'" "mt_table m' = mt_table m" using ms(3) by auto
  have rel: "obind (lift_memtables (MemTable_Unref a) (s\<lparr>db_memtables := ms, db_versions := ?vs1\<rparr>)) (\<lambda>t.
      obind (ref_imm MemTable_Unref (db_imm s) t) G) = G (s\<lparr>db_versions := ?vs1\<rparr>)"
    for G :: "_ \<Rightarrow> (status \<times> string \<times> _) outcome"
    using ms(4) [of "s\<lparr>db_memtables := ms, db_versions := ?vs1\<rparr>"] by (simp flip: obind_assoc)
  show ?thesis
    using mem(1) cur(1) lock found vers m' ms(1,2)
    by (simp add: DBImpl_Get_def nonnull_def lift_versions_def Get_lookup_def deref_mem_def Let_def rel)
qed

text \<open>
  A thread reads its own writes. On an idle queue, \<open>Put\<close> returns, and when its status counts as
  ok, \<open>Get\<close> of the same key without a snapshot, on the state \<open>Put\<close> leaves, returns the value put,
  with an ok status, and changes nothing, whatever the tables held before and whether or not
  there is an immutable memtable.
\<close>

theorem Put_then_Get:
  assumes "memtable_finds ba rd"
    and "Ref_increments (vo_Ref (op_vs ops))" and "Unref_decrements (vo_Unref (op_vs ops))"
    and "db_writers s = []" and "ok (db_bg_error s)" and "b \<noteq> db_tmp_batch s"
    and "\<And>n t. ba_BuildBatchGroup ba n t = Inr (b, n, t)"
    and "op_Unlock ops = (\<lambda>t. t)" and "op_Lock ops = (\<lambda>t. t)" and "db_log s = Some l"
    and "db_mem s = Some a" and "db_memtables s a = Some m" and "0 < mt_refs m"
    and "\<And>i. db_imm s = Some i \<Longrightarrow> i \<noteq> a \<and> (\<exists>mi. db_memtables s i = Some mi \<and> 0 < mt_refs mi)"
    and "vs_current (db_versions s) = Some c" and "vs_versions (db_versions s) c = Some ver" and "0 < v_refs ver"
  shows "\<exists>st s'. DB_Put ba (Write_alone ok ops ba w False) b key val s = Some (Inr (st, s')) \<and>
    (ok st \<longrightarrow> DBImpl_Get ok ops rd None key value s' = Inr (Status_default, val, s'))"
proof -
  let ?n = "vs_last_sequence (db_versions s)" and ?rep = "ba_Put ba key val (ba_new_batch ba)"
  let ?rep' = "ba_SetSequence ba ?rep (?n + 1)"
  let ?s0 = "s\<lparr>db_batches := (db_batches s)(b \<mapsto> ?rep)\<rparr>"
  obtain st wd where log: "vo_AddRecord (op_vs ops) l ?rep' (db_world s) = (st, wd)"
    by (cases "vo_AddRecord (op_vs ops) l ?rep' (db_world s)")
  let ?t = "snd (ba_InsertInto ba ?rep' (mt_table m))"
  let ?res = "if ok st then fst (ba_InsertInto ba ?rep' (mt_table m)) else st"
  have law: "ba_Count ba ?rep' = 1"
    "rd_mem_Get rd ?t (rd_LookupKey rd key (?n + 1)) value Status_default = (True, val, Status_default)"
    using assms(1) by (simp_all add: memtable_finds_def Let_def)
  have pre: "db_writers ?s0 = []" "ok (db_bg_error ?s0)"
    "db_batches ?s0 b = Some ?rep" "b \<noteq> db_tmp_batch ?s0" "\<forall>t. ba_BuildBatchGroup ba ?n t = Inr (b, ?n, t)"
    "?n = vs_last_sequence (db_versions ?s0)" "db_log ?s0 = Some l" "db_mem ?s0 = Some a"
    "db_memtables ?s0 a = Some m" "vo_AddRecord (op_vs ops) l ?rep' (db_world ?s0) = (st, wd)"
    using assms(4-7,10-12) log by simp_all
  obtain q bt where run: "Write_alone ok ops ba w False (Some b) ?s0 = Some (Inr (?res,
      ?s0\<lparr>db_writer := q, db_batches := bt, db_world := wd,
        db_memtables := (if ok st then (db_memtables ?s0)(a \<mapsto> m\<lparr>mt_table := ?t\<rparr>) else db_memtables ?s0),
        db_versions := (db_versions ?s0)\<lparr>vs_last_sequence := ?n + of_int (ba_Count ba ?rep')\<rparr>\<rparr>))"
    (is "_ = Some (Inr (_, ?s'))")
    using Write_alone_result [where s = ?s0 and ok = ok and w = w and b = b and ba = ba,
        OF pre(1-6) assms(8,9) pre(7-9) refl pre(10)] by blast
  have "DBImpl_Get ok ops rd None key value ?s' = Inr (Status_default, val, ?s')" if ok: "ok ?res"
  proof -
    have "ok st" using ok by (simp split: if_splits)
    then show ?thesis
      using assms(8,9,11,13-17) law
      by (intro DBImpl_Get_memtable [OF assms(2,3), where a = a and m = "m\<lparr>mt_table := ?t\<rparr>" and c = c and ver = ver])
        auto
  qed
  then show ?thesis using run by (auto simp: DB_Put_def)
qed

text \<open>An instance: a batch is one entry, its key preceded by the length of the key in unary.\<close>

definition ex_decode :: "string \<Rightarrow> slice \<times> slice" where
  "ex_decode r = (let n = length (takeWhile (\<lambda>c. c = CHR ''1'') r); rest = drop (Suc n) r
     in (take n rest, drop n rest))"

definition ex_put :: "(int, entries, string list) batch_ops" where
  "ex_put = \<lparr>ba_BuildBatchGroup = (\<lambda>n s. Inr (5, n, s)), ba_SetSequence = (\<lambda>r n. r),
      ba_Count = (\<lambda>r. 1), ba_InsertInto = (\<lambda>r m. (Status_default, ex_decode r # m)),
      ba_Clear = (\<lambda>r. ''''), ba_new_batch = '''',
      ba_Put = (\<lambda>k v r. replicate (length k) CHR ''1'' @ CHR ''0'' # k @ v)\<rparr>"

lemma ex_decode_put: "ex_decode (replicate (length k) CHR ''1'' @ CHR ''0'' # k @ v) = (k, v)"
proof -
  have "takeWhile (\<lambda>c. c = CHR ''1'') (replicate (length k) CHR ''1'' @ CHR ''0'' # k @ v) =
      replicate (length k) CHR ''1''"
    by (subst takeWhile_append2) auto
  then show ?thesis by (simp add: ex_decode_def)
qed

lemma ex_memtable_finds: "memtable_finds ex_put ex_read"
  by (simp add: memtable_finds_def ex_put_def ex_read_def ex_decode_put)

theorem Put_then_Get_witness:
  "\<exists>st s'. DB_Put ex_put (Write_alone Status_ok ex_db_ops ex_put 9 False) 5 ''b'' ''new''
      (ex_state\<lparr>db_writers := []\<rparr>) = Some (Inr (st, s')) \<and>
    DBImpl_Get Status_ok ex_db_ops ex_read None ''b'' '''' s' = Inr (Status_default, ''new'', s')"
proof -
  let ?m = "\<lparr>mt_refs = 1, mt_table = [(''a'', ''1'')]\<rparr>"
  have "\<exists>st s'. DB_Put ex_put (Write_alone Status_ok ex_db_ops ex_put 9 False) 5 ''b'' ''new''
      (ex_state\<lparr>db_writers := []\<rparr>) = Some (Inr (st, s')) \<and>
    (Status_ok st \<longrightarrow> DBImpl_Get Status_ok ex_db_ops ex_read None ''b'' '''' s' = Inr (Status_default, ''new'', s'))"
    by (rule Put_then_Get [OF ex_memtable_finds, where l = 0 and a = 0 and m = ?m and c = 1
          and ver = "(Version 2 (-1) 1)\<lparr>v_refs := 1, v_files := [[], [0]]\<rparr>"])
      (auto simp: ex_db_ops_def ex_ops_def ex_Ref ex_Unref ex_state_def ex_vset_def ex_put_def Status_ok_def)
  then show ?thesis by (auto simp: Status_ok_def)
qed

end
