(* ===== verification/DbSnapshots.thy ===== *)
theory DbSnapshots
  imports DbReadWrite
begin

text \<open>
  Puts one after the other, and the reads after them, at any snapshot. The abstract state is a map
  from keys to values; the sequence number of the version set says which of its states a read sees.
\<close>

section \<open>What a memtable holds\<close>

text \<open>
  A memtable holds for each key its versions with their sequence numbers, the newest first, a
  deletion being a version without a value. A lookup at a sequence number reads the newest
  version that is not beyond it.
\<close>

type_synonym versions = "(u64 \<times> slice option) list"

definition newest_at :: "u64 \<Rightarrow> versions \<Rightarrow> slice option" where
  "newest_at n es = (case find (\<lambda>e. fst e \<le> n) es of None \<Rightarrow> None | Some (_, x) \<Rightarrow> x)"

text \<open>
  The contract of the batch and the memtable, for a batch of one entry: \<open>InsertInto\<close> puts it in
  front of the older versions of its key, and \<open>Get\<close> returns what \<open>newest_at\<close> says, leaving the
  status. Nothing is said of deletions and of keys that are not there.
\<close>

definition memtable_versions ::
  "('d, 'm, 'w) batch_ops \<Rightarrow> ('d, 'm, 'k, 'w) read_ops \<Rightarrow> ('m \<Rightarrow> slice \<Rightarrow> versions) \<Rightarrow> bool" where
  "memtable_versions ba rd chain \<longleftrightarrow>
     (\<forall>key val n t. let rep = ba_SetSequence ba (ba_Put ba key val (ba_new_batch ba)) n
        in ba_Count ba rep = 1 \<and> fst (ba_InsertInto ba rep t) = Status_default \<and>
           ((\<forall>e \<in> set (chain t key). fst e < n) \<longrightarrow>
              chain (snd (ba_InsertInto ba rep t)) = (chain t)(key := (n, Some val) # chain t key))) \<and>
     (\<forall>t key n v st x. newest_at n (chain t key) = Some x \<longrightarrow>
        rd_mem_Get rd t (rd_LookupKey rd key n) v st = (True, x, st))"

text \<open>No version is beyond a sequence number.\<close>

definition versions_upto :: "u64 \<Rightarrow> (slice \<Rightarrow> versions) \<Rightarrow> bool" where
  "versions_upto n C \<longleftrightarrow> (\<forall>k. \<forall>e \<in> set (C k). fst e \<le> n)"

text \<open>A put with an ok status adds the next version and updates the map; the number advances anyway.\<close>

fun puts_chain ::
  "(status \<Rightarrow> bool) \<Rightarrow> u64 \<Rightarrow> ((slice \<times> slice) \<times> status) list \<Rightarrow> (slice \<Rightarrow> versions) \<Rightarrow> slice \<Rightarrow> versions" where
  "puts_chain ok n [] C = C"
| "puts_chain ok n (((k, v), st) # es) C =
     puts_chain ok (n + 1) es (if ok st then C(k := (n + 1, Some v) # C k) else C)"

fun puts_map ::
  "(status \<Rightarrow> bool) \<Rightarrow> ((slice \<times> slice) \<times> status) list \<Rightarrow> (slice \<Rightarrow> slice option) \<Rightarrow> slice \<Rightarrow> slice option" where
  "puts_map ok [] M = M"
| "puts_map ok (((k, v), st) # es) M = puts_map ok es (if ok st then M(k \<mapsto> v) else M)"

lemma seq_next:
  fixes n :: u64
  assumes "unat n + 1 < 2 ^ 64"
  shows "unat (n + 1) = unat n + 1" and "n < n + 1"
proof -
  show "unat (n + 1) = unat n + 1" using assms by (simp add: unat_word_ariths)
  then show "n < n + 1" by (simp add: word_less_nat_alt)
qed

lemma versions_upto_put:
  assumes "versions_upto n C" and "unat n + 1 < 2 ^ 64"
  shows "versions_upto (n + 1) (if b then C(k := (n + 1, Some v) # C k) else C)"
proof -
  have "\<forall>e \<in> set (C k). fst e \<le> n + 1" for k
    using assms(1) seq_next(2) [OF assms(2)] unfolding versions_upto_def by (meson less_imp_le order_trans)
  then show ?thesis by (simp add: versions_upto_def)
qed

text \<open>Versions added later are beyond what a read at an older number sees.\<close>

lemma puts_chain_skip:
  "m \<le> n \<Longrightarrow> unat n + length es < 2 ^ 64 \<Longrightarrow> newest_at m (puts_chain ok n es C k) = newest_at m (C k)"
proof (induction ok n es C rule: puts_chain.induct)
  case (2 ok n k' v st es C)
  have n: "unat (n + 1) = unat n + 1" "n < n + 1" using 2(3) seq_next [of n] by simp_all
  then have "\<not> n + 1 \<le> m" using 2(2) by (meson leD le_less_trans)
  then show ?case using 2 n by (simp add: newest_at_def)
qed simp

lemma newest_at_next:
  assumes "versions_upto n C" and "unat n + 1 < 2 ^ 64"
  shows "newest_at (n + 1) (C k) = newest_at n (C k)"
proof -
  have "fst e \<le> n + 1 \<longleftrightarrow> fst e \<le> n" if "e \<in> set (C k)" for e
    using assms(1) that seq_next(2) [OF assms(2)] unfolding versions_upto_def by (meson less_imp_le order_trans)
  then have "find (\<lambda>e. fst e \<le> n + 1) (C k) = find (\<lambda>e. fst e \<le> n) (C k)" by (intro find_cong) auto
  then show ?thesis by (simp add: newest_at_def)
qed

text \<open>A read at the number after the first \<open>j\<close> puts sees the map after these, and nothing of the later ones.\<close>

lemma puts_chain_map:
  "versions_upto n C \<Longrightarrow> unat n + length es < 2 ^ 64 \<Longrightarrow> j \<le> length es \<Longrightarrow>
    newest_at (n + of_nat j) (puts_chain ok n es C k) = puts_map ok (take j es) (\<lambda>k. newest_at n (C k)) k"
proof (induction ok n es C arbitrary: j rule: puts_chain.induct)
  case (2 ok n k' v st es C)
  let ?C = "if ok st then C(k' := (n + 1, Some v) # C k') else C"
  show ?case
  proof (cases j)
    case 0
    then show ?thesis using puts_chain_skip [of n n "((k', v), st) # es" ok C k] 2(3) by simp
  next
    case (Suc i)
    have n: "unat n + 1 < 2 ^ 64" "unat (n + 1) = unat n + 1" using 2(3) seq_next [of n] by simp_all
    have "newest_at (n + 1 + of_nat i) (puts_chain ok (n + 1) es ?C k) =
        puts_map ok (take i es) (\<lambda>k. newest_at (n + 1) (?C k)) k"
      using 2(1) [OF versions_upto_put [OF 2(2) n(1)]] 2(3,4) Suc n(2) by simp
    moreover have "(\<lambda>k. newest_at (n + 1) (?C k)) =
        (if ok st then (\<lambda>k. newest_at n (C k))(k' \<mapsto> v) else (\<lambda>k. newest_at n (C k)))"
      using newest_at_next [OF 2(2) n(1)] by (auto simp: fun_eq_iff newest_at_def)
    ultimately show ?thesis using Suc by (simp add: algebra_simps)
  qed
qed simp

section \<open>A sequence of puts\<close>

fun DB_Puts ::
  "(status \<Rightarrow> bool) \<Rightarrow> ('d, 'm, 'i, 'w) db_ops \<Rightarrow> ('d, 'm, 'w) batch_ops \<Rightarrow> nat \<Rightarrow> nat
   \<Rightarrow> (slice \<times> slice) list \<Rightarrow> ('d, 'm, 'w) db \<Rightarrow> (status list \<times> ('d, 'm, 'w) db) run" where
  "DB_Puts ok ops ba w b [] s = Some (Inr ([], s))"
| "DB_Puts ok ops ba w b ((key, val) # kvs) s =
     rbind (DB_Put ba (Write_alone ok ops ba w False) b key val s) (\<lambda>(st, s).
     rbind (DB_Puts ok ops ba w b kvs s) (\<lambda>(sts, s). Some (Inr (st # sts, s))))"

text \<open>A database with no writer in the queue, a log, a memtable at \<open>a\<close> and a current version.\<close>

definition db_ready :: "(status \<Rightarrow> bool) \<Rightarrow> nat \<Rightarrow> nat \<Rightarrow> ('d, 'm, 'w) db \<Rightarrow> bool" where
  "db_ready ok b a s \<longleftrightarrow> db_writers s = [] \<and> ok (db_bg_error s) \<and> b \<noteq> db_tmp_batch s \<and> db_log s \<noteq> None \<and>
     db_mem s = Some a \<and> (\<exists>m. db_memtables s a = Some m \<and> 0 < mt_refs m) \<and>
     (\<forall>i. db_imm s = Some i \<longrightarrow> i \<noteq> a \<and> (\<exists>m. db_memtables s i = Some m \<and> 0 < mt_refs m)) \<and>
     (\<exists>c ver. vs_current (db_versions s) = Some c \<and> vs_versions (db_versions s) c = Some ver \<and> 0 < v_refs ver)"

text \<open>What is required of the parameters: one thread, batches that are their own group, and the contracts above.\<close>

definition write_laws ::
  "('d, 'm, 'i, 'w) db_ops \<Rightarrow> ('d, 'm, 'w) batch_ops \<Rightarrow> ('d, 'm, 'k, 'w) read_ops \<Rightarrow> ('m \<Rightarrow> slice \<Rightarrow> versions)
   \<Rightarrow> nat \<Rightarrow> bool" where
  "write_laws ops ba rd chain b \<longleftrightarrow> memtable_versions ba rd chain \<and>
     Ref_increments (vo_Ref (op_vs ops)) \<and> Unref_decrements (vo_Unref (op_vs ops)) \<and>
     (\<forall>n t. ba_BuildBatchGroup ba n t = Inr (b, n, t)) \<and> op_Unlock ops = (\<lambda>t. t) \<and> op_Lock ops = (\<lambda>t. t)"

abbreviation mem_versions :: "('m \<Rightarrow> slice \<Rightarrow> versions) \<Rightarrow> nat \<Rightarrow> ('d, 'm, 'w) db \<Rightarrow> slice \<Rightarrow> versions" where
  "mem_versions chain a s \<equiv> chain (mt_table (the (db_memtables s a)))"

abbreviation last_seq :: "('d, 'm, 'w) db \<Rightarrow> u64" where
  "last_seq s \<equiv> vs_last_sequence (db_versions s)"

lemma Put_step:
  assumes laws: "write_laws ops ba rd chain b" and idle: "db_ready ok b a s" and ok: "ok Status_default"
    and upto: "versions_upto (last_seq s) (mem_versions chain a s)" and room: "unat (last_seq s) + 1 < 2 ^ 64"
  obtains st s' where "DB_Put ba (Write_alone ok ops ba w False) b key val s = Some (Inr (st, s'))"
    and "db_ready ok b a s'" and "last_seq s' = last_seq s + 1"
    and "mem_versions chain a s' = (if ok st
      then (mem_versions chain a s)(key := (last_seq s + 1, Some val) # mem_versions chain a s key)
      else mem_versions chain a s)"
proof -
  let ?n = "last_seq s" and ?rep = "ba_Put ba key val (ba_new_batch ba)"
  let ?rep' = "ba_SetSequence ba ?rep (?n + 1)"
  let ?s0 = "s\<lparr>db_batches := (db_batches s)(b \<mapsto> ?rep)\<rparr>"
  obtain l m where lm: "db_log s = Some l" "db_memtables s a = Some m" "0 < mt_refs m"
    using idle by (auto simp: db_ready_def)
  obtain st wd where log: "vo_AddRecord (op_vs ops) l ?rep' (db_world s) = (st, wd)"
    by (cases "vo_AddRecord (op_vs ops) l ?rep' (db_world s)")
  obtain t where ins: "ba_InsertInto ba ?rep' (mt_table m) = (Status_default, t)" and count: "ba_Count ba ?rep' = 1"
    and t: "chain t = (chain (mt_table m))(key := (?n + 1, Some val) # chain (mt_table m) key)"
  proof -
    have "\<forall>e \<in> set (chain (mt_table m) key). fst e < ?n + 1"
      using upto lm(2) seq_next(2) [OF room] unfolding versions_upto_def by (auto intro: le_less_trans)
    then show thesis
      using that [of "snd (ba_InsertInto ba ?rep' (mt_table m))"] laws
      unfolding write_laws_def memtable_versions_def Let_def by (metis prod.collapse)
  qed
  have pre: "db_writers ?s0 = []" "ok (db_bg_error ?s0)" "db_batches ?s0 b = Some ?rep" "b \<noteq> db_tmp_batch ?s0"
    "\<forall>t. ba_BuildBatchGroup ba ?n t = Inr (b, ?n, t)" "?n = vs_last_sequence (db_versions ?s0)"
    "op_Unlock ops = (\<lambda>t. t)" "op_Lock ops = (\<lambda>t. t)"
    "db_log ?s0 = Some l" "db_mem ?s0 = Some a" "db_memtables ?s0 a = Some m"
    using idle laws lm by (simp_all add: db_ready_def write_laws_def)
  have log0: "vo_AddRecord (op_vs ops) l ?rep' (db_world ?s0) = (st, wd)" using log by simp
  let ?ms = "if ok st then (db_memtables s)(a \<mapsto> m\<lparr>mt_table := t\<rparr>) else db_memtables s"
  obtain q bt where run: "Write_alone ok ops ba w False (Some b) ?s0 = Some (Inr (if ok st then Status_default else st,
      s\<lparr>db_writer := q, db_batches := bt, db_world := wd, db_memtables := ?ms,
        db_versions := (db_versions s)\<lparr>vs_last_sequence := ?n + 1\<rparr>\<rparr>))" (is "_ = Some (Inr (?st, ?s'))")
    using Write_alone_result [where s = ?s0 and ok = ok and w = w and b = b and ba = ba and ops = ops,
        OF pre refl log0] by (cases "ok st") (auto simp: ins count)
  have "db_ready ok b a ?s'" using idle lm by (auto simp: db_ready_def)
  moreover have "mem_versions chain a ?s' = (if ok ?st
      then (mem_versions chain a s)(key := (?n + 1, Some val) # mem_versions chain a s key)
      else mem_versions chain a s)"
    using ok lm(2) t by simp
  ultimately show thesis using that [of ?st ?s'] run by (simp add: DB_Put_def)
qed

lemma Puts_result:
  assumes laws: "write_laws ops ba rd chain b" and "db_ready ok b a s" and ok: "ok Status_default"
    and "versions_upto (last_seq s) (mem_versions chain a s)" and "unat (last_seq s) + length kvs < 2 ^ 64"
  shows "\<exists>sts s'. DB_Puts ok ops ba w b kvs s = Some (Inr (sts, s')) \<and> length sts = length kvs \<and>
    db_ready ok b a s' \<and> last_seq s' = last_seq s + of_nat (length kvs) \<and>
    mem_versions chain a s' = puts_chain ok (last_seq s) (zip kvs sts) (mem_versions chain a s)"
  using assms(2,4,5)
proof (induction kvs arbitrary: s)
  case (Cons kv kvs)
  obtain key val where kv: "kv = (key, val)" by (cases kv)
  have room: "unat (last_seq s) + 1 < 2 ^ 64" using Cons.prems(3) by simp
  obtain st s1 where 1: "DB_Put ba (Write_alone ok ops ba w False) b key val s = Some (Inr (st, s1))"
    "db_ready ok b a s1" "last_seq s1 = last_seq s + 1"
    and c: "mem_versions chain a s1 = (if ok st
      then (mem_versions chain a s)(key := (last_seq s + 1, Some val) # mem_versions chain a s key)
      else mem_versions chain a s)"
    by (rule Put_step [OF laws Cons.prems(1) ok Cons.prems(2) room])
  have "versions_upto (last_seq s1) (mem_versions chain a s1)"
    unfolding c 1(3) by (rule versions_upto_put [OF Cons.prems(2) room])
  moreover have "unat (last_seq s1) + length kvs < 2 ^ 64"
    using Cons.prems(3) seq_next(1) [OF room] by (simp add: 1(3))
  ultimately obtain sts s2 where 2: "DB_Puts ok ops ba w b kvs s1 = Some (Inr (sts, s2))" "length sts = length kvs"
    "db_ready ok b a s2" "last_seq s2 = last_seq s1 + of_nat (length kvs)"
    "mem_versions chain a s2 = puts_chain ok (last_seq s1) (zip kvs sts) (mem_versions chain a s1)"
    using Cons.IH [OF 1(2)] by blast
  have "mem_versions chain a s2 =
      puts_chain ok (last_seq s) (zip (kv # kvs) (st # sts)) (mem_versions chain a s)"
    using 2(5) by (simp add: kv c 1(3))
  then show ?case
    using 1(1,3) 2(1-4) by (intro exI [of _ "st # sts"] exI [of _ s2]) (simp add: kv rbind_def algebra_simps)
qed simp

text \<open>A read at a number whose map has the key.\<close>

lemma Get_version:
  assumes laws: "write_laws ops ba rd chain b" and idle: "db_ready ok b a s"
    and x: "newest_at (case snapshot of Some n \<Rightarrow> n | None \<Rightarrow> last_seq s) (mem_versions chain a s key) = Some x"
  shows "DBImpl_Get ok ops rd snapshot key value s = Inr (Status_default, x, s)"
proof -
  obtain m c ver where m: "db_memtables s a = Some m" "0 < mt_refs m" and c: "vs_current (db_versions s) = Some c"
    "vs_versions (db_versions s) c = Some ver" "0 < v_refs ver" "db_mem s = Some a"
    using idle by (auto simp: db_ready_def)
  have "rd_mem_Get rd (mt_table m) (rd_LookupKey rd key (case snapshot of Some n \<Rightarrow> n | None \<Rightarrow> last_seq s)) value
      Status_default = (True, x, Status_default)"
    using laws x m(1) by (simp add: write_laws_def memtable_versions_def)
  then show ?thesis
    using laws idle m c by (intro DBImpl_Get_memtable) (auto simp: write_laws_def db_ready_def)
qed

section \<open>The property\<close>

text \<open>
  C11: puts and gets refine a map, with a state for every sequence number. On an idle database whose
  memtable holds nothing beyond the last sequence number, any sequence of puts returns, whatever
  the log does, and a read after them at the number reached after the first \<open>j\<close> puts returns, for
  every key the map has then, its value in the map, which is what the memtable held, updated by
  those of the first \<open>j\<close> puts whose status counts as ok: no later put changes it. A read without
  a snapshot sees all puts. Sequence numbers must not run out.
\<close>

theorem Puts_snapshot_reads:
  assumes "write_laws ops ba rd chain b" and "db_ready ok b a s" and "ok Status_default"
    and "versions_upto (last_seq s) (mem_versions chain a s)" and "unat (last_seq s) + length kvs < 2 ^ 64"
  shows "\<exists>sts s'. DB_Puts ok ops ba w b kvs s = Some (Inr (sts, s')) \<and> length sts = length kvs \<and>
    (\<forall>j key value x. j \<le> length kvs \<longrightarrow>
       puts_map ok (take j (zip kvs sts)) (\<lambda>k. newest_at (last_seq s) (mem_versions chain a s k)) key = Some x \<longrightarrow>
       DBImpl_Get ok ops rd (Some (last_seq s + of_nat j)) key value s' = Inr (Status_default, x, s') \<and>
       (j = length kvs \<longrightarrow> DBImpl_Get ok ops rd None key value s' = Inr (Status_default, x, s')))"
proof -
  obtain sts s' where run: "DB_Puts ok ops ba w b kvs s = Some (Inr (sts, s'))" "length sts = length kvs"
    and idle: "db_ready ok b a s'" and seq: "last_seq s' = last_seq s + of_nat (length kvs)"
    and chain: "mem_versions chain a s' = puts_chain ok (last_seq s) (zip kvs sts) (mem_versions chain a s)"
    using Puts_result [OF assms] by blast
  have len: "unat (last_seq s) + length (zip kvs sts) < 2 ^ 64" using assms(5) run(2) by simp
  note seen = puts_chain_map [where ok = ok, OF assms(4) len, folded chain]
  have reads: "DBImpl_Get ok ops rd sn key v s' = Inr (Status_default, x, s')"
    if "j \<le> length kvs" "sn = Some (last_seq s + of_nat j) \<or> sn = None \<and> j = length kvs"
      "puts_map ok (take j (zip kvs sts)) (\<lambda>k. newest_at (last_seq s) (mem_versions chain a s k)) key = Some x"
    for sn j key v x
  proof (rule Get_version [OF assms(1) idle])
    have "newest_at (last_seq s + of_nat j) (mem_versions chain a s' key) = Some x"
      using that(1,3) run(2) by (subst seen) simp_all
    then show "newest_at (case sn of Some n \<Rightarrow> n | None \<Rightarrow> last_seq s') (mem_versions chain a s' key) = Some x"
      using that(2) unfolding seq by (elim disjE conjE) simp_all
  qed
  show ?thesis
  proof (rule exI [of _ sts], rule exI [of _ s'], intro conjI allI impI)
    show "DB_Puts ok ops ba w b kvs s = Some (Inr (sts, s'))" "length sts = length kvs" by (fact run)+
    fix j key v x
    assume 1: "j \<le> length kvs"
      "puts_map ok (take j (zip kvs sts)) (\<lambda>k. newest_at (last_seq s) (mem_versions chain a s k)) key = Some x"
    show "DBImpl_Get ok ops rd (Some (last_seq s + of_nat j)) key v s' = Inr (Status_default, x, s')"
      by (rule reads [OF 1(1) _ 1(2)]) simp
    show "DBImpl_Get ok ops rd None key v s' = Inr (Status_default, x, s')" if "j = length kvs"
      by (rule reads [OF 1(1) _ 1(2)]) (simp add: that)
  qed
qed

section \<open>An instance\<close>

text \<open>
  A batch and a lookup key carry their sequence number in front, in unary, and so do the values in
  the memtable, which is a list with the newest entry first.
\<close>

definition ex_stamp :: "nat \<Rightarrow> string \<Rightarrow> string" where
  "ex_stamp n r = replicate n CHR ''1'' @ CHR ''0'' # r"

definition ex_stamped :: "string \<Rightarrow> nat \<times> string" where
  "ex_stamped r = (let n = length (takeWhile (\<lambda>c. c = CHR ''1'') r) in (n, drop (Suc n) r))"

lemma ex_stamped_stamp [simp]: "ex_stamped (ex_stamp n r) = (n, r)"
proof -
  have "takeWhile (\<lambda>c. c = CHR ''1'') (replicate n CHR ''1'' @ CHR ''0'' # r) = replicate n CHR ''1''"
    by (subst takeWhile_append2) auto
  then show ?thesis by (simp add: ex_stamped_def ex_stamp_def)
qed

definition ex_chain :: "entries \<Rightarrow> slice \<Rightarrow> versions" where
  "ex_chain t k = map (\<lambda>e. case ex_stamped (snd e) of (n, v) \<Rightarrow> (of_nat n, Some v)) (filter (\<lambda>e. fst e = k) t)"

definition ex_numbered :: "(int, entries, string list) batch_ops" where
  "ex_numbered = ex_put\<lparr>ba_SetSequence := (\<lambda>r n. ex_stamp (unat n) r),
     ba_InsertInto := (\<lambda>r m. case ex_stamped r of (n, e) \<Rightarrow>
       case ex_decode e of (k, v) \<Rightarrow> (Status_default, (k, ex_stamp n v) # m))\<rparr>"

definition ex_at :: "(int, entries, slice, string list) read_ops" where
  "ex_at = ex_read\<lparr>rd_LookupKey := (\<lambda>k n. ex_stamp (unat n) k),
     rd_mem_Get := (\<lambda>t lk v st. case ex_stamped lk of (n, k) \<Rightarrow>
       case newest_at (of_nat n) (ex_chain t k) of Some x \<Rightarrow> (True, x, st) | None \<Rightarrow> (False, v, st))\<rparr>"

definition ex_idle :: "(int, entries, string list) db" where
  "ex_idle = ex_state\<lparr>db_writers := [], db_memtables := (db_memtables ex_state)(0 \<mapsto> \<lparr>mt_refs = 1, mt_table = []\<rparr>)\<rparr>"

lemma ex_write_laws: "write_laws ex_db_ops ex_numbered ex_at ex_chain 5"
proof -
  have "memtable_versions ex_numbered ex_at ex_chain"
    by (auto simp: memtable_versions_def ex_numbered_def ex_at_def ex_put_def ex_decode_put ex_chain_def Let_def)
  then show ?thesis
    using ex_Ref ex_Unref by (simp add: write_laws_def ex_db_ops_def ex_ops_def ex_numbered_def ex_put_def)
qed

theorem Puts_snapshot_reads_witness:
  "\<exists>sts s'. DB_Puts Status_ok ex_db_ops ex_numbered 9 5 [(''a'', ''1''), (''a'', ''2'')] ex_idle = Some (Inr (sts, s')) \<and>
    DBImpl_Get Status_ok ex_db_ops ex_at (Some 1) ''a'' '''' s' = Inr (Status_default, ''1'', s') \<and>
    DBImpl_Get Status_ok ex_db_ops ex_at None ''a'' '''' s' = Inr (Status_default, ''2'', s')"
proof -
  let ?kvs = "[(''a'', ''1''), (''a'', ''2'')] :: (slice \<times> slice) list"
  have ready: "db_ready Status_ok 5 0 ex_idle"
    by (auto simp: db_ready_def ex_idle_def ex_state_def ex_vset_def Status_ok_def)
  have zero: "last_seq ex_idle = 0" "\<And>k. mem_versions ex_chain 0 ex_idle k = []"
    by (simp_all add: ex_idle_def ex_state_def ex_vset_def ex_chain_def)
  have upto: "versions_upto (last_seq ex_idle) (mem_versions ex_chain 0 ex_idle)"
    by (simp add: versions_upto_def zero)
  have room: "unat (last_seq ex_idle) + length ?kvs < 2 ^ 64" by (simp add: zero)
  have ok: "Status_ok Status_default" by (simp add: Status_ok_def)
  obtain sts s' where run: "DB_Puts Status_ok ex_db_ops ex_numbered 9 5 ?kvs ex_idle = Some (Inr (sts, s'))" "length sts = length ?kvs"
    and reads: "\<forall>j key value x. j \<le> length ?kvs \<longrightarrow>
       puts_map Status_ok (take j (zip ?kvs sts)) (\<lambda>k. newest_at 0 []) key = Some x \<longrightarrow>
       DBImpl_Get Status_ok ex_db_ops ex_at (Some (0 + of_nat j)) key value s' = Inr (Status_default, x, s') \<and>
       (j = length ?kvs \<longrightarrow> DBImpl_Get Status_ok ex_db_ops ex_at None key value s' = Inr (Status_default, x, s'))"
    using Puts_snapshot_reads [OF ex_write_laws ready ok upto room, of 9] unfolding zero by blast
  obtain st1 st2 where sts: "sts = [st1, st2]" using run(2) by (auto simp: length_Suc_conv numeral_2_eq_2)
  have "DBImpl_Get Status_ok ex_db_ops ex_at (Some 1) ''a'' '''' s' = Inr (Status_default, ''1'', s')"
    using reads [THEN spec, of 1] by (simp add: sts Status_ok_def)
  moreover have "DBImpl_Get Status_ok ex_db_ops ex_at None ''a'' '''' s' = Inr (Status_default, ''2'', s')"
    using reads [THEN spec, of 2] by (simp add: sts Status_ok_def)
  ultimately show ?thesis using run(1) by blast
qed

end
