(* ===== verification/TableFormat.thy ===== *)
theory TableFormat
  imports Status
begin

text \<open>
  The vocabulary of table files: \<open>table/format.h\<close>, and the options the table code reads.

  \<open>include/leveldb/options.h\<close> declares \<open>create_if_missing\<close> only; the other members of
  \<open>Options\<close> and \<open>ReadOptions\<close> below are those the table code uses without declaring them.
  Pointers to objects of classes that are not in the repository (comparators, filter policies,
  the block cache) are numbers, \<open>None\<close> for \<open>nullptr\<close>. \<open>BlockHandle::EncodeTo\<close> and
  \<open>DecodeFrom\<close> are declared only.
\<close>

record block_handle =
  bh_offset :: u64
  bh_size :: u64

definition BlockHandle_offset :: "block_handle \<Rightarrow> u64" where
  "BlockHandle_offset h = bh_offset h"

definition BlockHandle_set_offset :: "u64 \<Rightarrow> block_handle \<Rightarrow> block_handle" where
  "BlockHandle_set_offset offset h = h\<lparr>bh_offset := offset\<rparr>"

definition BlockHandle_size :: "block_handle \<Rightarrow> u64" where
  "BlockHandle_size h = bh_size h"

definition BlockHandle_set_size :: "u64 \<Rightarrow> block_handle \<Rightarrow> block_handle" where
  "BlockHandle_set_size sz h = h\<lparr>bh_size := sz\<rparr>"

definition kMaxEncodedLength :: nat where
  "kMaxEncodedLength = 10 + 10"

text \<open>The enumerator is \<open>kEncodedLength\<close>; \<open>table.cc\<close> also spells it \<open>kEncodeLength\<close>.\<close>

definition kEncodedLength :: nat where
  "kEncodedLength = 2 * kMaxEncodedLength + 8"

record block_contents =
  bc_data :: slice
  bc_cachable :: bool
  bc_heap_allocated :: bool

record options =
  opt_create_if_missing :: bool
  opt_comparator :: nat
  opt_paranoid_checks :: bool
  opt_block_cache :: "nat option"
  opt_filter_policy :: "nat option"
  opt_block_restart_interval :: int

record read_options =
  ro_verify_checksums :: bool
  ro_fill_cache :: bool

lemma kEncodedLength_value: "kEncodedLength = 48"
  by (simp add: kEncodedLength_def kMaxEncodedLength_def)

lemma BlockHandle_accessors [simp]:
  "BlockHandle_offset (BlockHandle_set_offset n h) = n"
  "BlockHandle_size (BlockHandle_set_size n h) = n"
  "BlockHandle_size (BlockHandle_set_offset n h) = BlockHandle_size h"
  "BlockHandle_offset (BlockHandle_set_size n h) = BlockHandle_offset h"
  by (simp_all add: BlockHandle_offset_def BlockHandle_size_def BlockHandle_set_offset_def
      BlockHandle_set_size_def)

end
