(* ===== verification/Heap.thy ===== *)
theory Heap
  imports LdbPrelude
begin

text \<open>
  Objects reached through a pointer. A heap maps addresses to the objects that live there and
  hands out addresses it never used before; \<open>None\<close> stands for \<open>nullptr\<close>. Reading through a
  null or dangling pointer is a fault, and so is deleting an object twice.
\<close>

record 'a heap =
  hp_at :: "nat \<Rightarrow> 'a option"
  hp_next :: nat

definition hp_empty :: "'a heap" where
  "hp_empty = \<lparr>hp_at = Map.empty, hp_next = 0\<rparr>"

definition hp_new :: "'a \<Rightarrow> 'a heap \<Rightarrow> nat \<times> 'a heap" where
  "hp_new x h = (hp_next h, h\<lparr>hp_at := (hp_at h)(hp_next h \<mapsto> x), hp_next := Suc (hp_next h)\<rparr>)"

definition hp_load :: "'a heap \<Rightarrow> nat option \<Rightarrow> 'a outcome" where
  "hp_load h p =
     (case p of None \<Rightarrow> Inl NullDeref
      | Some a \<Rightarrow> (case hp_at h a of None \<Rightarrow> Inl BadAddress | Some x \<Rightarrow> Inr x))"

definition hp_store :: "nat \<Rightarrow> 'a \<Rightarrow> 'a heap \<Rightarrow> 'a heap" where
  "hp_store a x h = h\<lparr>hp_at := (hp_at h)(a \<mapsto> x)\<rparr>"

definition hp_delete :: "nat option \<Rightarrow> 'a heap \<Rightarrow> 'a heap outcome" where
  "hp_delete p h =
     (case p of None \<Rightarrow> Inr h
      | Some a \<Rightarrow> (case hp_at h a of None \<Rightarrow> Inl BadAddress
                 | Some _ \<Rightarrow> Inr (h\<lparr>hp_at := (hp_at h)(a := None)\<rparr>)))"

definition hp_live :: "'a heap \<Rightarrow> nat set" where
  "hp_live h = dom (hp_at h)"

text \<open>Every object lives below the next address.\<close>

definition hp_ok :: "'a heap \<Rightarrow> bool" where
  "hp_ok h \<longleftrightarrow> (\<forall>a \<in> hp_live h. a < hp_next h)"

lemma hp_fresh [simp]: "hp_ok h \<Longrightarrow> hp_at h (hp_next h) = None"
  by (auto simp: hp_ok_def hp_live_def)

lemma hp_fresh_live [simp]: "hp_ok h \<Longrightarrow> hp_next h \<notin> hp_live h"
  by (auto simp: hp_ok_def)

lemma hp_live_iff: "a \<in> hp_live h \<longleftrightarrow> (\<exists>x. hp_at h a = Some x)"
  by (auto simp: hp_live_def)

lemma hp_empty_simps [simp]: "hp_at hp_empty a = None" "hp_ok hp_empty" "hp_live hp_empty = {}"
  by (simp_all add: hp_empty_def hp_ok_def hp_live_def)

lemma hp_new_eq:
  "hp_new x h = (a, h') \<longleftrightarrow>
     a = hp_next h \<and> h' = h\<lparr>hp_at := (hp_at h)(hp_next h \<mapsto> x), hp_next := Suc (hp_next h)\<rparr>"
  by (auto simp: hp_new_def)

lemma hp_ok_new [simp]:
  "hp_ok h \<Longrightarrow> hp_ok (h\<lparr>hp_at := (hp_at h)(hp_next h \<mapsto> x), hp_next := Suc (hp_next h)\<rparr>)"
  by (auto simp: hp_ok_def hp_live_def less_Suc_eq)

lemma hp_ok_remove [simp]: "hp_ok h \<Longrightarrow> hp_ok (h\<lparr>hp_at := (hp_at h)(a := None)\<rparr>)"
  by (auto simp: hp_ok_def hp_live_def)

lemma hp_ok_store [simp]: "hp_ok h \<Longrightarrow> hp_at h a = Some y \<Longrightarrow> hp_ok (hp_store a x h)"
  by (auto simp: hp_ok_def hp_live_def hp_store_def)

lemma hp_load_simps [simp]:
  "hp_load h None = Inl NullDeref"
  "hp_at h a = Some x \<Longrightarrow> hp_load h (Some a) = Inr x"
  by (simp_all add: hp_load_def)

lemma hp_load_Inr: "hp_load h p = Inr x \<longleftrightarrow> (\<exists>a. p = Some a \<and> hp_at h a = Some x)"
  by (auto simp: hp_load_def split: option.splits)

lemma hp_delete_simps [simp]:
  "hp_delete None h = Inr h"
  "hp_at h a = Some x \<Longrightarrow> hp_delete (Some a) h = Inr (h\<lparr>hp_at := (hp_at h)(a := None)\<rparr>)"
  by (simp_all add: hp_delete_def)

text \<open>A pointer that is null or points to a live object.\<close>

definition hp_valid :: "'a heap \<Rightarrow> nat option \<Rightarrow> bool" where
  "hp_valid h p \<longleftrightarrow> (case p of None \<Rightarrow> True | Some a \<Rightarrow> a \<in> hp_live h)"

lemma hp_valid_simps [simp]:
  "hp_valid h None" "hp_valid h (Some a) \<longleftrightarrow> a \<in> hp_live h"
  by (simp_all add: hp_valid_def)

end
