(* ===== verification/Table.thy ===== *)
theory Table
  imports TableFormat Heap
begin

text \<open>
  \<open>Table\<close> of \<open>table/table.cc\<close>: opening a table file, its meta block and its filter, and the
  reader of its data blocks.

  A \<open>Table\<close> and the \<open>Rep\<close> it owns are one object. The objects the code allocates and deletes
  live in heaps: random access files, blocks, filter readers, tables, and the entries of the
  table cache (\<open>TableCache\<close>). The characters \<open>filter_data\<close> points to are kept in the table that
  owns them. What the code calls and the repository does not define is a field of \<open>table_ops\<close>:
  reading a file, \<open>ReadBlock\<close>, \<open>Footer::DecodeFrom\<close>, \<open>BlockHandle::DecodeFrom\<close>, the classes
  \<open>Block\<close> and \<open>FilterBlockReader\<close>, and \<open>Cache::NewId\<close>. Lines 80 and 85 write \<open>->\<close> where
  \<open>options\<close> is a member by value, and line 91 \<open>&content\<close> for \<open>&contents\<close>.
\<close>

section \<open>State\<close>

record table_rep =
  rp_options :: options
  rp_status :: status
  rp_file :: "nat option"
  rp_cache_id :: u64
  rp_filter :: "nat option"
  rp_filter_data :: "slice option"
  rp_metaindex_handle :: block_handle
  rp_index_block :: "nat option"

record table_and_file =
  tf_file :: "nat option"
  tf_table :: "nat option"

record ('f, 'b, 'q, 'w) tables =
  tb_files :: "'f heap"
  tb_blocks :: "'b heap"
  tb_filters :: "'q heap"
  tb_tables :: "table_rep heap"
  tb_entries :: "table_and_file heap"
  tb_world :: 'w

text \<open>
  A decoder returns its status and what it leaves in the object it fills, whether it succeeds
  or not. \<open>to_Seek b key\<close> is the entry the iterator of block \<open>b\<close> stands on after \<open>Seek(key)\<close>,
  \<open>None\<close> when it is not valid.
\<close>

record ('f, 'b, 'q, 'w) table_ops =
  to_Read :: "'f \<Rightarrow> u64 \<Rightarrow> nat \<Rightarrow> 'w \<Rightarrow> status \<times> slice \<times> 'w"
  to_DecodeFooter :: "slice \<Rightarrow> status \<times> block_handle \<times> block_handle"
  to_DecodeHandle :: "slice \<Rightarrow> status \<times> block_handle"
  to_ReadBlock :: "'f \<Rightarrow> read_options \<Rightarrow> block_handle \<Rightarrow> 'w \<Rightarrow> status \<times> block_contents \<times> 'w"
  to_ReadOptions :: read_options
  to_Block :: "block_contents \<Rightarrow> 'b"
  to_Block_size :: "'b \<Rightarrow> nat"
  to_Seek :: "'b \<Rightarrow> slice \<Rightarrow> (slice \<times> slice) option"
  to_policy_Name :: "nat \<Rightarrow> string"
  to_FilterBlockReader :: "nat option \<Rightarrow> slice \<Rightarrow> 'q"
  to_NewId :: "nat \<Rightarrow> 'w \<Rightarrow> u64 \<times> 'w"

definition ReadBlock ::
  "('f, 'b, 'q, 'w) table_ops \<Rightarrow> nat option \<Rightarrow> read_options \<Rightarrow> block_handle
   \<Rightarrow> ('f, 'b, 'q, 'w) tables \<Rightarrow> (status \<times> block_contents \<times> ('f, 'b, 'q, 'w) tables) outcome" where
  "ReadBlock ops file opt handle s =
     obind (hp_load (tb_files s) file) (\<lambda>f.
       case to_ReadBlock ops f opt handle (tb_world s) of
         (st, contents, w) \<Rightarrow> Inr (st, contents, s\<lparr>tb_world := w\<rparr>))"

definition new_Block ::
  "('f, 'b, 'q, 'w) table_ops \<Rightarrow> block_contents \<Rightarrow> ('f, 'b, 'q, 'w) tables
   \<Rightarrow> nat \<times> ('f, 'b, 'q, 'w) tables" where
  "new_Block ops contents s =
     (case hp_new (to_Block ops contents) (tb_blocks s) of (b, h) \<Rightarrow> (b, s\<lparr>tb_blocks := h\<rparr>))"

definition delete_Block ::
  "nat option \<Rightarrow> ('f, 'b, 'q, 'w) tables \<Rightarrow> ('f, 'b, 'q, 'w) tables outcome" where
  "delete_Block b s = obind (hp_delete b (tb_blocks s)) (\<lambda>h. Inr (s\<lparr>tb_blocks := h\<rparr>))"

definition store_table ::
  "nat \<Rightarrow> table_rep \<Rightarrow> ('f, 'b, 'q, 'w) tables \<Rightarrow> ('f, 'b, 'q, 'w) tables" where
  "store_table t r s = s\<lparr>tb_tables := hp_store t r (tb_tables s)\<rparr>"

text \<open>\<open>ReadOptions opt; if (paranoid_checks) opt.verify_checksums = true;\<close>\<close>

definition read_opt :: "('f, 'b, 'q, 'w) table_ops \<Rightarrow> options \<Rightarrow> read_options" where
  "read_opt ops options =
     (if opt_paranoid_checks options then (to_ReadOptions ops)\<lparr>ro_verify_checksums := True\<rparr>
      else to_ReadOptions ops)"

section \<open>The meta block and the filter\<close>

definition ReadFilter ::
  "(status \<Rightarrow> bool) \<Rightarrow> ('f, 'b, 'q, 'w) table_ops \<Rightarrow> nat \<Rightarrow> slice
   \<Rightarrow> ('f, 'b, 'q, 'w) tables \<Rightarrow> ('f, 'b, 'q, 'w) tables outcome" where
  "ReadFilter ok ops t filter_handle_value s =
     (case to_DecodeHandle ops filter_handle_value of (st, filter_handle) \<Rightarrow>
       if \<not> ok st then Inr s
       else
         obind (hp_load (tb_tables s) (Some t)) (\<lambda>r.
         obind (ReadBlock ops (rp_file r) (read_opt ops (rp_options r)) filter_handle s) (\<lambda>(st, block, s).
           if \<not> ok st then Inr s
           else
             let r = (if bc_heap_allocated block then r\<lparr>rp_filter_data := Some (bc_data block)\<rparr> else r)
             in (case hp_new (to_FilterBlockReader ops (opt_filter_policy (rp_options r)) (bc_data block))
                        (tb_filters s) of
                   (q, h) \<Rightarrow> Inr (store_table t (r\<lparr>rp_filter := Some q\<rparr>) (s\<lparr>tb_filters := h\<rparr>))))))"

text \<open>Lines 97-100: the entry of the meta block under the name of the filter.\<close>

definition ReadMeta_entry ::
  "(status \<Rightarrow> bool) \<Rightarrow> ('f, 'b, 'q, 'w) table_ops \<Rightarrow> nat \<Rightarrow> 'b \<Rightarrow> slice
   \<Rightarrow> ('f, 'b, 'q, 'w) tables \<Rightarrow> ('f, 'b, 'q, 'w) tables outcome" where
  "ReadMeta_entry ok ops t meta key s =
     (case to_Seek ops meta key of
        None \<Rightarrow> Inr s
      | Some (k, v) \<Rightarrow> if k = key then ReadFilter ok ops t v s else Inr s)"

text \<open>Lines 92-102: the block, its iterator, and their deletion.\<close>

definition ReadMeta_block ::
  "(status \<Rightarrow> bool) \<Rightarrow> ('f, 'b, 'q, 'w) table_ops \<Rightarrow> nat \<Rightarrow> slice \<Rightarrow> block_contents
   \<Rightarrow> ('f, 'b, 'q, 'w) tables \<Rightarrow> ('f, 'b, 'q, 'w) tables outcome" where
  "ReadMeta_block ok ops t key contents s =
     (case new_Block ops contents s of (meta, s) \<Rightarrow>
        obind (hp_load (tb_blocks s) (Some meta)) (\<lambda>b.
        obind (ReadMeta_entry ok ops t b key s) (delete_Block (Some meta))))"

definition ReadMeta ::
  "(status \<Rightarrow> bool) \<Rightarrow> ('f, 'b, 'q, 'w) table_ops \<Rightarrow> nat \<Rightarrow> block_handle
   \<Rightarrow> ('f, 'b, 'q, 'w) tables \<Rightarrow> ('f, 'b, 'q, 'w) tables outcome" where
  "ReadMeta ok ops t metaindex_handle s =
     obind (hp_load (tb_tables s) (Some t)) (\<lambda>r.
       case opt_filter_policy (rp_options r) of
         None \<Rightarrow> Inr s
       | Some policy \<Rightarrow>
           obind (ReadBlock ops (rp_file r) (read_opt ops (rp_options r)) metaindex_handle s)
             (\<lambda>(st, contents, s).
             if \<not> ok st then Inr s
             else ReadMeta_block ok ops t (''filter.'' @ to_policy_Name ops policy) contents s))"

section \<open>Opening and closing\<close>

definition new_cache_id :: "('f, 'b, 'q, 'w) table_ops \<Rightarrow> options \<Rightarrow> 'w \<Rightarrow> u64 \<times> 'w" where
  "new_cache_id ops options w =
     (case opt_block_cache options of None \<Rightarrow> (0, w) | Some c \<Rightarrow> to_NewId ops c w)"

text \<open>The result of \<open>Open\<close> is its status and what it leaves in \<open>*table\<close>.\<close>

definition Table_Open ::
  "(status \<Rightarrow> bool) \<Rightarrow> ('f, 'b, 'q, 'w) table_ops \<Rightarrow> options \<Rightarrow> nat option \<Rightarrow> u64
   \<Rightarrow> ('f, 'b, 'q, 'w) tables \<Rightarrow> (status \<times> nat option \<times> ('f, 'b, 'q, 'w) tables) outcome" where
  "Table_Open ok ops options file sz s =
     (if sz < of_nat kEncodedLength
      then Inr (Status_Corruption ''file is too short to be a sstable'' '''', None, s)
      else
        obind (hp_load (tb_files s) file) (\<lambda>f.
        case to_Read ops f (sz - of_nat kEncodedLength) kEncodedLength (tb_world s) of
          (st, footer_input, w) \<Rightarrow>
        let s = s\<lparr>tb_world := w\<rparr> in
        if \<not> ok st then Inr (st, None, s)
        else (case to_DecodeFooter ops footer_input of (st, metaindex_handle, index_handle) \<Rightarrow>
        if \<not> ok st then Inr (st, None, s)
        else
          obind (ReadBlock ops file (read_opt ops options) index_handle s) (\<lambda>(st, contents, s).
          if \<not> ok st then Inr (st, None, s)
          else (case new_Block ops contents s of (index_block, s) \<Rightarrow>
            (case new_cache_id ops options (tb_world s) of (cache_id, w) \<Rightarrow>
             (case hp_new \<lparr>rp_options = options, rp_status = Status_default, rp_file = file,
                           rp_cache_id = cache_id, rp_filter = None, rp_filter_data = None,
                           rp_metaindex_handle = metaindex_handle,
                           rp_index_block = Some index_block\<rparr> (tb_tables s) of (t, h) \<Rightarrow>
              obind (ReadMeta ok ops t metaindex_handle (s\<lparr>tb_world := w, tb_tables := h\<rparr>)) (\<lambda>s.
                Inr (st, Some t, s)))))))))"

definition delete_Table ::
  "nat option \<Rightarrow> ('f, 'b, 'q, 'w) tables \<Rightarrow> ('f, 'b, 'q, 'w) tables outcome" where
  "delete_Table p s =
     (case p of None \<Rightarrow> Inr s
      | Some t \<Rightarrow>
          obind (hp_load (tb_tables s) p) (\<lambda>r.
          obind (hp_delete (rp_filter r) (tb_filters s)) (\<lambda>h.
          obind (delete_Block (rp_index_block r) (s\<lparr>tb_filters := h\<rparr>)) (\<lambda>s.
          obind (hp_delete p (tb_tables s)) (\<lambda>h.
            Inr (s\<lparr>tb_tables := h\<rparr>))))))"

section \<open>Reading a block\<close>

text \<open>
  The iterator \<open>BlockReader\<close> returns: over a block, with the cleanup registered for it, or an
  iterator that only has a status. \<open>DeleteBlock\<close> deletes the block, \<open>ReleaseBlock\<close> releases a
  handle of the block cache; neither they nor \<open>DeleteCachedBlock\<close> have a body in the repository.
\<close>

datatype 'h cleanup = DeleteBlock nat | ReleaseBlock nat 'h

datatype 'h block_iter = Block_iterator nat nat "'h cleanup" | Error_iterator status

record ('h, 's) block_cache_ops =
  bk_Lookup :: "nat \<Rightarrow> slice \<Rightarrow> 's \<Rightarrow> 'h option \<times> 's"
  bk_Value :: "nat \<Rightarrow> 'h \<Rightarrow> 's \<Rightarrow> nat"
  bk_Insert :: "nat \<Rightarrow> slice \<Rightarrow> nat \<Rightarrow> nat \<Rightarrow> 's \<Rightarrow> 'h \<times> 's"

definition block_cache_key :: "(u64 \<Rightarrow> slice) \<Rightarrow> u64 \<Rightarrow> block_handle \<Rightarrow> slice" where
  "block_cache_key EncodeFixed64 cache_id handle =
     EncodeFixed64 cache_id @ EncodeFixed64 (BlockHandle_offset handle)"

text \<open>Lines 152-168: the block and the handle of the block cache that keeps it, if any.\<close>

definition BlockReader_cached ::
  "(status \<Rightarrow> bool) \<Rightarrow> ('f, 'b, 'q, 'w) table_ops \<Rightarrow> ('h, ('f, 'b, 'q, 'w) tables) block_cache_ops
   \<Rightarrow> nat \<Rightarrow> slice \<Rightarrow> nat option \<Rightarrow> read_options \<Rightarrow> block_handle \<Rightarrow> status \<Rightarrow> ('f, 'b, 'q, 'w) tables
   \<Rightarrow> (status \<times> nat option \<times> 'h option \<times> ('f, 'b, 'q, 'w) tables) outcome" where
  "BlockReader_cached ok ops bk cache key file options handle st0 s =
     (case bk_Lookup bk cache key s of
        (Some h, s) \<Rightarrow> Inr (st0, Some (bk_Value bk cache h s), Some h, s)
      | (None, s) \<Rightarrow>
          obind (ReadBlock ops file options handle s) (\<lambda>(st, contents, s).
          if \<not> ok st then Inr (st, None, None, s)
          else (case new_Block ops contents s of (b, s) \<Rightarrow>
            if bc_cachable contents \<and> ro_fill_cache options
            then obind (hp_load (tb_blocks s) (Some b)) (\<lambda>blk.
                   case bk_Insert bk cache key b (to_Block_size ops blk) s of
                     (h, s) \<Rightarrow> Inr (st, Some b, Some h, s))
            else Inr (st, Some b, None, s))))"

definition BlockReader_uncached ::
  "(status \<Rightarrow> bool) \<Rightarrow> ('f, 'b, 'q, 'w) table_ops \<Rightarrow> nat option \<Rightarrow> read_options \<Rightarrow> block_handle
   \<Rightarrow> ('f, 'b, 'q, 'w) tables
   \<Rightarrow> (status \<times> nat option \<times> 'h option \<times> ('f, 'b, 'q, 'w) tables) outcome" where
  "BlockReader_uncached ok ops file options handle s =
     obind (ReadBlock ops file options handle s) (\<lambda>(st, contents, s).
       if \<not> ok st then Inr (st, None, None, s)
       else (case new_Block ops contents s of (b, s) \<Rightarrow> Inr (st, Some b, None, s)))"

definition BlockReader_iter ::
  "options \<Rightarrow> status \<times> nat option \<times> 'h option \<times> ('f, 'b, 'q, 'w) tables
   \<Rightarrow> ('h block_iter \<times> ('f, 'b, 'q, 'w) tables) outcome" where
  "BlockReader_iter options r =
     (case r of (st, block, cache_handle, s) \<Rightarrow>
       (case block of
          None \<Rightarrow> Inr (Error_iterator st, s)
        | Some b \<Rightarrow>
            (case cache_handle of
               None \<Rightarrow> Inr (Block_iterator (opt_comparator options) b (DeleteBlock b), s)
             | Some h \<Rightarrow>
                 (case opt_block_cache options of None \<Rightarrow> Inl NullDeref
                  | Some c \<Rightarrow> Inr (Block_iterator (opt_comparator options) b (ReleaseBlock c h), s)))))"

definition BlockReader ::
  "(status \<Rightarrow> bool) \<Rightarrow> ('f, 'b, 'q, 'w) table_ops \<Rightarrow> ('h, ('f, 'b, 'q, 'w) tables) block_cache_ops
   \<Rightarrow> (u64 \<Rightarrow> slice) \<Rightarrow> nat \<Rightarrow> read_options \<Rightarrow> slice \<Rightarrow> ('f, 'b, 'q, 'w) tables
   \<Rightarrow> ('h block_iter \<times> ('f, 'b, 'q, 'w) tables) outcome" where
  "BlockReader ok ops bk EncodeFixed64 t options index_value s =
     obind (hp_load (tb_tables s) (Some t)) (\<lambda>r.
     case to_DecodeHandle ops index_value of (st, handle) \<Rightarrow>
     obind (if ok st
            then (case opt_block_cache (rp_options r) of
                    Some cache \<Rightarrow>
                      BlockReader_cached ok ops bk cache
                        (block_cache_key EncodeFixed64 (rp_cache_id r) handle)
                        (rp_file r) options handle st s
                  | None \<Rightarrow> BlockReader_uncached ok ops (rp_file r) options handle s)
            else Inr (st, None, None, s))
       (BlockReader_iter (rp_options r)))"

end
