(* ===== verification/TableCache.thy ===== *)
theory TableCache
  imports Table
begin

text \<open>
  \<open>TableCache\<close> of \<open>db/table_cache.cc\<close>: the cache of open tables, by file number.

  \<open>Cache\<close> (\<open>include/leveldb/cache.h\<close> is empty), \<open>Env::NewRandomAccessFile\<close>, \<open>Table::InternalGet\<close>,
  \<open>EncodeFixed64\<close> and the names of table files are not in the repository: they are the fields of
  \<open>cache_ops\<close>. \<open>Insert\<close> and \<open>Release\<close> give the entries the cache drops, and with them the
  calls of the deleter \<open>DeleteEntry\<close> it makes. Line 43 writes \<open>dbname\<close> for \<open>dbname_\<close>.
  \<open>NewIterator\<close> and \<open>Evict\<close> are declared only.
\<close>

section \<open>Operations\<close>

record ('h, 'f, 'b, 'q, 'a, 'w) cache_ops =
  tc_Lookup :: "slice \<Rightarrow> 'w \<Rightarrow> 'h option \<times> 'w"
  tc_Value :: "'h \<Rightarrow> 'w \<Rightarrow> nat"
  tc_Insert :: "slice \<Rightarrow> nat \<Rightarrow> nat \<Rightarrow> 'w \<Rightarrow> 'h \<times> (slice \<times> nat) list \<times> 'w"
  tc_Release :: "'h \<Rightarrow> 'w \<Rightarrow> (slice \<times> nat) list \<times> 'w"
  tc_NewRandomAccessFile :: "string \<Rightarrow> 'w \<Rightarrow> status \<times> 'f option \<times> 'w"
  tc_TableFileName :: "string \<Rightarrow> u64 \<Rightarrow> string"
  tc_SSTTableFileName :: "string \<Rightarrow> u64 \<Rightarrow> string"
  tc_EncodeFixed64 :: "u64 \<Rightarrow> slice"
  tc_InternalGet :: "read_options \<Rightarrow> nat \<Rightarrow> slice \<Rightarrow> (slice \<Rightarrow> slice \<Rightarrow> 'a \<Rightarrow> 'a) \<Rightarrow> 'a
     \<Rightarrow> ('f, 'b, 'q, 'w) tables \<Rightarrow> status \<times> 'a \<times> ('f, 'b, 'q, 'w) tables"

definition delete_file ::
  "nat option \<Rightarrow> ('f, 'b, 'q, 'w) tables \<Rightarrow> ('f, 'b, 'q, 'w) tables outcome" where
  "delete_file f s = obind (hp_delete f (tb_files s)) (\<lambda>h. Inr (s\<lparr>tb_files := h\<rparr>))"

definition DeleteEntry ::
  "slice \<Rightarrow> nat \<Rightarrow> ('f, 'b, 'q, 'w) tables \<Rightarrow> ('f, 'b, 'q, 'w) tables outcome" where
  "DeleteEntry key e s =
     obind (hp_load (tb_entries s) (Some e)) (\<lambda>tf.
     obind (delete_Table (tf_table tf) s) (\<lambda>s.
     obind (delete_file (tf_file tf) s) (\<lambda>s.
     obind (hp_delete (Some e) (tb_entries s)) (\<lambda>h.
       Inr (s\<lparr>tb_entries := h\<rparr>)))))"

definition drop_entries ::
  "(slice \<times> nat) list \<Rightarrow> ('f, 'b, 'q, 'w) tables \<Rightarrow> ('f, 'b, 'q, 'w) tables outcome" where
  "drop_entries es s = ofold (\<lambda>(k, e). DeleteEntry k e) es s"

text \<open>\<open>UnrefEntry\<close> is the cleanup \<open>NewIterator\<close> registers; \<open>Get\<close> releases the same way.\<close>

definition UnrefEntry ::
  "('h, 'f, 'b, 'q, 'a, 'w) cache_ops \<Rightarrow> 'h \<Rightarrow> ('f, 'b, 'q, 'w) tables
   \<Rightarrow> ('f, 'b, 'q, 'w) tables outcome" where
  "UnrefEntry tc h s =
     (case tc_Release tc h (tb_world s) of (dropped, w) \<Rightarrow> drop_entries dropped (s\<lparr>tb_world := w\<rparr>))"

definition new_RandomAccessFile ::
  "('h, 'f, 'b, 'q, 'a, 'w) cache_ops \<Rightarrow> string \<Rightarrow> ('f, 'b, 'q, 'w) tables
   \<Rightarrow> status \<times> nat option \<times> ('f, 'b, 'q, 'w) tables" where
  "new_RandomAccessFile tc fname s =
     (case tc_NewRandomAccessFile tc fname (tb_world s) of
        (st, None, w) \<Rightarrow> (st, None, s\<lparr>tb_world := w\<rparr>)
      | (st, Some f, w) \<Rightarrow>
          (case hp_new f (tb_files s) of (a, h) \<Rightarrow> (st, Some a, s\<lparr>tb_world := w, tb_files := h\<rparr>)))"

text \<open>Lines 43-52: the file under its name, or under the name older versions used.\<close>

definition open_table_file ::
  "(status \<Rightarrow> bool) \<Rightarrow> ('h, 'f, 'b, 'q, 'a, 'w) cache_ops \<Rightarrow> string \<Rightarrow> u64 \<Rightarrow> ('f, 'b, 'q, 'w) tables
   \<Rightarrow> status \<times> nat option \<times> ('f, 'b, 'q, 'w) tables" where
  "open_table_file ok tc dbname file_number s =
     (case new_RandomAccessFile tc (tc_TableFileName tc dbname file_number) s of (st, file, s) \<Rightarrow>
        if \<not> ok st then
          (case new_RandomAccessFile tc (tc_SSTTableFileName tc dbname file_number) s of
             (st2, file, s) \<Rightarrow> (if ok st2 then Status_OK else st, file, s))
        else (st, file, s))"

text \<open>Lines 53-68, after the file is opened or could not be.\<close>

definition FindTable_open ::
  "bool \<Rightarrow> (status \<Rightarrow> bool) \<Rightarrow> ('f, 'b, 'q, 'w) table_ops \<Rightarrow> ('h, 'f, 'b, 'q, 'a, 'w) cache_ops
   \<Rightarrow> options \<Rightarrow> slice \<Rightarrow> u64 \<Rightarrow> status \<times> nat option \<times> ('f, 'b, 'q, 'w) tables
   \<Rightarrow> (status \<times> 'h option \<times> ('f, 'b, 'q, 'w) tables) outcome" where
  "FindTable_open nd ok ops tc options key file_size r =
     (case r of (st, file, s) \<Rightarrow>
       obind (if ok st then Table_Open ok ops options file file_size s else Inr (st, None, s))
         (\<lambda>(st, table, s).
         if \<not> ok st then
           obind (if nd then Inr () else cpp_assert (table = None)) (\<lambda>_.
           obind (delete_file file s) (\<lambda>s. Inr (st, None, s)))
         else
           (case hp_new \<lparr>tf_file = file, tf_table = table\<rparr> (tb_entries s) of (e, h) \<Rightarrow>
           (case tc_Insert tc key e 1 (tb_world s) of (handle, dropped, w) \<Rightarrow>
             obind (drop_entries dropped (s\<lparr>tb_entries := h, tb_world := w\<rparr>)) (\<lambda>s.
               Inr (st, Some handle, s))))))"

definition FindTable ::
  "bool \<Rightarrow> (status \<Rightarrow> bool) \<Rightarrow> ('f, 'b, 'q, 'w) table_ops \<Rightarrow> ('h, 'f, 'b, 'q, 'a, 'w) cache_ops
   \<Rightarrow> string \<Rightarrow> options \<Rightarrow> u64 \<Rightarrow> u64 \<Rightarrow> ('f, 'b, 'q, 'w) tables
   \<Rightarrow> (status \<times> 'h option \<times> ('f, 'b, 'q, 'w) tables) outcome" where
  "FindTable nd ok ops tc dbname options file_number file_size s =
     (let key = tc_EncodeFixed64 tc file_number in
      case tc_Lookup tc key (tb_world s) of
        (Some h, w) \<Rightarrow> Inr (Status_default, Some h, s\<lparr>tb_world := w\<rparr>)
      | (None, w) \<Rightarrow>
          FindTable_open nd ok ops tc options key file_size
            (open_table_file ok tc dbname file_number (s\<lparr>tb_world := w\<rparr>)))"

definition TableCache_Get ::
  "bool \<Rightarrow> (status \<Rightarrow> bool) \<Rightarrow> ('f, 'b, 'q, 'w) table_ops \<Rightarrow> ('h, 'f, 'b, 'q, 'a, 'w) cache_ops
   \<Rightarrow> string \<Rightarrow> options \<Rightarrow> read_options \<Rightarrow> u64 \<Rightarrow> u64 \<Rightarrow> slice \<Rightarrow> 'a \<Rightarrow> (slice \<Rightarrow> slice \<Rightarrow> 'a \<Rightarrow> 'a)
   \<Rightarrow> ('f, 'b, 'q, 'w) tables \<Rightarrow> (status \<times> 'a \<times> ('f, 'b, 'q, 'w) tables) outcome" where
  "TableCache_Get nd ok ops tc dbname opts options file_number file_size k arg handle_result s =
     obind (FindTable nd ok ops tc dbname opts file_number file_size s) (\<lambda>(st, handle, s).
       if \<not> ok st then Inr (st, arg, s)
       else
         (case handle of None \<Rightarrow> Inl NullDeref
          | Some h \<Rightarrow>
              obind (hp_load (tb_entries s) (Some (tc_Value tc h (tb_world s)))) (\<lambda>tf.
              obind (hp_load (tb_tables s) (tf_table tf)) (\<lambda>_.
              case tc_InternalGet tc options (the (tf_table tf)) k handle_result arg s of
                (st, arg, s) \<Rightarrow>
                  obind (UnrefEntry tc h s) (\<lambda>s. Inr (st, arg, s))))))"

section \<open>Construction and destruction\<close>

text \<open>
  The data members; \<open>cache_\<close> is what \<open>NewLRUCache\<close> returns for the number of entries, and
  \<open>env_\<close> a member of the options. Both calls are arguments, like \<open>delete_Cache\<close>, the destructor
  of the cache, which gives the entries it drops.
\<close>

record ('e, 'c) table_cache =
  tch_env :: 'e
  tch_dbname :: string
  tch_options :: options
  tch_cache :: 'c

definition TableCache ::
  "(options \<Rightarrow> 'e) \<Rightarrow> (int \<Rightarrow> 'w \<Rightarrow> 'c \<times> 'w) \<Rightarrow> string \<Rightarrow> options \<Rightarrow> int
   \<Rightarrow> ('f, 'b, 'q, 'w) tables \<Rightarrow> ('e, 'c) table_cache \<times> ('f, 'b, 'q, 'w) tables" where
  "TableCache options_env NewLRUCache dbname options entries s =
     (case NewLRUCache entries (tb_world s) of (cache, w) \<Rightarrow>
        (\<lparr>tch_env = options_env options, tch_dbname = dbname, tch_options = options, tch_cache = cache\<rparr>,
         s\<lparr>tb_world := w\<rparr>))"

definition delete_TableCache ::
  "('c \<Rightarrow> 'w \<Rightarrow> (slice \<times> nat) list \<times> 'w) \<Rightarrow> ('e, 'c) table_cache \<Rightarrow> ('f, 'b, 'q, 'w) tables
   \<Rightarrow> ('f, 'b, 'q, 'w) tables outcome" where
  "delete_TableCache delete_Cache t s =
     (case delete_Cache (tch_cache t) (tb_world s) of (dropped, w) \<Rightarrow> drop_entries dropped (s\<lparr>tb_world := w\<rparr>))"

end
