(* ===== verification/TableOwnership.thy ===== *)
theory TableOwnership
  imports TableCache
begin

text \<open>
  Who owns the objects of the table layer. An entry of the table cache owns its file and its
  table, a table its index block and its filter: the footprint of the entry. \<open>cache_ok E s\<close> says
  that the entries in \<open>s\<close> are those of \<open>E\<close>, that everything they own is alive and owned once, and
  that no file and no table is left without an owner. \<open>DeleteEntry\<close> takes exactly a footprint
  away, \<open>Table::Open\<close> builds a new one.
\<close>

section \<open>Footprints\<close>

datatype resource = RFile nat | RTable nat | RBlock nat | RFilter nat

definition alive :: "('f, 'b, 'q, 'w) tables \<Rightarrow> resource set" where
  "alive s = RFile ` hp_live (tb_files s) \<union> RTable ` hp_live (tb_tables s)
     \<union> RBlock ` hp_live (tb_blocks s) \<union> RFilter ` hp_live (tb_filters s)"

definition table_owns :: "table_rep \<Rightarrow> resource set" where
  "table_owns r = RBlock ` set_option (rp_index_block r) \<union> RFilter ` set_option (rp_filter r)"

definition footprint :: "('f, 'b, 'q, 'w) tables \<Rightarrow> nat \<Rightarrow> resource set" where
  "footprint s e =
     (case hp_at (tb_entries s) e of
        None \<Rightarrow> {}
      | Some x \<Rightarrow> RFile ` set_option (tf_file x) \<union>
          (case tf_table x of
             None \<Rightarrow> {}
           | Some t \<Rightarrow> insert (RTable t)
               (case hp_at (tb_tables s) t of None \<Rightarrow> {} | Some r \<Rightarrow> table_owns r)))"

definition entry_ok :: "('f, 'b, 'q, 'w) tables \<Rightarrow> nat \<Rightarrow> bool" where
  "entry_ok s e \<longleftrightarrow>
     (\<exists>f t r. hp_at (tb_entries s) e = Some \<lparr>tf_file = Some f, tf_table = Some t\<rparr> \<and>
        hp_at (tb_tables s) t = Some r \<and> rp_file r = Some f \<and> f \<in> hp_live (tb_files s) \<and>
        rp_index_block r \<noteq> None \<and> table_owns r \<subseteq> alive s)"

definition heaps_ok :: "('f, 'b, 'q, 'w) tables \<Rightarrow> bool" where
  "heaps_ok s \<longleftrightarrow> hp_ok (tb_files s) \<and> hp_ok (tb_tables s) \<and> hp_ok (tb_blocks s) \<and>
     hp_ok (tb_filters s) \<and> hp_ok (tb_entries s)"

definition cache_ok :: "nat set \<Rightarrow> ('f, 'b, 'q, 'w) tables \<Rightarrow> bool" where
  "cache_ok E s \<longleftrightarrow> heaps_ok s \<and> hp_live (tb_entries s) = E \<and> (\<forall>e \<in> E. entry_ok s e) \<and>
     (\<forall>e \<in> E. \<forall>e' \<in> E. e \<noteq> e' \<longrightarrow> footprint s e \<inter> footprint s e' = {}) \<and>
     (\<forall>f \<in> hp_live (tb_files s). \<exists>e \<in> E. RFile f \<in> footprint s e) \<and>
     (\<forall>t \<in> hp_live (tb_tables s). \<exists>e \<in> E. RTable t \<in> footprint s e)"

lemma alive_simps [simp]:
  "RFile a \<in> alive s \<longleftrightarrow> a \<in> hp_live (tb_files s)"
  "RTable a \<in> alive s \<longleftrightarrow> a \<in> hp_live (tb_tables s)"
  "RBlock a \<in> alive s \<longleftrightarrow> a \<in> hp_live (tb_blocks s)"
  "RFilter a \<in> alive s \<longleftrightarrow> a \<in> hp_live (tb_filters s)"
  by (auto simp: alive_def)

lemma table_owns_simps [simp]:
  "RFile a \<notin> table_owns r" "RTable a \<notin> table_owns r"
  "RBlock a \<in> table_owns r \<longleftrightarrow> rp_index_block r = Some a"
  "RFilter a \<in> table_owns r \<longleftrightarrow> rp_filter r = Some a"
  by (auto simp: table_owns_def)

text \<open>Nothing here depends on the world, nor on the addresses the heaps hand out next.\<close>

definition same_objects :: "('f, 'b, 'q, 'w) tables \<Rightarrow> ('f, 'b, 'q, 'w) tables \<Rightarrow> bool" where
  "same_objects s s' \<longleftrightarrow> hp_at (tb_files s') = hp_at (tb_files s) \<and>
     hp_at (tb_tables s') = hp_at (tb_tables s) \<and> hp_at (tb_blocks s') = hp_at (tb_blocks s) \<and>
     hp_at (tb_filters s') = hp_at (tb_filters s) \<and> hp_at (tb_entries s') = hp_at (tb_entries s)"

lemma same_objects_refl [simp]: "same_objects s s"
  by (simp add: same_objects_def)

lemma same_objects_world [simp]: "same_objects s (s'\<lparr>tb_world := w\<rparr>) = same_objects s s'"
  by (simp add: same_objects_def)

lemma heaps_ok_world [simp]: "heaps_ok (s\<lparr>tb_world := w\<rparr>) = heaps_ok s"
  by (simp add: heaps_ok_def)

lemma cache_ok_same:
  assumes "same_objects s s'" and "heaps_ok s'" and "cache_ok E s"
  shows "cache_ok E s'"
proof -
  have eqs: "hp_at (tb_files s') = hp_at (tb_files s)" "hp_at (tb_tables s') = hp_at (tb_tables s)"
    "hp_at (tb_blocks s') = hp_at (tb_blocks s)" "hp_at (tb_filters s') = hp_at (tb_filters s)"
    "hp_at (tb_entries s') = hp_at (tb_entries s)"
    using assms(1) by (simp_all add: same_objects_def)
  have al: "alive s' = alive s" unfolding alive_def hp_live_def eqs ..
  have fp: "footprint s' = footprint s" by (rule ext) (unfold footprint_def eqs, rule refl)
  have eo: "entry_ok s' = entry_ok s" by (rule ext) (unfold entry_ok_def hp_live_def eqs al, rule refl)
  show ?thesis
    using assms(2,3) unfolding cache_ok_def hp_live_def eqs fp eo by simp
qed

lemma cache_ok_world [simp]: "cache_ok E (s\<lparr>tb_world := w\<rparr>) = cache_ok E s"
proof
  assume *: "cache_ok E (s\<lparr>tb_world := w\<rparr>)"
  then have "heaps_ok s" by (simp add: cache_ok_def)
  then show "cache_ok E s" using cache_ok_same [OF _ _ *, of s] by (simp add: same_objects_def)
next
  assume *: "cache_ok E s"
  then have "heaps_ok (s\<lparr>tb_world := w\<rparr>)" by (simp add: cache_ok_def)
  then show "cache_ok E (s\<lparr>tb_world := w\<rparr>)"
    using cache_ok_same [OF _ _ *] by (simp add: same_objects_def)
qed

section \<open>Deleting an entry\<close>

definition hp_remove :: "nat option \<Rightarrow> 'a heap \<Rightarrow> 'a heap" where
  "hp_remove p h = (case p of None \<Rightarrow> h | Some a \<Rightarrow> h\<lparr>hp_at := (hp_at h)(a := None)\<rparr>)"

lemma hp_live_remove [simp]: "hp_live (hp_remove p h) = hp_live h - set_option p"
  by (auto simp: hp_remove_def hp_live_def split: option.splits)

lemma hp_ok_hp_remove [simp]: "hp_ok h \<Longrightarrow> hp_ok (hp_remove p h)"
  by (cases p) (simp_all add: hp_remove_def)

lemma hp_at_remove: "hp_at (hp_remove p h) a = (if p = Some a then None else hp_at h a)"
  by (auto simp: hp_remove_def split: option.splits)

lemma hp_delete_remove: "hp_valid h p \<Longrightarrow> hp_delete p h = Inr (hp_remove p h)"
  by (auto simp: hp_delete_def hp_remove_def hp_live_iff split: option.splits)

lemma DeleteEntry_removes:
  assumes "hp_at (tb_entries s) e = Some \<lparr>tf_file = Some f, tf_table = Some t\<rparr>"
    and "hp_at (tb_tables s) t = Some r" and "f \<in> hp_live (tb_files s)"
    and "table_owns r \<subseteq> alive s"
  shows "DeleteEntry k e s =
    Inr (s\<lparr>tb_filters := hp_remove (rp_filter r) (tb_filters s),
           tb_blocks := hp_remove (rp_index_block r) (tb_blocks s),
           tb_tables := hp_remove (Some t) (tb_tables s),
           tb_files := hp_remove (Some f) (tb_files s),
           tb_entries := hp_remove (Some e) (tb_entries s)\<rparr>)"
proof -
  have "hp_valid (tb_filters s) (rp_filter r)" "hp_valid (tb_blocks s) (rp_index_block r)"
    using assms(4) by (auto simp: hp_valid_def table_owns_def split: option.splits)
  moreover have "hp_valid (tb_tables s) (Some t)" "hp_valid (tb_files s) (Some f)"
      "hp_valid (tb_entries s) (Some e)"
    using assms by (auto simp: hp_live_iff)
  ultimately show ?thesis
    using assms(1,2)
    by (simp add: DeleteEntry_def delete_Table_def delete_Block_def delete_file_def hp_delete_remove)
qed

lemma entry_okE:
  assumes "entry_ok s e"
  obtains f t r b where "hp_at (tb_entries s) e = Some \<lparr>tf_file = Some f, tf_table = Some t\<rparr>"
    "hp_at (tb_tables s) t = Some r" "rp_file r = Some f" "f \<in> hp_live (tb_files s)"
    "rp_index_block r = Some b" "table_owns r \<subseteq> alive s"
    "footprint s e = insert (RFile f) (insert (RTable t) (table_owns r))"
  using assms by (auto simp: entry_ok_def footprint_def)

lemma footprint_alive: "entry_ok s e \<Longrightarrow> footprint s e \<subseteq> alive s"
  by (erule entry_okE) (auto simp: hp_live_iff)

text \<open>An entry does not notice what happens outside its footprint.\<close>

lemma entry_frame:
  assumes "entry_ok s e"
    and "hp_at (tb_entries s') e = hp_at (tb_entries s) e"
    and "\<And>t. RTable t \<in> footprint s e \<Longrightarrow> hp_at (tb_tables s') t = hp_at (tb_tables s) t"
    and "footprint s e \<subseteq> alive s'"
  shows "entry_ok s' e" and "footprint s' e = footprint s e"
proof -
  obtain f t r b where e: "hp_at (tb_entries s) e = Some \<lparr>tf_file = Some f, tf_table = Some t\<rparr>"
    "hp_at (tb_tables s) t = Some r" "rp_file r = Some f" "rp_index_block r = Some b"
    and fp: "footprint s e = insert (RFile f) (insert (RTable t) (table_owns r))"
    using assms(1) by (rule entry_okE)
  have "hp_at (tb_tables s') t = Some r" using assms(3) fp e(2) by simp
  then show "footprint s' e = footprint s e" "entry_ok s' e"
    using assms(2,4) e unfolding fp by (simp_all add: footprint_def entry_ok_def insert_commute)
qed

lemma DeleteEntry_ok:
  assumes ok: "cache_ok E s" and e: "e \<in> E"
  shows "\<exists>s'. DeleteEntry k e s = Inr s' \<and> cache_ok (E - {e}) s' \<and> tb_world s' = tb_world s \<and>
           (\<forall>e' \<in> E - {e}. hp_at (tb_entries s') e' = hp_at (tb_entries s) e' \<and>
              footprint s' e' = footprint s e')"
proof -
  have eo: "\<And>e. e \<in> E \<Longrightarrow> entry_ok s e" and E: "hp_live (tb_entries s) = E" and hs: "heaps_ok s"
    and sep: "\<And>e e'. e \<in> E \<Longrightarrow> e' \<in> E \<Longrightarrow> e \<noteq> e' \<Longrightarrow> footprint s e \<inter> footprint s e' = {}"
    and ow: "\<And>f. f \<in> hp_live (tb_files s) \<Longrightarrow> \<exists>e \<in> E. RFile f \<in> footprint s e"
      "\<And>t. t \<in> hp_live (tb_tables s) \<Longrightarrow> \<exists>e \<in> E. RTable t \<in> footprint s e"
    using ok by (simp_all add: cache_ok_def)
  obtain f t r b where x: "hp_at (tb_entries s) e = Some \<lparr>tf_file = Some f, tf_table = Some t\<rparr>"
    "hp_at (tb_tables s) t = Some r" "f \<in> hp_live (tb_files s)" "table_owns r \<subseteq> alive s"
    and fp: "footprint s e = insert (RFile f) (insert (RTable t) (table_owns r))"
    using eo [OF e] by (rule entry_okE)
  define s' where "s' = s\<lparr>tb_filters := hp_remove (rp_filter r) (tb_filters s),
           tb_blocks := hp_remove (rp_index_block r) (tb_blocks s),
           tb_tables := hp_remove (Some t) (tb_tables s),
           tb_files := hp_remove (Some f) (tb_files s),
           tb_entries := hp_remove (Some e) (tb_entries s)\<rparr>"
  have del: "DeleteEntry k e s = Inr s'" unfolding s'_def by (rule DeleteEntry_removes [OF x])
  have al: "alive s' = alive s - footprint s e"
    unfolding fp by (auto simp: s'_def alive_def table_owns_def)
  have other: "entry_ok s' e' \<and> footprint s' e' = footprint s e'" if e': "e' \<in> E" "e' \<noteq> e" for e'
  proof -
    have disj: "footprint s e' \<inter> footprint s e = {}" using sep [OF e'(1) e e'(2)] .
    have "hp_at (tb_entries s') e' = hp_at (tb_entries s) e'"
      using e' by (simp add: s'_def hp_at_remove)
    moreover have "hp_at (tb_tables s') u = hp_at (tb_tables s) u" if "RTable u \<in> footprint s e'" for u
      using that disj fp by (auto simp: s'_def hp_at_remove)
    moreover have "footprint s e' \<subseteq> alive s'"
      using footprint_alive [OF eo [OF e'(1)]] disj unfolding al by blast
    ultimately show ?thesis using entry_frame [OF eo [OF e'(1)]] by blast
  qed
  have "hp_live (tb_entries s') = E - {e}" using E by (auto simp: s'_def)
  moreover have "heaps_ok s'" using hs by (simp add: s'_def heaps_ok_def)
  moreover have "\<exists>e' \<in> E - {e}. RFile g \<in> footprint s' e'" if g: "g \<in> hp_live (tb_files s')" for g
  proof -
    have "RFile g \<in> alive s'" using g by simp
    then show ?thesis unfolding al using ow(1) [of g] other by auto
  qed
  moreover have "\<exists>e' \<in> E - {e}. RTable u \<in> footprint s' e'" if u: "u \<in> hp_live (tb_tables s')" for u
  proof -
    have "RTable u \<in> alive s'" using u by simp
    then show ?thesis unfolding al using ow(2) [of u] other by auto
  qed
  ultimately have "cache_ok (E - {e}) s'"
    unfolding cache_ok_def using other sep by simp
  moreover have "tb_world s' = tb_world s" by (simp add: s'_def)
  moreover have "\<forall>e' \<in> E - {e}. hp_at (tb_entries s') e' = hp_at (tb_entries s) e'"
    by (simp add: s'_def hp_at_remove)
  ultimately show ?thesis using del other by blast
qed

lemma drop_entries_ok:
  assumes "cache_ok E s" and "distinct (map snd es)" and "snd ` set es \<subseteq> E"
  shows "\<exists>s'. drop_entries es s = Inr s' \<and> cache_ok (E - snd ` set es) s' \<and>
           tb_world s' = tb_world s \<and>
           (\<forall>e \<in> E - snd ` set es. hp_at (tb_entries s') e = hp_at (tb_entries s) e \<and>
              footprint s' e = footprint s e)"
  using assms
proof (induction es arbitrary: E s)
  case Nil
  then show ?case by (auto simp: drop_entries_def)
next
  case (Cons x es)
  obtain k e where x: "x = (k, e)" by (cases x)
  obtain s1 where s1: "DeleteEntry k e s = Inr s1" "cache_ok (E - {e}) s1" "tb_world s1 = tb_world s"
    "\<forall>e' \<in> E - {e}. hp_at (tb_entries s1) e' = hp_at (tb_entries s) e' \<and>
       footprint s1 e' = footprint s e'"
    using DeleteEntry_ok [OF Cons.prems(1), of e k] Cons.prems(3) x by auto
  have "snd ` set es \<subseteq> E - {e}" using Cons.prems(2,3) x by auto
  with Cons.IH [OF s1(2)] Cons.prems(2) obtain s' where s': "drop_entries es s1 = Inr s'"
    "cache_ok (E - {e} - snd ` set es) s'" "tb_world s' = tb_world s1"
    "\<forall>e' \<in> E - {e} - snd ` set es. hp_at (tb_entries s') e' = hp_at (tb_entries s1) e' \<and>
       footprint s' e' = footprint s1 e'" by auto
  have E: "E - snd ` set (x # es) = E - {e} - snd ` set es" using x by auto
  show ?case
    unfolding E using s1 s' x by (auto simp: drop_entries_def)
qed

end
