(* ===== verification/TableOpen.thy ===== *)
theory TableOpen
  imports TableOwnership
begin

text \<open>
  What \<open>Table::Open\<close> leaves behind: nothing at all when one of its reads fails, otherwise one
  table with its index block, and at most one filter.
\<close>

section \<open>The meta block\<close>

text \<open>
  Reading the meta block leaves every object alone, but for the filter it may give to the table.
\<close>

definition meta_read ::
  "nat \<Rightarrow> table_rep \<Rightarrow> ('f, 'b, 'q, 'w) tables \<Rightarrow> ('f, 'b, 'q, 'w) tables \<Rightarrow> bool" where
  "meta_read t r s s' \<longleftrightarrow>
     tb_files s' = tb_files s \<and> tb_entries s' = tb_entries s \<and>
     hp_at (tb_blocks s') = hp_at (tb_blocks s) \<and> hp_ok (tb_blocks s') \<and>
     (tb_filters s' = tb_filters s \<and> tb_tables s' = tb_tables s \<or>
      opt_filter_policy (rp_options r) \<noteq> None \<and>
      (\<exists>q d. tb_filters s' = snd (hp_new q (tb_filters s)) \<and>
         tb_tables s' = hp_store t (r\<lparr>rp_filter_data := d, rp_filter := Some (hp_next (tb_filters s))\<rparr>)
           (tb_tables s)))"

lemma meta_read_world [simp]: "meta_read t r s (s'\<lparr>tb_world := w\<rparr>) = meta_read t r s s'"
  by (simp add: meta_read_def)

lemma meta_read_refl [simp]: "hp_ok (tb_blocks s) \<Longrightarrow> meta_read t r s s"
  by (simp add: meta_read_def)

lemma ReadBlock_live:
  "hp_at (tb_files s) f = Some x \<Longrightarrow>
   ReadBlock ops (Some f) opt h s =
     (case to_ReadBlock ops x opt h (tb_world s) of (st, c, w) \<Rightarrow> Inr (st, c, s\<lparr>tb_world := w\<rparr>))"
  by (simp add: ReadBlock_def)

lemma ReadFilter_effect:
  assumes "hp_at (tb_tables s) t = Some r" and "rp_file r = Some f"
    and "hp_at (tb_files s) f = Some x" and "hp_ok (tb_blocks s)"
    and "opt_filter_policy (rp_options r) \<noteq> None"
  shows "\<exists>s'. ReadFilter ok ops t v s = Inr s' \<and> meta_read t r s s' \<and> tb_blocks s' = tb_blocks s"
proof (cases "ok (fst (to_DecodeHandle ops v))")
  case False
  then show ?thesis
    using assms(4) by (simp add: ReadFilter_def case_prod_unfold)
next
  case True
  obtain h where h: "to_DecodeHandle ops v = (fst (to_DecodeHandle ops v), h)" by (metis prod.collapse)
  obtain st c w where c: "to_ReadBlock ops x (read_opt ops (rp_options r)) h (tb_world s) = (st, c, w)"
    by (metis prod_cases3)
  show ?thesis
  proof (cases "ok st")
    case False
    then show ?thesis
      using True assms c by (subst ReadFilter_def, subst h) (simp add: ReadBlock_live)
  next
    case ok: True
    define d where "d = (if bc_heap_allocated c then Some (bc_data c) else rp_filter_data r)"
    have r: "(if bc_heap_allocated c then r\<lparr>rp_filter_data := Some (bc_data c)\<rparr> else r) =
             r\<lparr>rp_filter_data := d\<rparr>" by (simp add: d_def)
    show ?thesis
      using True ok assms c
      by (subst ReadFilter_def, subst h)
        (auto simp add: ReadBlock_live Let_def r meta_read_def hp_new_def store_table_def)
  qed
qed

lemma ReadMeta_entry_effect:
  assumes "hp_at (tb_tables s) t = Some r" and "rp_file r = Some f"
    and "hp_at (tb_files s) f = Some x" and "hp_ok (tb_blocks s)"
    and "opt_filter_policy (rp_options r) \<noteq> None"
  shows "\<exists>s'. ReadMeta_entry ok ops t b key s = Inr s' \<and> meta_read t r s s' \<and>
           tb_blocks s' = tb_blocks s"
proof (cases "\<exists>v. to_Seek ops b key = Some (key, v)")
  case True
  then show ?thesis using ReadFilter_effect [OF assms] by (auto simp: ReadMeta_entry_def)
next
  case False
  then have "ReadMeta_entry ok ops t b key s = Inr s"
    by (auto simp: ReadMeta_entry_def split: option.splits)
  then show ?thesis using assms(4) by simp
qed

lemma ReadMeta_effect:
  assumes "hp_at (tb_tables s) t = Some r" and "rp_file r = Some f"
    and "hp_at (tb_files s) f = Some x" and bok: "hp_ok (tb_blocks s)"
  shows "\<exists>s'. ReadMeta ok ops t m s = Inr s' \<and> meta_read t r s s'"
proof (cases "opt_filter_policy (rp_options r)")
  case None
  then show ?thesis using assms by (simp add: ReadMeta_def)
next
  case (Some policy)
  obtain st c w where c: "to_ReadBlock ops x (read_opt ops (rp_options r)) m (tb_world s) = (st, c, w)"
    by (metis prod_cases3)
  show ?thesis
  proof (cases "ok st")
    case False
    then show ?thesis using Some assms c by (simp add: ReadMeta_def ReadBlock_live)
  next
    case True
    define n where "n = hp_next (tb_blocks s)"
    define b where "b = to_Block ops c"
    define s1 where "s1 = s\<lparr>tb_world := w, tb_blocks :=
      (tb_blocks s)\<lparr>hp_at := (hp_at (tb_blocks s))(n \<mapsto> b), hp_next := Suc n\<rparr>\<rparr>"
    define key where "key = ''filter.'' @ to_policy_Name ops policy"
    have s1: "hp_at (tb_tables s1) t = Some r" "hp_at (tb_files s1) f = Some x" "hp_ok (tb_blocks s1)"
      using assms by (simp_all add: s1_def n_def)
    obtain s2 where s2: "ReadMeta_entry ok ops t b key s1 = Inr s2"
      "meta_read t r s1 s2" "tb_blocks s2 = tb_blocks s1"
      using ReadMeta_entry_effect [OF s1(1) assms(2) s1(2,3)] Some by blast
    have nb: "new_Block ops c (s\<lparr>tb_world := w\<rparr>) = (n, s1)"
      by (simp add: new_Block_def hp_new_def s1_def n_def b_def)
    have lb: "hp_load (tb_blocks s1) (Some n) = Inr b" by (simp add: s1_def)
    have m: "ReadMeta ok ops t m s = delete_Block (Some n) s2"
      using Some assms c True s2(1) lb
      unfolding ReadMeta_def by (simp add: ReadBlock_live ReadMeta_block_def nb key_def)
    have "delete_Block (Some n) s2 = Inr (s2\<lparr>tb_blocks := hp_remove (Some n) (tb_blocks s2)\<rparr>)"
      using s2(3) by (simp add: delete_Block_def hp_delete_remove s1_def hp_live_iff)
    moreover have "hp_at (hp_remove (Some n) (tb_blocks s2)) = hp_at (tb_blocks s)"
      using bok s2(3) by (auto simp: s1_def hp_remove_def n_def fun_upd_idem_iff)
    moreover have "hp_ok (hp_remove (Some n) (tb_blocks s2))" using s2(3) s1(3) by simp
    ultimately show ?thesis
      using s2(2) unfolding m by (auto simp: meta_read_def s1_def)
  qed
qed

section \<open>Opening a table\<close>

text \<open>
  The reads of \<open>Open\<close> in order, up to the first that fails: the status, and when none fails the
  handle of the metaindex block and the contents of the index block.
\<close>

definition Open_reads ::
  "(status \<Rightarrow> bool) \<Rightarrow> ('f, 'b, 'q, 'w) table_ops \<Rightarrow> options \<Rightarrow> 'f \<Rightarrow> u64 \<Rightarrow> 'w
   \<Rightarrow> status \<times> (block_handle \<times> block_contents) option" where
  "Open_reads ok ops options x sz w =
     (if sz < 48 then (Status_Corruption ''file is too short to be a sstable'' '''', None)
      else case to_Read ops x (sz - 48) 48 w of (st, input, w) \<Rightarrow>
        if \<not> ok st then (st, None)
        else case to_DecodeFooter ops input of (st, metaindex, index) \<Rightarrow>
          if \<not> ok st then (st, None)
          else case to_ReadBlock ops x (read_opt ops options) index w of (st, contents, _) \<Rightarrow>
            (st, if ok st then Some (metaindex, contents) else None))"

text \<open>What a successful \<open>Open\<close> adds to \<open>s\<close>: the table \<open>r\<close> at \<open>t\<close>.\<close>

definition opened ::
  "('f, 'b, 'q, 'w) tables \<Rightarrow> nat \<Rightarrow> table_rep \<Rightarrow> 'b \<Rightarrow> ('f, 'b, 'q, 'w) tables \<Rightarrow> bool" where
  "opened s t r index s' \<longleftrightarrow>
     tb_files s' = tb_files s \<and> tb_entries s' = tb_entries s \<and> heaps_ok s' \<and>
     t \<notin> hp_live (tb_tables s) \<and> hp_at (tb_tables s') = (hp_at (tb_tables s))(t \<mapsto> r) \<and>
     (\<exists>b. rp_index_block r = Some b \<and> b \<notin> hp_live (tb_blocks s) \<and>
        hp_at (tb_blocks s') = (hp_at (tb_blocks s))(b \<mapsto> index)) \<and>
     (case rp_filter r of
        None \<Rightarrow> hp_at (tb_filters s') = hp_at (tb_filters s)
      | Some q \<Rightarrow> opt_filter_policy (rp_options r) \<noteq> None \<and> q \<notin> hp_live (tb_filters s) \<and>
          (\<exists>fl. hp_at (tb_filters s') = (hp_at (tb_filters s))(q \<mapsto> fl)))"

lemma meta_read_opened:
  assumes m: "meta_read t r s1 s'" and hs: "heaps_ok s" and x: "rp_filter r = None"
    and b: "rp_index_block r = Some (hp_next (tb_blocks s))" and t: "t = hp_next (tb_tables s)"
    and s1: "tb_files s1 = tb_files s" "tb_entries s1 = tb_entries s" "tb_filters s1 = tb_filters s"
      "tb_blocks s1 = snd (hp_new blk (tb_blocks s))" "tb_tables s1 = snd (hp_new r (tb_tables s))"
  shows "\<exists>r'. opened s t r' blk s' \<and> rp_file r' = rp_file r \<and> rp_options r' = rp_options r \<and>
           rp_metaindex_handle r' = rp_metaindex_handle r \<and> rp_status r' = rp_status r"
proof -
  have hok: "hp_ok (tb_files s)" "hp_ok (tb_tables s)" "hp_ok (tb_blocks s)" "hp_ok (tb_filters s)"
    "hp_ok (tb_entries s)" using hs by (simp_all add: heaps_ok_def)
  from m have f: "tb_files s' = tb_files s" "tb_entries s' = tb_entries s" "hp_ok (tb_blocks s')"
    "hp_at (tb_blocks s') = (hp_at (tb_blocks s))(hp_next (tb_blocks s) \<mapsto> blk)"
    by (simp_all add: meta_read_def s1 hp_new_def)
  from m consider
      "tb_filters s' = tb_filters s" "tb_tables s' = snd (hp_new r (tb_tables s))"
    | q d where "opt_filter_policy (rp_options r) \<noteq> None"
        "tb_filters s' = snd (hp_new q (tb_filters s))"
        "tb_tables s' = hp_store t (r\<lparr>rp_filter_data := d, rp_filter := Some (hp_next (tb_filters s))\<rparr>)
           (snd (hp_new r (tb_tables s)))"
    by (auto simp: meta_read_def s1)
  then show ?thesis
  proof cases
    case 1
    then show ?thesis
      using f hok t b x by (intro exI [of _ r]) (simp add: opened_def heaps_ok_def hp_new_def)
  next
    case 2
    let ?r' = "r\<lparr>rp_filter_data := d, rp_filter := Some (hp_next (tb_filters s))\<rparr>"
    have tb: "hp_at (tb_tables s') = (hp_at (tb_tables s))(t \<mapsto> ?r')"
      using t by (simp add: 2(3) hp_store_def hp_new_def)
    have "hp_ok (tb_tables s')"
      unfolding 2(3) by (rule hp_ok_store [where y = r]) (use hok t in \<open>simp_all add: hp_new_def\<close>)
    then show ?thesis
      using f hok t b x 2(1) tb
      by (intro exI [of _ ?r']) (auto simp add: opened_def heaps_ok_def 2(2) hp_new_def)
  qed
qed

text \<open>What \<open>Open\<close> leaves in \<open>*table\<close> and in the heaps, given the outcome of its reads.\<close>

definition open_result ::
  "(status \<Rightarrow> bool) \<Rightarrow> ('f, 'b, 'q, 'w) table_ops \<Rightarrow> options \<Rightarrow> nat \<Rightarrow> ('f, 'b, 'q, 'w) tables
   \<Rightarrow> status \<times> (block_handle \<times> block_contents) option \<Rightarrow> nat option \<Rightarrow> ('f, 'b, 'q, 'w) tables \<Rightarrow> bool"
where
  "open_result ok ops options f s reads p s' \<longleftrightarrow>
     (case snd reads of
        None \<Rightarrow> p = None \<and> (\<exists>w. s' = s\<lparr>tb_world := w\<rparr>)
      | Some (metaindex, contents) \<Rightarrow> ok (fst reads) \<and>
          (\<exists>t r. p = Some t \<and> opened s t r (to_Block ops contents) s' \<and> rp_file r = Some f \<and>
             rp_options r = options \<and> rp_metaindex_handle r = metaindex \<and>
             rp_status r = Status_default))"

lemma Table_Open_effect:
  assumes hs: "heaps_ok s" and f: "hp_at (tb_files s) f = Some x"
  shows "\<exists>p s'. Table_Open ok ops options (Some f) sz s =
             Inr (fst (Open_reads ok ops options x sz (tb_world s)), p, s') \<and>
           open_result ok ops options f s (Open_reads ok ops options x sz (tb_world s)) p s'"
proof (cases "sz < 48")
  case True
  then show ?thesis by (simp add: Table_Open_def Open_reads_def kEncodedLength_value open_result_def exI [of _ "tb_world s"])
next
  case long: False
  obtain st1 i w1 where 1: "to_Read ops x (sz - 48) 48 (tb_world s) = (st1, i, w1)"
    by (metis prod_cases3)
  obtain st2 m h where 2: "to_DecodeFooter ops i = (st2, m, h)" by (metis prod_cases3)
  obtain st3 c w2 where 3: "to_ReadBlock ops x (read_opt ops options) h w1 = (st3, c, w2)"
    by (metis prod_cases3)
  show ?thesis
  proof (cases "ok st1 \<and> ok st2 \<and> ok st3")
    case False
    then show ?thesis
      using long f 1 2 3
      by (auto simp: Table_Open_def Open_reads_def kEncodedLength_value ReadBlock_live open_result_def)
  next
    case oks: True
    have reads: "Open_reads ok ops options x sz (tb_world s) = (st3, Some (m, c))"
      using oks long 1 2 3 by (simp add: Open_reads_def)
    obtain id w3 where id: "new_cache_id ops options w2 = (id, w3)" by fastforce
    define r where "r = \<lparr>rp_options = options, rp_status = Status_default, rp_file = Some f,
      rp_cache_id = id, rp_filter = None, rp_filter_data = None, rp_metaindex_handle = m,
      rp_index_block = Some (hp_next (tb_blocks s))\<rparr>"
    define s1 where "s1 = s\<lparr>tb_blocks := snd (hp_new (to_Block ops c) (tb_blocks s)),
      tb_world := w3, tb_tables := snd (hp_new r (tb_tables s))\<rparr>"
    define t where "t = hp_next (tb_tables s)"
    have "hp_at (tb_tables s1) t = Some r" "hp_at (tb_files s1) f = Some x" "hp_ok (tb_blocks s1)"
      using hs f by (simp_all add: s1_def t_def hp_new_def heaps_ok_def)
    then obtain s' where s': "ReadMeta ok ops t m s1 = Inr s'" "meta_read t r s1 s'"
      using ReadMeta_effect [of s1 t r f x ok ops m] by (auto simp: r_def)
    have "Table_Open ok ops options (Some f) sz s = obind (ReadMeta ok ops t m s1) (\<lambda>s. Inr (st3, Some t, s))"
      using long f 1 2 3 oks id
      by (simp add: Table_Open_def kEncodedLength_value ReadBlock_live new_Block_def hp_new_def
          s1_def r_def t_def)
    moreover have "\<exists>r'. opened s t r' (to_Block ops c) s' \<and> rp_file r' = rp_file r \<and>
        rp_options r' = rp_options r \<and> rp_metaindex_handle r' = rp_metaindex_handle r \<and>
        rp_status r' = rp_status r"
      by (rule meta_read_opened [OF s'(2) hs]) (simp_all add: r_def s1_def t_def)
    ultimately show ?thesis
      using s'(1) oks unfolding reads open_result_def by (auto simp: r_def)
  qed
qed

end
