(* ===== verification/TableCacheInv.thy ===== *)
theory TableCacheInv
  imports TableOpen
begin

text \<open>
  The table cache keeps \<open>cache_ok\<close> (\<open>TableOwnership\<close>): through \<open>FindTable\<close> and \<open>Get\<close> no object
  of the table layer is lost or deleted twice, whatever the cache drops and whichever step fails.
\<close>

section \<open>What the code relies on\<close>

text \<open>
  \<open>owned w\<close> are the entries the cache holds or a client has pinned. \<open>Lookup\<close> answers with one of
  them; \<open>Insert\<close> adds its own and calls the deleter once for each entry it drops; so does
  \<open>Release\<close>. \<open>Env::NewRandomAccessFile\<close> gives a file exactly when it succeeds.
\<close>

definition lookup_law :: "('h, 'f, 'b, 'q, 'a, 'w) cache_ops \<Rightarrow> ('w \<Rightarrow> nat set) \<Rightarrow> bool" where
  "lookup_law tc owned \<longleftrightarrow>
     (\<forall>key w h w'. tc_Lookup tc key w = (h, w') \<longrightarrow>
        owned w' = owned w \<and> (\<forall>x. h = Some x \<longrightarrow> tc_Value tc x w' \<in> owned w'))"

definition insert_law :: "('h, 'f, 'b, 'q, 'a, 'w) cache_ops \<Rightarrow> ('w \<Rightarrow> nat set) \<Rightarrow> bool" where
  "insert_law tc owned \<longleftrightarrow>
     (\<forall>key e w h dropped w'. e \<notin> owned w \<and> tc_Insert tc key e 1 w = (h, dropped, w') \<longrightarrow>
        tc_Value tc h w' = e \<and> distinct (map snd dropped) \<and> snd ` set dropped \<subseteq> owned w \<and>
        owned w' = insert e (owned w) - snd ` set dropped)"

definition release_law :: "('h, 'f, 'b, 'q, 'a, 'w) cache_ops \<Rightarrow> ('w \<Rightarrow> nat set) \<Rightarrow> bool" where
  "release_law tc owned \<longleftrightarrow>
     (\<forall>h w dropped w'. tc_Release tc h w = (dropped, w') \<longrightarrow>
        distinct (map snd dropped) \<and> snd ` set dropped \<subseteq> owned w \<and>
        owned w' = owned w - snd ` set dropped)"

definition env_law ::
  "(status \<Rightarrow> bool) \<Rightarrow> ('h, 'f, 'b, 'q, 'a, 'w) cache_ops \<Rightarrow> ('w \<Rightarrow> nat set) \<Rightarrow> bool" where
  "env_law ok tc owned \<longleftrightarrow>
     (\<forall>fname w st f w'. tc_NewRandomAccessFile tc fname w = (st, f, w') \<longrightarrow>
        owned w' = owned w \<and> (ok st \<longleftrightarrow> f \<noteq> None))"

definition table_cache_contract ::
  "(status \<Rightarrow> bool) \<Rightarrow> ('h, 'f, 'b, 'q, 'a, 'w) cache_ops \<Rightarrow> ('w \<Rightarrow> nat set) \<Rightarrow> bool" where
  "table_cache_contract ok tc owned \<longleftrightarrow>
     lookup_law tc owned \<and> insert_law tc owned \<and> release_law tc owned \<and> env_law ok tc owned"

text \<open>Reading files and numbering caches does not touch the table cache.\<close>

definition reads_keep :: "('f, 'b, 'q, 'w) table_ops \<Rightarrow> ('w \<Rightarrow> 'o) \<Rightarrow> bool" where
  "reads_keep ops owned \<longleftrightarrow>
     (\<forall>x n k w. owned (snd (snd (to_Read ops x n k w))) = owned w) \<and>
     (\<forall>x opt h w. owned (snd (snd (to_ReadBlock ops x opt h w))) = owned w) \<and>
     (\<forall>c w. owned (snd (to_NewId ops c w)) = owned w)"

lemma reads_keepD:
  assumes "reads_keep ops owned"
  shows "owned (snd (snd (to_Read ops x n k w))) = owned w"
    and "owned (snd (snd (to_ReadBlock ops x opt h w))) = owned w"
    and "owned (snd (new_cache_id ops options w)) = owned w"
  using assms by (auto simp: reads_keep_def new_cache_id_def split: option.splits)

text \<open>What holds of the result, if there is no fault.\<close>

definition opost :: "'a outcome \<Rightarrow> ('a \<Rightarrow> bool) \<Rightarrow> bool" where
  "opost m P \<longleftrightarrow> (\<forall>v. m = Inr v \<longrightarrow> P v)"

lemma opost_simps [simp]: "opost (Inl e) P" "opost (Inr v) P = P v"
  by (simp_all add: opost_def)

lemma opost_obind: "opost m Q \<Longrightarrow> (\<And>v. Q v \<Longrightarrow> opost (f v) P) \<Longrightarrow> opost (obind m f) P"
  by (cases m) auto

lemma opost_obind_any: "(\<And>v. opost (f v) P) \<Longrightarrow> opost (obind m f) P"
  by (cases m) auto

definition keeps :: "('w \<Rightarrow> 'o) \<Rightarrow> ('f, 'b, 'q, 'w) tables \<Rightarrow> ('f, 'b, 'q, 'w) tables \<Rightarrow> bool" where
  "keeps owned s s' \<longleftrightarrow> owned (tb_world s') = owned (tb_world s)"

lemma ReadBlock_keeps:
  "reads_keep ops owned \<Longrightarrow>
   opost (ReadBlock ops f opt h s) (\<lambda>r. keeps owned s (snd (snd r)))"
  unfolding ReadBlock_def
  by (rule opost_obind_any) (simp add: case_prod_unfold reads_keepD keeps_def)

lemma ReadFilter_keeps:
  assumes "reads_keep ops owned"
  shows "opost (ReadFilter ok ops t v s) (keeps owned s)"
proof (cases "ok (fst (to_DecodeHandle ops v))")
  case True
  then show ?thesis
    unfolding ReadFilter_def
    by (simp add: case_prod_unfold Let_def)
      (rule opost_obind_any, rule opost_obind [OF ReadBlock_keeps [OF assms]],
        simp add: store_table_def hp_new_def keeps_def)
qed (simp add: ReadFilter_def case_prod_unfold keeps_def)

lemma ReadMeta_entry_keeps:
  assumes "reads_keep ops owned"
  shows "opost (ReadMeta_entry ok ops t b key s) (keeps owned s)"
  unfolding ReadMeta_entry_def
  by (auto simp: keeps_def [of owned s s] ReadFilter_keeps [OF assms] split: option.split)

lemma delete_Block_keeps: "keeps owned s s1 \<Longrightarrow> opost (delete_Block p s1) (keeps owned s)"
  unfolding delete_Block_def by (rule opost_obind_any) (simp add: keeps_def)

lemma ReadMeta_block_keeps:
  assumes "reads_keep ops owned" and "keeps owned s0 s"
  shows "opost (ReadMeta_block ok ops t key c s) (keeps owned s0)"
proof -
  obtain n s1 where n: "new_Block ops c s = (n, s1)" by fastforce
  then have s1: "keeps owned s0 s1"
    using assms(2) by (clarsimp simp: new_Block_def hp_new_def keeps_def)
  have "opost (delete_Block (Some n) v) (keeps owned s0)" if "keeps owned s1 v" for v
    using that s1 by (intro delete_Block_keeps) (simp add: keeps_def)
  then have "opost (obind (ReadMeta_entry ok ops t b key s1) (delete_Block (Some n))) (keeps owned s0)" for b
    by (rule opost_obind [OF ReadMeta_entry_keeps [OF assms(1)]])
  then show ?thesis
    unfolding ReadMeta_block_def n prod.case by (rule opost_obind_any)
qed

lemma ReadMeta_keeps:
  assumes "reads_keep ops owned"
  shows "opost (ReadMeta ok ops t m s) (keeps owned s)"
  unfolding ReadMeta_def
proof (rule opost_obind_any, split option.split, intro conjI allI impI)
  fix r :: table_rep and policy
  show "opost (obind (ReadBlock ops (rp_file r) (read_opt ops (rp_options r)) m s)
      (\<lambda>(st, contents, s). if \<not> ok st then Inr s
         else ReadMeta_block ok ops t (''filter.'' @ to_policy_Name ops policy) contents s))
      (keeps owned s)"
    by (rule opost_obind [OF ReadBlock_keeps [OF assms]])
      (auto simp: ReadMeta_block_keeps [OF assms] simp del: append.simps)
qed (simp add: keeps_def)

lemma Table_Open_keeps:
  assumes "reads_keep ops owned" and "Table_Open ok ops options f sz s = Inr (st, p, s')"
  shows "keeps owned s s'"
proof -
  have "opost (Table_Open ok ops options f sz s) (\<lambda>r. keeps owned s (snd (snd r)))"
    unfolding Table_Open_def
    by (auto simp: keeps_def Let_def case_prod_unfold new_Block_def reads_keepD [OF assms(1)]
        intro!: opost_obind_any opost_obind [OF ReadBlock_keeps [OF assms(1)]]
          opost_obind [OF ReadMeta_keeps [OF assms(1)]])
  then show ?thesis using assms(2) by simp
qed

section \<open>A new entry\<close>

lemma cache_ok_extend:
  assumes ok: "cache_ok E s" and e: "e \<notin> E" and hs: "heaps_ok s'"
    and en: "hp_live (tb_entries s') = insert e E"
      "\<forall>e' \<in> E. hp_at (tb_entries s') e' = hp_at (tb_entries s) e'"
    and tb: "\<forall>t r. hp_at (tb_tables s) t = Some r \<longrightarrow> hp_at (tb_tables s') t = Some r"
    and al: "alive s \<subseteq> alive s'"
    and new: "entry_ok s' e" "footprint s' e \<inter> alive s = {}"
    and fl: "\<forall>f \<in> hp_live (tb_files s') - hp_live (tb_files s). RFile f \<in> footprint s' e"
    and tl: "\<forall>t \<in> hp_live (tb_tables s') - hp_live (tb_tables s). RTable t \<in> footprint s' e"
  shows "cache_ok (insert e E) s'"
proof -
  have eo: "\<And>e. e \<in> E \<Longrightarrow> entry_ok s e" using ok by (simp add: cache_ok_def)
  have old: "entry_ok s' e' \<and> footprint s' e' = footprint s e'" if e': "e' \<in> E" for e'
  proof -
    have fp: "footprint s e' \<subseteq> alive s" by (rule footprint_alive [OF eo [OF e']])
    have "hp_at (tb_tables s') t = hp_at (tb_tables s) t" if "RTable t \<in> footprint s e'" for t
    proof -
      have "RTable t \<in> alive s" using that fp by blast
      then show ?thesis using tb by (auto simp: hp_live_iff)
    qed
    then show ?thesis
      using entry_frame [OF eo [OF e'], of s'] en(2) e' fp al by blast
  qed
  have "footprint s' e \<inter> footprint s' e' = {}" if "e' \<in> E" for e'
    using old [OF that] footprint_alive [OF eo [OF that]] new(2) by blast
  moreover have "\<exists>e' \<in> insert e E. RFile f \<in> footprint s' e'" if "f \<in> hp_live (tb_files s')" for f
    using that fl old ok by (cases "f \<in> hp_live (tb_files s)") (auto simp: cache_ok_def)
  moreover have "\<exists>e' \<in> insert e E. RTable t \<in> footprint s' e'" if "t \<in> hp_live (tb_tables s')" for t
    using that tl old ok by (cases "t \<in> hp_live (tb_tables s)") (auto simp: cache_ok_def)
  ultimately show ?thesis
    using hs en(1) old new(1) ok unfolding cache_ok_def by (simp add: Int_commute)
qed

text \<open>The entry \<open>FindTable\<close> makes when the file and the table are there.\<close>

lemma cache_ok_opened:
  assumes ok: "cache_ok E s0" and f: "f = hp_next (tb_files s0)"
    and s: "s = s0\<lparr>tb_world := w, tb_files := snd (hp_new x (tb_files s0))\<rparr>"
    and op: "opened s t r blk s1" and r: "rp_file r = Some f" and e: "e = hp_next (tb_entries s0)"
    and s': "s' = s1\<lparr>tb_entries := snd (hp_new \<lparr>tf_file = Some f, tf_table = Some t\<rparr> (tb_entries s1))\<rparr>"
  shows "cache_ok (insert e E) s'"
proof (rule cache_ok_extend [OF ok])
  have hok: "hp_ok (tb_files s0)" "hp_ok (tb_tables s0)" "hp_ok (tb_blocks s0)"
    "hp_ok (tb_filters s0)" "hp_ok (tb_entries s0)" and E: "hp_live (tb_entries s0) = E"
    using ok by (simp_all add: cache_ok_def heaps_ok_def)
  from op obtain b where o: "tb_files s1 = snd (hp_new x (tb_files s0))" "tb_entries s1 = tb_entries s0"
    "heaps_ok s1" "t \<notin> hp_live (tb_tables s0)" "hp_at (tb_tables s1) = (hp_at (tb_tables s0))(t \<mapsto> r)"
    "rp_index_block r = Some b" "b \<notin> hp_live (tb_blocks s0)"
    "hp_at (tb_blocks s1) = (hp_at (tb_blocks s0))(b \<mapsto> blk)"
    unfolding opened_def s by auto
  have fl: "hp_live (tb_filters s') = hp_live (tb_filters s0) \<union> set_option (rp_filter r)"
    "set_option (rp_filter r) \<inter> hp_live (tb_filters s0) = {}"
    using op by (auto simp: opened_def s s' hp_live_def split: option.splits)
  have lv: "hp_live (tb_files s') = insert f (hp_live (tb_files s0))"
    "hp_live (tb_tables s') = insert t (hp_live (tb_tables s0))"
    "hp_live (tb_blocks s') = insert b (hp_live (tb_blocks s0))"
    using o by (auto simp: hp_live_def f hp_new_def s')
  have en: "hp_at (tb_entries s') = (hp_at (tb_entries s0))(e \<mapsto> \<lparr>tf_file = Some f, tf_table = Some t\<rparr>)"
    by (simp add: s' o(2) hp_new_def e)
  have tb: "hp_at (tb_tables s') = (hp_at (tb_tables s0))(t \<mapsto> r)" by (simp add: s' o(5))
  show eE: "e \<notin> E" using hok(5) E e by auto
  show "heaps_ok s'" using o(3) by (simp add: heaps_ok_def hp_new_def s')
  show "hp_live (tb_entries s') = insert e E" using E by (auto simp: hp_live_def en)
  show "\<forall>e' \<in> E. hp_at (tb_entries s') e' = hp_at (tb_entries s0) e'" using eE by (auto simp: en)
  show "\<forall>u r. hp_at (tb_tables s0) u = Some r \<longrightarrow> hp_at (tb_tables s') u = Some r"
    using o(4) by (auto simp: tb hp_live_iff)
  show "alive s0 \<subseteq> alive s'" by (auto simp: alive_def lv fl)
  show "entry_ok s' e"
    unfolding entry_ok_def en tb using r o(6) lv fl by (auto simp: table_owns_def)
  have fp: "footprint s' e = insert (RFile f) (insert (RTable t) (table_owns r))"
    by (auto simp: footprint_def en tb)
  show "footprint s' e \<inter> alive s0 = {}"
    unfolding fp using hok(1) o(4,6,7) fl(2) f by (auto simp: table_owns_def)
  show "\<forall>g \<in> hp_live (tb_files s') - hp_live (tb_files s0). RFile g \<in> footprint s' e"
    unfolding fp lv by auto
  show "\<forall>u \<in> hp_live (tb_tables s') - hp_live (tb_tables s0). RTable u \<in> footprint s' e"
    unfolding fp lv by auto
qed

end
