(* ===== verification/TableExample.thy ===== *)
theory TableExample
  imports TableCacheInv
begin

text \<open>
  An instance of the table layer for the properties. A file is its name, a block its bytes; every
  read succeeds but for the file named ''gone''. The table cache holds one entry and drops it for
  the next one: a world is what it holds. Handles are the entries themselves.
\<close>

definition ex_handle :: block_handle where
  "ex_handle = \<lparr>bh_offset = 0, bh_size = 5\<rparr>"

definition ex_table_ops :: "(string, string, string, (slice \<times> nat) option) table_ops" where
  "ex_table_ops = \<lparr>
     to_Read = \<lambda>x n k w. (Status_OK, x, w),
     to_DecodeFooter = \<lambda>i. (Status_OK, ex_handle, ex_handle),
     to_DecodeHandle = \<lambda>v. (Status_OK, ex_handle),
     to_ReadBlock = \<lambda>x opt h w.
       (Status_OK, \<lparr>bc_data = x, bc_cachable = True, bc_heap_allocated = True\<rparr>, w),
     to_ReadOptions = \<lparr>ro_verify_checksums = False, ro_fill_cache = True\<rparr>,
     to_Block = bc_data,
     to_Block_size = length,
     to_Seek = \<lambda>b k. Some (k, b),
     to_policy_Name = \<lambda>p. ''bloom'',
     to_FilterBlockReader = \<lambda>p d. d,
     to_NewId = \<lambda>c w. (1, w)\<rparr>"

definition ex_options :: options where
  "ex_options = \<lparr>opt_create_if_missing = True, opt_comparator = 0, opt_paranoid_checks = True,
     opt_block_cache = Some 0, opt_filter_policy = Some 0, opt_block_restart_interval = 16\<rparr>"

definition ex_tc ::
  "(nat, string, string, string, string list, (slice \<times> nat) option) cache_ops" where
  "ex_tc = \<lparr>
     tc_Lookup = \<lambda>key w. (case w of Some (k, e) \<Rightarrow> (if k = key then Some e else None, w)
                        | None \<Rightarrow> (None, w)),
     tc_Value = \<lambda>h w. h,
     tc_Insert = \<lambda>key e charge w. (e, (case w of None \<Rightarrow> [] | Some x \<Rightarrow> [x]), Some (key, e)),
     tc_Release = \<lambda>h w. ([], w),
     tc_NewRandomAccessFile = \<lambda>fname w.
       if fname = ''gone.ldb'' \<or> fname = ''gone.sst'' then (Status_IOError fname '''', None, w)
       else (Status_OK, Some fname, w),
     tc_TableFileName = \<lambda>dbname n. dbname @ ''.ldb'',
     tc_SSTTableFileName = \<lambda>dbname n. dbname @ ''.sst'',
     tc_EncodeFixed64 = \<lambda>n. replicate (unat n) CHR ''x'',
     tc_InternalGet = \<lambda>options t k f a s. (Status_OK, f k ''v'' a, s)\<rparr>"

definition ex_owned :: "(slice \<times> nat) option \<Rightarrow> nat set" where
  "ex_owned w = snd ` set_option w"

definition ex_no_tables :: "(string, string, string, (slice \<times> nat) option) tables" where
  "ex_no_tables = \<lparr>tb_files = hp_empty, tb_blocks = hp_empty, tb_filters = hp_empty,
     tb_tables = hp_empty, tb_entries = hp_empty, tb_world = None\<rparr>"

lemma ex_tc_contract: "table_cache_contract Status_is_default ex_tc ex_owned"
  by (auto simp: table_cache_contract_def lookup_law_def insert_law_def release_law_def env_law_def
      ex_tc_def ex_owned_def Status_is_default_def Status_OK_def Status_IOError_def
      split: option.splits if_splits)

lemma ex_reads_keep: "reads_keep ex_table_ops ex_owned"
  by (simp add: reads_keep_def ex_table_ops_def)

lemma ex_no_tables_ok: "cache_ok (ex_owned (tb_world ex_no_tables)) ex_no_tables"
  by (simp add: cache_ok_def heaps_ok_def ex_no_tables_def ex_owned_def)

lemma ex_status [simp]:
  "\<not> Status_is_default (Status_Corruption m n)" "Status_is_default Status_OK"
  by (simp_all add: Status_is_default_def Status_Corruption_def Status_OK_def)

text \<open>A table of file 0, with a data block of its own read before.\<close>

definition ex_rep :: table_rep where
  "ex_rep = \<lparr>rp_options = ex_options, rp_status = Status_default, rp_file = Some 0, rp_cache_id = 1,
     rp_filter = None, rp_filter_data = None, rp_metaindex_handle = ex_handle,
     rp_index_block = Some 0\<rparr>"

definition ex_one_table :: "(string, string, string, (slice \<times> nat) option) tables" where
  "ex_one_table = ex_no_tables\<lparr>tb_files := \<lparr>hp_at = [0 \<mapsto> ''data''], hp_next = 1\<rparr>,
     tb_blocks := \<lparr>hp_at = [0 \<mapsto> ''index'', 1 \<mapsto> ''data''], hp_next = 2\<rparr>,
     tb_tables := \<lparr>hp_at = [0 \<mapsto> ex_rep], hp_next = 1\<rparr>\<rparr>"

lemma ex_one_table_simps [simp]:
  "hp_at (tb_tables ex_one_table) 0 = Some ex_rep" "hp_at (tb_files ex_one_table) 0 = Some ''data''"
  "heaps_ok ex_one_table"
  by (simp_all add: ex_one_table_def ex_no_tables_def heaps_ok_def hp_ok_def hp_live_def hp_empty_def)

text \<open>A block cache of one block, and one that holds block 1, which cache 1 has read at offset 0.\<close>

definition ex_bk ::
  "(nat, (string, string, string, (slice \<times> nat) option) tables) block_cache_ops" where
  "ex_bk = \<lparr>bk_Lookup = \<lambda>c key s. (case tb_world s of
       Some (k, b) \<Rightarrow> (if k = key then Some b else None, s) | None \<Rightarrow> (None, s)),
     bk_Value = \<lambda>c h s. h, bk_Insert = \<lambda>c key b n s. (b, s\<lparr>tb_world := Some (key, b)\<rparr>)\<rparr>"

definition ex_cached :: "(string, string, string, (slice \<times> nat) option) tables" where
  "ex_cached = ex_one_table\<lparr>tb_world := Some (''x'', 1)\<rparr>"

end
