(* ===== verification/TableCacheProps.thy ===== *)
theory TableCacheProps
  imports TableExample
begin

text \<open>
  \<open>FindTable\<close> and \<open>Get\<close> keep the invariant of the table cache, and what a lookup returns.
\<close>

section \<open>FindTable\<close>

text \<open>Opening a file adds a file, or nothing.\<close>

definition file_opened ::
  "(status \<Rightarrow> bool) \<Rightarrow> ('w \<Rightarrow> nat set) \<Rightarrow> ('f, 'b, 'q, 'w) tables \<Rightarrow> status
   \<Rightarrow> nat option \<Rightarrow> ('f, 'b, 'q, 'w) tables \<Rightarrow> bool" where
  "file_opened ok owned s st p s' \<longleftrightarrow>
     (if ok st then p = Some (hp_next (tb_files s)) \<and>
        (\<exists>x w. owned w = owned (tb_world s) \<and>
           s' = s\<lparr>tb_world := w, tb_files := snd (hp_new x (tb_files s))\<rparr>)
      else p = None \<and> (\<exists>w. owned w = owned (tb_world s) \<and> s' = s\<lparr>tb_world := w\<rparr>))"

lemma new_RandomAccessFile_effect:
  assumes "env_law ok tc owned" and "new_RandomAccessFile tc fname s = (st, p, s')"
  shows "file_opened ok owned s st p s'"
proof -
  obtain st' f w where f: "tc_NewRandomAccessFile tc fname (tb_world s) = (st', f, w)"
    by (metis prod_cases3)
  have c: "owned w = owned (tb_world s)" "ok st' \<longleftrightarrow> f \<noteq> None"
    using assms(1) f by (auto simp: env_law_def)
  show ?thesis
    using assms(2) c by (cases f) (auto simp: new_RandomAccessFile_def f hp_new_def file_opened_def)
qed

lemma open_table_file_effect:
  assumes "env_law ok tc owned" and "ok Status_OK"
    and "open_table_file ok tc dbname n s = (st, p, s')"
  shows "file_opened ok owned s st p s'"
proof -
  obtain st1 p1 s1 where 1: "new_RandomAccessFile tc (tc_TableFileName tc dbname n) s = (st1, p1, s1)"
    by (metis prod_cases3)
  obtain st2 p2 s2 where 2: "new_RandomAccessFile tc (tc_SSTTableFileName tc dbname n) s1 = (st2, p2, s2)"
    by (metis prod_cases3)
  note e1 = new_RandomAccessFile_effect [OF assms(1) 1]
  note e2 = new_RandomAccessFile_effect [OF assms(1) 2]
  show ?thesis
  proof (cases "ok st1")
    case True
    then show ?thesis using assms(3) 1 e1 by (simp add: open_table_file_def)
  next
    case False
    then obtain w where w: "owned w = owned (tb_world s)" "s1 = s\<lparr>tb_world := w\<rparr>"
      using e1 by (auto simp: file_opened_def)
    have "(st, p, s') = (if ok st2 then Status_OK else st1, p2, s2)"
      using assms(3) 1 2 False by (simp add: open_table_file_def)
    then show ?thesis
      using e2 False assms(2) w(1) by (cases "ok st2") (auto simp: file_opened_def w(2))
  qed
qed

lemma Open_reads_error:
  "snd (Open_reads ok ops options x sz w) = None \<Longrightarrow>
   (\<And>m n. \<not> ok (Status_Corruption m n)) \<Longrightarrow> \<not> ok (fst (Open_reads ok ops options x sz w))"
  by (auto simp: Open_reads_def case_prod_unfold Let_def split: if_splits)

text \<open>What \<open>FindTable\<close> leaves: \<open>s0\<close> before, \<open>s'\<close> after.\<close>

definition found_or_same ::
  "(status \<Rightarrow> bool) \<Rightarrow> ('h, 'f, 'b, 'q, 'a, 'w) cache_ops \<Rightarrow> ('w \<Rightarrow> nat set)
   \<Rightarrow> ('f, 'b, 'q, 'w) tables \<Rightarrow> status \<Rightarrow> 'h option \<Rightarrow> ('f, 'b, 'q, 'w) tables \<Rightarrow> bool" where
  "found_or_same ok tc owned s0 st h s' \<longleftrightarrow>
     cache_ok (owned (tb_world s')) s' \<and>
     (case h of
        None \<Rightarrow> \<not> ok st \<and> same_objects s0 s' \<and> owned (tb_world s') = owned (tb_world s0)
      | Some x \<Rightarrow> ok st \<and> tc_Value tc x (tb_world s') \<in> owned (tb_world s'))"

lemma FindTable_fails:
  assumes ok: "cache_ok (owned (tb_world s0)) s0" and st: "\<not> ok st"
    and w: "owned w = owned (tb_world s0)"
    and s: "s = s0\<lparr>tb_files := snd (hp_new x (tb_files s0)), tb_world := w\<rparr>"
  shows "\<exists>s'. delete_file (Some (hp_next (tb_files s0))) s = Inr s' \<and>
           found_or_same ok tc owned s0 st None s'"
proof -
  define s' where "s' = s\<lparr>tb_files := hp_remove (Some (hp_next (tb_files s0))) (tb_files s)\<rparr>"
  have hs: "heaps_ok s0" using ok by (simp add: cache_ok_def)
  then have fresh: "hp_at (tb_files s0) (hp_next (tb_files s0)) = None"
    by (simp add: heaps_ok_def)
  have "delete_file (Some (hp_next (tb_files s0))) s = Inr s'"
    by (simp add: delete_file_def hp_delete_remove s hp_live_iff hp_new_def s'_def)
  moreover have same: "same_objects s0 s'"
    using fresh by (auto simp: same_objects_def s'_def s hp_new_def hp_remove_def fun_upd_idem_iff)
  moreover have "heaps_ok s'" using hs by (simp add: heaps_ok_def s'_def s hp_new_def)
  then have "cache_ok (owned (tb_world s0)) s'" using cache_ok_same [OF same _ ok] by blast
  ultimately show ?thesis using st w by (simp add: found_or_same_def s'_def s)
qed

lemma FindTable_inserts:
  assumes c: "insert_law tc owned" and ok: "cache_ok (insert e (owned (tb_world s))) s"
    and e: "e \<notin> owned (tb_world s)" and st: "ok st"
    and i: "tc_Insert tc key e 1 (tb_world s) = (h, dropped, w)"
  shows "\<exists>s'. drop_entries dropped (s\<lparr>tb_world := w\<rparr>) = Inr s' \<and>
           found_or_same ok tc owned s0 st (Some h) s'"
proof -
  have d: "tc_Value tc h w = e" "distinct (map snd dropped)"
    "snd ` set dropped \<subseteq> owned (tb_world s)"
    "owned w = insert e (owned (tb_world s)) - snd ` set dropped"
    using c e i unfolding insert_law_def by blast+
  have "cache_ok (insert e (owned (tb_world s))) (s\<lparr>tb_world := w\<rparr>)" using ok by simp
  then obtain s' where s': "drop_entries dropped (s\<lparr>tb_world := w\<rparr>) = Inr s'"
    "cache_ok (insert e (owned (tb_world s)) - snd ` set dropped) s'" "tb_world s' = w"
    using drop_entries_ok [of _ "s\<lparr>tb_world := w\<rparr>" dropped] d(2,3) by fastforce
  then show ?thesis using d e st by (auto simp: found_or_same_def)
qed

text \<open>
  The new entry \<open>e\<close> of file \<open>x\<close>, before the cache is asked to keep it: \<open>s1\<close> is the state in which
  the file is open, \<open>s3\<close> the one in which the table is, too. \<open>g\<close> is anything that reading leaves.
\<close>

definition entry_made ::
  "('w \<Rightarrow> nat set) \<Rightarrow> ('w \<Rightarrow> 'o) \<Rightarrow> ('f, 'b, 'q, 'w) tables \<Rightarrow> ('f, 'b, 'q, 'w) tables
   \<Rightarrow> nat \<Rightarrow> ('f, 'b, 'q, 'w) tables \<Rightarrow> bool" where
  "entry_made owned g s0 s1 e s3 \<longleftrightarrow>
     cache_ok (insert e (owned (tb_world s3))) s3 \<and> e \<notin> owned (tb_world s3) \<and>
     owned (tb_world s3) = owned (tb_world s0) \<and> g (tb_world s3) = g (tb_world s1) \<and>
     tb_files s3 = tb_files s1 \<and>
     (\<exists>t. hp_at (tb_entries s3) =
        (hp_at (tb_entries s0))(e \<mapsto> \<lparr>tf_file = Some (hp_next (tb_files s0)), tf_table = Some t\<rparr>))"

lemma FindTable_open_fails:
  assumes k: "reads_keep ops owned" "reads_keep ops g"
    and inv: "cache_ok (owned (tb_world s0)) s0"
    and s1: "s1 = s0\<lparr>tb_world := w, tb_files := snd (hp_new x (tb_files s0))\<rparr>"
      "owned w = owned (tb_world s0)"
    and o: "Table_Open ok ops options (Some (hp_next (tb_files s0))) sz s1 = Inr (st, None, s2)"
    and s2: "s2 = s1\<lparr>tb_world := w2\<rparr>" and st: "\<not> ok st" "ok st0"
  shows "\<exists>s'. FindTable_open nd ok ops tc options key sz (st0, Some (hp_next (tb_files s0)), s1)
             = Inr (st, None, s') \<and>
           found_or_same ok tc owned s0 st None s' \<and> g (tb_world s') = g (tb_world s1)"
proof -
  have "owned w2 = owned (tb_world s0)" "g w2 = g (tb_world s1)"
    using Table_Open_keeps [OF k(1) o] Table_Open_keeps [OF k(2) o] s1 by (simp_all add: keeps_def s2)
  moreover have "s2 = s0\<lparr>tb_files := snd (hp_new x (tb_files s0)), tb_world := w2\<rparr>"
    by (simp add: s1 s2)
  ultimately obtain s' where s': "delete_file (Some (hp_next (tb_files s0))) s2 = Inr s'"
    "found_or_same ok tc owned s0 st None s'"
    using FindTable_fails [where ok = ok and owned = owned, OF inv st(1)] by blast
  have "tb_world s' = tb_world s2"
    using s'(1) by (cases "hp_delete (Some (hp_next (tb_files s0))) (tb_files s2)")
      (auto simp: delete_file_def)
  then show ?thesis
    using s' st o \<open>g w2 = g (tb_world s1)\<close> by (simp add: FindTable_open_def s2)
qed

lemma FindTable_open_cases:
  assumes k: "reads_keep ops owned" "reads_keep ops g"
    and corrupt: "\<And>m n. \<not> ok (Status_Corruption m n)"
    and inv: "cache_ok (owned (tb_world s0)) s0" and fo: "file_opened ok owned s0 st p s1"
  shows "(\<exists>st' s'. FindTable_open nd ok ops tc options key sz (st, p, s1) = Inr (st', None, s') \<and>
            found_or_same ok tc owned s0 st' None s' \<and> g (tb_world s') = g (tb_world s1)) \<or>
         (\<exists>st' e s3 h dropped w'.
            ok st \<and> ok st' \<and> entry_made owned g s0 s1 e s3 \<and>
            tc_Insert tc key e 1 (tb_world s3) = (h, dropped, w') \<and>
            FindTable_open nd ok ops tc options key sz (st, p, s1) =
              obind (drop_entries dropped (s3\<lparr>tb_world := w'\<rparr>)) (\<lambda>s. Inr (st', Some h, s)))"
    (is "?fails \<or> ?opens")
proof (cases "ok st")
  case False
  then obtain w where w: "p = None" "owned w = owned (tb_world s0)" "s1 = s0\<lparr>tb_world := w\<rparr>"
    using fo by (auto simp: file_opened_def)
  then have ?fails
    using False inv by (simp add: FindTable_open_def delete_file_def found_or_same_def w)
  then show ?thesis ..
next
  case True
  define f where "f = hp_next (tb_files s0)"
  obtain x w where p: "p = Some f" and w: "owned w = owned (tb_world s0)"
    and s1: "s1 = s0\<lparr>tb_world := w, tb_files := snd (hp_new x (tb_files s0))\<rparr>"
    using fo True by (auto simp: file_opened_def f_def)
  have hs: "heaps_ok s0" using inv by (simp add: cache_ok_def)
  have "heaps_ok s1" "hp_at (tb_files s1) f = Some x"
    using hs by (simp_all add: s1 heaps_ok_def hp_new_def f_def)
  moreover have ws: "tb_world s1 = w" by (simp add: s1)
  ultimately obtain q s2 where
    o: "Table_Open ok ops options (Some f) sz s1 =
        Inr (fst (Open_reads ok ops options x sz w), q, s2)"
    and q: "open_result ok ops options f s1 (Open_reads ok ops options x sz w) q s2"
    using Table_Open_effect [of s1 f x ok ops options sz] unfolding ws by blast
  define st' where "st' = fst (Open_reads ok ops options x sz w)"
  show ?thesis
  proof (cases "snd (Open_reads ok ops options x sz w)")
    case None
    have st': "\<not> ok st'" unfolding st'_def by (rule Open_reads_error [OF None corrupt])
    obtain w2 where s2: "q = None" "s2 = s1\<lparr>tb_world := w2\<rparr>"
      using q None by (auto simp: open_result_def)
    have "Table_Open ok ops options (Some (hp_next (tb_files s0))) sz s1 = Inr (st', None, s2)"
      using o s2(1) by (simp add: f_def st'_def)
    from FindTable_open_fails [OF k inv s1 w this s2(2) st' True, of nd tc key]
    have ?fails unfolding p f_def by blast
    then show ?thesis ..
  next
    case (Some mc)
    then obtain m blk t r where t: "ok st'" "q = Some t" "opened s1 t r (to_Block ops blk) s2"
      "rp_file r = Some f" using q by (cases mc) (auto simp: st'_def open_result_def)
    define e where "e = hp_next (tb_entries s0)"
    define s3 where "s3 = s2\<lparr>tb_entries := snd (hp_new \<lparr>tf_file = Some f, tf_table = Some t\<rparr> (tb_entries s2))\<rparr>"
    have en: "tb_entries s2 = tb_entries s0" "tb_files s2 = tb_files s1"
      using t(3) by (simp_all add: opened_def s1)
    have "cache_ok (insert e (owned (tb_world s0))) s3"
      by (rule cache_ok_opened [OF inv f_def s1 t(3,4) e_def s3_def])
    moreover have "owned (tb_world s3) = owned (tb_world s0)" "g (tb_world s3) = g (tb_world s1)"
      using Table_Open_keeps [OF k(1) o] Table_Open_keeps [OF k(2) o] w by (simp_all add: keeps_def s1 s3_def)
    moreover have "e \<notin> owned (tb_world s0)"
      using inv hs hp_fresh_live [of "tb_entries s0"] by (simp add: e_def heaps_ok_def cache_ok_def)
    ultimately have "entry_made owned g s0 s1 e s3"
      by (auto simp: entry_made_def s3_def en hp_new_def e_def f_def)
    moreover obtain h dropped w' where i: "tc_Insert tc key e 1 (tb_world s3) = (h, dropped, w')"
      by (metis prod_cases3)
    moreover have "FindTable_open nd ok ops tc options key sz (st, p, s1) =
        obind (drop_entries dropped (s3\<lparr>tb_world := w'\<rparr>)) (\<lambda>s. Inr (st', Some h, s))"
      using True o t(1,2) i
      by (simp add: FindTable_open_def p st'_def hp_new_def s3_def e_def en)
    ultimately have ?opens using t(1) True by blast
    then show ?thesis ..
  qed
qed

lemma FindTable_open_ok:
  assumes c: "table_cache_contract ok tc owned" and k: "reads_keep ops owned"
    and corrupt: "\<And>m n. \<not> ok (Status_Corruption m n)"
    and inv: "cache_ok (owned (tb_world s0)) s0" and f: "file_opened ok owned s0 st p s1"
  shows "\<exists>st' h s'. FindTable_open nd ok ops tc options key sz (st, p, s1) = Inr (st', h, s') \<and>
           found_or_same ok tc owned s0 st' h s'"
  using FindTable_open_cases [where g = owned and tc = tc and nd = nd and options = options
      and key = key and sz = sz, OF k k corrupt inv f]
proof (elim disjE exE conjE)
  fix st' e s3 h dropped w'
  assume e: "entry_made owned owned s0 s1 e s3" "ok st'"
    and i: "tc_Insert tc key e 1 (tb_world s3) = (h, dropped, w')"
    and F: "FindTable_open nd ok ops tc options key sz (st, p, s1) =
      obind (drop_entries dropped (s3\<lparr>tb_world := w'\<rparr>)) (\<lambda>s. Inr (st', Some h, s))"
  have "insert_law tc owned" using c by (simp add: table_cache_contract_def)
  from FindTable_inserts [where owned = owned and ok = ok, OF this _ _ e(2) i, of s0] e(1)
  obtain s' where "drop_entries dropped (s3\<lparr>tb_world := w'\<rparr>) = Inr s'"
    "found_or_same ok tc owned s0 st' (Some h) s'" by (auto simp: entry_made_def)
  then show ?thesis using F by simp
qed blast

lemma FindTable_ok:
  assumes c: "table_cache_contract ok tc owned" and k: "reads_keep ops owned"
    and corrupt: "\<And>m n. \<not> ok (Status_Corruption m n)" and okd: "ok Status_OK"
    and inv: "cache_ok (owned (tb_world s)) s"
  shows "\<exists>st h s'. FindTable nd ok ops tc dbname options n sz s = Inr (st, h, s') \<and>
           found_or_same ok tc owned s st h s'"
proof -
  obtain l w where l: "tc_Lookup tc (tc_EncodeFixed64 tc n) (tb_world s) = (l, w)" by fastforce
  have w: "owned w = owned (tb_world s)" "\<And>x. l = Some x \<Longrightarrow> tc_Value tc x w \<in> owned w"
    using c l unfolding table_cache_contract_def lookup_law_def by blast+
  show ?thesis
  proof (cases l)
    case (Some h)
    then show ?thesis
      using l w inv okd by (simp add: FindTable_def found_or_same_def Status_OK_def)
  next
    case None
    define s0 where "s0 = s\<lparr>tb_world := w\<rparr>"
    have inv0: "cache_ok (owned (tb_world s0)) s0" using inv w(1) by (simp add: s0_def)
    obtain st p s1 where o: "open_table_file ok tc dbname n s0 = (st, p, s1)" by (metis prod_cases3)
    have "file_opened ok owned s0 st p s1"
      by (rule open_table_file_effect [OF _ okd o]) (use c in \<open>simp add: table_cache_contract_def\<close>)
    from FindTable_open_ok [OF c k corrupt inv0 this, of nd options "tc_EncodeFixed64 tc n" sz]
    obtain st' h s' where "FindTable_open nd ok ops tc options (tc_EncodeFixed64 tc n) sz (st, p, s1) = Inr (st', h, s')"
      and fs: "found_or_same ok tc owned s0 st' h s'" by blast
    moreover have "found_or_same ok tc owned s st' h s'"
      using fs w(1) by (simp add: found_or_same_def s0_def same_objects_def split: option.splits)
    ultimately show ?thesis
      using l None o by (simp add: FindTable_def s0_def [symmetric])
  qed
qed



section \<open>Get\<close>

text \<open>
  What \<open>Get\<close> relies on of \<open>Table::InternalGet\<close>: it may read blocks, but leaves the ownership of
  the objects as it is.
\<close>

definition internal_get_law ::
  "('h, 'f, 'b, 'q, 'a, 'w) cache_ops \<Rightarrow> ('w \<Rightarrow> nat set) \<Rightarrow> bool" where
  "internal_get_law tc owned \<longleftrightarrow>
     (\<forall>opt t k f a s st a' s'. cache_ok (owned (tb_world s)) s \<and>
        tc_InternalGet tc opt t k f a s = (st, a', s') \<longrightarrow> cache_ok (owned (tb_world s')) s')"

lemma UnrefEntry_ok:
  assumes "release_law tc owned" and ok: "cache_ok (owned (tb_world s)) s"
  shows "\<exists>s'. UnrefEntry tc h s = Inr s' \<and> cache_ok (owned (tb_world s')) s'"
proof -
  obtain dropped w where r: "tc_Release tc h (tb_world s) = (dropped, w)" by fastforce
  have d: "distinct (map snd dropped)" "snd ` set dropped \<subseteq> owned (tb_world s)"
    "owned w = owned (tb_world s) - snd ` set dropped"
    using assms(1) r unfolding release_law_def by blast+
  have "cache_ok (owned (tb_world s)) (s\<lparr>tb_world := w\<rparr>)" using ok by simp
  then show ?thesis
    using drop_entries_ok [of _ "s\<lparr>tb_world := w\<rparr>" dropped] d
    by (fastforce simp: UnrefEntry_def r)
qed

text \<open>
  A lookup through the table cache. If \<open>FindTable\<close> reports an error, \<open>Get\<close> returns it and
  calls nothing; otherwise the status and the result are those of \<open>InternalGet\<close> on the table the
  pinned entry holds, a table that is open on the entry's own file, and after the handle is released
  the objects are well kept again. \<open>Get\<close> never faults.
\<close>

theorem TableCache_Get_through_table:
  assumes "table_cache_contract ok tc owned" and "reads_keep ops owned" and "internal_get_law tc owned"
    and "\<And>m n. \<not> ok (Status_Corruption m n)" and "ok Status_OK"
    and "cache_ok (owned (tb_world s)) s"
  shows "\<exists>st h s1. FindTable nd ok ops tc dbname opts file_number file_size s = Inr (st, h, s1) \<and>
     (case h of
        None \<Rightarrow> \<not> ok st \<and>
          TableCache_Get nd ok ops tc dbname opts options file_number file_size k arg hr s =
            Inr (st, arg, s1)
      | Some x \<Rightarrow>
          (\<exists>f t r s2.
             hp_at (tb_entries s1) (tc_Value tc x (tb_world s1)) =
               Some \<lparr>tf_file = Some f, tf_table = Some t\<rparr> \<and>
             hp_at (tb_tables s1) t = Some r \<and> rp_file r = Some f \<and>
             TableCache_Get nd ok ops tc dbname opts options file_number file_size k arg hr s =
               Inr (fst (tc_InternalGet tc options t k hr arg s1),
                    fst (snd (tc_InternalGet tc options t k hr arg s1)), s2) \<and>
             cache_ok (owned (tb_world s2)) s2))"
proof -
  obtain st h s1 where f: "FindTable nd ok ops tc dbname opts file_number file_size s = Inr (st, h, s1)"
    and fs: "found_or_same ok tc owned s st h s1"
    using FindTable_ok [where ok = ok and owned = owned, OF assms(1,2,4,5,6)] by blast
  show ?thesis
  proof (cases h)
    case None
    then show ?thesis using f fs by (simp add: TableCache_Get_def found_or_same_def)
  next
    case (Some x)
    then have st: "ok st" and inv: "cache_ok (owned (tb_world s1)) s1"
      and v: "tc_Value tc x (tb_world s1) \<in> owned (tb_world s1)"
      using fs by (simp_all add: found_or_same_def)
    then have "entry_ok s1 (tc_Value tc x (tb_world s1))" by (simp add: cache_ok_def)
    then obtain g t r where e: "hp_at (tb_entries s1) (tc_Value tc x (tb_world s1)) =
        Some \<lparr>tf_file = Some g, tf_table = Some t\<rparr>" "hp_at (tb_tables s1) t = Some r" "rp_file r = Some g"
      by (rule entry_okE)
    obtain st' a' s2 where i: "tc_InternalGet tc options t k hr arg s1 = (st', a', s2)"
      by (metis prod_cases3)
    have "cache_ok (owned (tb_world s2)) s2" using assms(3) inv i unfolding internal_get_law_def by blast
    with assms(1) obtain s3 where "UnrefEntry tc x s2 = Inr s3" "cache_ok (owned (tb_world s3)) s3"
      using UnrefEntry_ok [of tc owned s2 x] unfolding table_cache_contract_def by blast
    then show ?thesis
      using f st Some e i by (auto simp: TableCache_Get_def)
  qed
qed

theorem TableCache_Get_through_table_witness:
  "\<exists>st h s1. FindTable False Status_is_default ex_table_ops ex_tc ''db'' ex_options 7 100 ex_no_tables
       = Inr (st, h, s1) \<and>
     (case h of
        None \<Rightarrow> \<not> Status_is_default st \<and>
          TableCache_Get False Status_is_default ex_table_ops ex_tc ''db'' ex_options
            (to_ReadOptions ex_table_ops) 7 100 ''k'' [] (\<lambda>k v a. a @ [k, v]) ex_no_tables =
            Inr (st, [], s1)
      | Some x \<Rightarrow>
          (\<exists>f t r s2.
             hp_at (tb_entries s1) (tc_Value ex_tc x (tb_world s1)) =
               Some \<lparr>tf_file = Some f, tf_table = Some t\<rparr> \<and>
             hp_at (tb_tables s1) t = Some r \<and> rp_file r = Some f \<and>
             TableCache_Get False Status_is_default ex_table_ops ex_tc ''db'' ex_options
               (to_ReadOptions ex_table_ops) 7 100 ''k'' [] (\<lambda>k v a. a @ [k, v]) ex_no_tables =
               Inr (fst (tc_InternalGet ex_tc (to_ReadOptions ex_table_ops) t ''k''
                           (\<lambda>k v a. a @ [k, v]) [] s1),
                    fst (snd (tc_InternalGet ex_tc (to_ReadOptions ex_table_ops) t ''k''
                           (\<lambda>k v a. a @ [k, v]) [] s1)), s2) \<and>
             cache_ok (ex_owned (tb_world s2)) s2))"
  by (rule TableCache_Get_through_table [OF ex_tc_contract ex_reads_keep _ _ _ ex_no_tables_ok])
    (simp_all add: internal_get_law_def ex_tc_def)

text \<open>
  C30: with \<open>Status::ok\<close> as it is at this commit, a lookup in a table file that cannot be opened
  under either name dereferences a null pointer: the failure is not noticed, \<open>Table::Open\<close> reads
  through the null file, or, when the size is below a footer's, an entry without a table is cached
  and used.
\<close>

theorem TableCache_Get_missing_file:
  assumes "tc_Lookup tc (tc_EncodeFixed64 tc n) (tb_world s) = (None, w)"
    and "tc_NewRandomAccessFile tc (tc_TableFileName tc dbname n) w = (st, None, v)"
    and "\<And>e. \<exists>h w2. tc_Insert tc (tc_EncodeFixed64 tc n) e 1 v = (h, [], w2) \<and> tc_Value tc h w2 = e"
  shows "TableCache_Get nd Status_ok ops tc dbname opts options n sz k arg hr s = Inl NullDeref"
proof -
  define key where "key = tc_EncodeFixed64 tc n"
  have o: "open_table_file Status_ok tc dbname n (s\<lparr>tb_world := w\<rparr>) = (st, None, s\<lparr>tb_world := v\<rparr>)"
    using assms(2) by (simp add: open_table_file_def new_RandomAccessFile_def Status_ok_def)
  have f: "FindTable nd Status_ok ops tc dbname opts n sz s =
      FindTable_open nd Status_ok ops tc opts key sz (st, None, s\<lparr>tb_world := v\<rparr>)"
    using assms(1) o by (simp add: FindTable_def key_def)
  show ?thesis
  proof (cases "sz < 48")
    case False
    then have "Table_Open Status_ok ops opts None sz (s\<lparr>tb_world := v\<rparr>) = Inl NullDeref"
      by (simp add: Table_Open_def kEncodedLength_value)
    then show ?thesis
      by (simp add: TableCache_Get_def f FindTable_open_def Status_ok_def)
  next
    case True
    obtain h w2 where i: "tc_Insert tc key (hp_next (tb_entries s)) 1 v = (h, [], w2)"
        "tc_Value tc h w2 = hp_next (tb_entries s)"
      using assms(3) unfolding key_def by blast
    show ?thesis
      using True i
      by (simp add: TableCache_Get_def f FindTable_open_def Table_Open_def kEncodedLength_value
          Status_ok_def hp_new_def drop_entries_def)
  qed
qed

theorem TableCache_Get_missing_file_witness:
  "TableCache_Get False Status_ok ex_table_ops ex_tc ''gone'' ex_options (to_ReadOptions ex_table_ops)
     7 100 ''k'' [] (\<lambda>k v a. a @ [k, v]) ex_no_tables = Inl NullDeref"
  by (rule TableCache_Get_missing_file [where w = None and v = None])
    (simp_all add: ex_tc_def ex_no_tables_def)

end
