(* ===== verification/TableCacheReads.thy ===== *)
theory TableCacheReads
  imports TableCacheProps
begin

text \<open>
  What a lookup through the table cache answers. A cached entry belongs to the table of its key:
  the file it holds is the one of that number. \<open>FindTable\<close> keeps this, so \<open>Get\<close> reads the right
  table or reports an error.
\<close>

section \<open>The file of an entry\<close>

definition file_of :: "('f, 'b, 'q, 'w) tables \<Rightarrow> nat \<Rightarrow> 'f option" where
  "file_of s e =
     Option.bind (hp_at (tb_entries s) e) (\<lambda>x. Option.bind (tf_file x) (hp_at (tb_files s)))"

lemma file_of_world [simp]: "file_of (s\<lparr>tb_world := w\<rparr>) e = file_of s e"
  by (simp add: file_of_def)

lemma file_of_cong:
  "tb_entries s' = tb_entries s \<Longrightarrow> tb_files s' = tb_files s \<Longrightarrow> file_of s' e = file_of s e"
  by (simp add: file_of_def)

lemma file_of_same: "same_objects s s' \<Longrightarrow> file_of s' e = file_of s e"
  by (simp add: same_objects_def file_of_def)

lemma file_of_new_file:
  assumes "cache_ok E s" and "e \<in> E"
  shows "file_of (s\<lparr>tb_files := snd (hp_new x (tb_files s))\<rparr>) e = file_of s e"
proof -
  have "entry_ok s e" "hp_ok (tb_files s)" using assms by (simp_all add: cache_ok_def heaps_ok_def)
  then show ?thesis
    by (elim entry_okE) (auto simp: file_of_def hp_new_def hp_live_iff)
qed

lemma DeleteEntry_file_of:
  assumes ok: "cache_ok E s" and e: "e \<in> E" "e' \<in> E" "e' \<noteq> e"
    and del: "DeleteEntry k e s = Inr s'"
  shows "file_of s' e' = file_of s e'"
proof -
  have "entry_ok s e" "entry_ok s e'" and sep: "footprint s e' \<inter> footprint s e = {}"
    using ok e by (auto simp: cache_ok_def)
  from this(1) obtain f t r where x: "hp_at (tb_entries s) e = Some \<lparr>tf_file = Some f, tf_table = Some t\<rparr>"
    "hp_at (tb_tables s) t = Some r" "f \<in> hp_live (tb_files s)" "table_owns r \<subseteq> alive s"
    and fp: "footprint s e = insert (RFile f) (insert (RTable t) (table_owns r))"
    by (rule entry_okE)
  from \<open>entry_ok s e'\<close> obtain f' t' r' where
    x': "hp_at (tb_entries s) e' = Some \<lparr>tf_file = Some f', tf_table = Some t'\<rparr>"
    and fp': "footprint s e' = insert (RFile f') (insert (RTable t') (table_owns r'))"
    by (rule entry_okE)
  have "f' \<noteq> f" using sep unfolding fp fp' by blast
  then show ?thesis
    using del e(3) x' unfolding DeleteEntry_removes [OF x] by (auto simp: file_of_def hp_at_remove)
qed

lemma drop_entries_file_of:
  assumes "cache_ok E s" and "distinct (map snd es)" and "snd ` set es \<subseteq> E"
    and "drop_entries es s = Inr s'" and "e' \<in> E - snd ` set es"
  shows "file_of s' e' = file_of s e'"
  using assms
proof (induction es arbitrary: E s)
  case Nil
  then show ?case by (simp add: drop_entries_def)
next
  case (Cons x es)
  obtain k e where x: "x = (k, e)" by (cases x)
  have e: "e \<in> E" "e' \<in> E" "e' \<noteq> e" using Cons.prems(3,5) x by auto
  obtain s1 where s1: "DeleteEntry k e s = Inr s1" "cache_ok (E - {e}) s1"
    using DeleteEntry_ok [OF Cons.prems(1) e(1), of k] by blast
  have "drop_entries es s1 = Inr s'" "distinct (map snd es)" "snd ` set es \<subseteq> E - {e}"
    "e' \<in> E - {e} - snd ` set es"
    using Cons.prems(2-5) x s1(1) by (auto simp: drop_entries_def)
  with Cons.IH [OF s1(2)] have "file_of s' e' = file_of s1 e'" by simp
  also have "\<dots> = file_of s e'" by (rule DeleteEntry_file_of [OF Cons.prems(1) e s1(1)])
  finally show ?case .
qed

section \<open>The contract\<close>

text \<open>
  \<open>cached w\<close> are the keys and entries a lookup can find. \<open>is_file n x\<close> says that \<open>x\<close> reads the
  table file of number \<open>n\<close> of this database, and \<open>answer\<close> what a search of that table gives: a
  table file is never changed.
\<close>

definition keyed_law ::
  "('h, 'f, 'b, 'q, 'a, 'w) cache_ops \<Rightarrow> ('w \<Rightarrow> nat set) \<Rightarrow> ('w \<Rightarrow> (slice \<times> nat) set) \<Rightarrow> bool" where
  "keyed_law tc owned cached \<longleftrightarrow>
     inj (tc_EncodeFixed64 tc) \<and>
     (\<forall>w. snd ` cached w \<subseteq> owned w) \<and>
     (\<forall>key w h w'. tc_Lookup tc key w = (h, w') \<longrightarrow>
        cached w' \<subseteq> cached w \<and> (\<forall>x. h = Some x \<longrightarrow> (key, tc_Value tc x w') \<in> cached w')) \<and>
     (\<forall>key e w h dropped w'. tc_Insert tc key e 1 w = (h, dropped, w') \<longrightarrow>
        cached w' \<subseteq> insert (key, e) (cached w)) \<and>
     (\<forall>h w dropped w'. tc_Release tc h w = (dropped, w') \<longrightarrow> cached w' \<subseteq> cached w)"

definition names_law ::
  "('h, 'f, 'b, 'q, 'a, 'w) cache_ops \<Rightarrow> ('w \<Rightarrow> (slice \<times> nat) set) \<Rightarrow> (u64 \<Rightarrow> 'f \<Rightarrow> bool) \<Rightarrow> string \<Rightarrow> bool"
where
  "names_law tc cached is_file dbname \<longleftrightarrow>
     (\<forall>fname w st f w'. tc_NewRandomAccessFile tc fname w = (st, f, w') \<longrightarrow>
        cached w' = cached w \<and>
        (\<forall>n x. f = Some x \<and>
           (fname = tc_TableFileName tc dbname n \<or> fname = tc_SSTTableFileName tc dbname n) \<longrightarrow>
           is_file n x))"

definition search_law ::
  "('h, 'f, 'b, 'q, 'a, 'w) cache_ops \<Rightarrow> ('w \<Rightarrow> nat set) \<Rightarrow> ('w \<Rightarrow> (slice \<times> nat) set)
   \<Rightarrow> (u64 \<Rightarrow> 'f \<Rightarrow> bool) \<Rightarrow> (u64 \<Rightarrow> read_options \<Rightarrow> slice \<Rightarrow> (slice \<Rightarrow> slice \<Rightarrow> 'a \<Rightarrow> 'a) \<Rightarrow> 'a \<Rightarrow> status \<times> 'a)
   \<Rightarrow> bool"
where
  "search_law tc owned cached is_file answer \<longleftrightarrow>
     (\<forall>opt t k f a s st a' s'.
        cache_ok (owned (tb_world s)) s \<and> tc_InternalGet tc opt t k f a s = (st, a', s') \<longrightarrow>
        cache_ok (owned (tb_world s')) s' \<and> cached (tb_world s') \<subseteq> cached (tb_world s) \<and>
        tb_entries s' = tb_entries s \<and> tb_files s' = tb_files s \<and>
        (\<forall>r p x n. hp_at (tb_tables s) t = Some r \<and> rp_file r = Some p \<and>
           hp_at (tb_files s) p = Some x \<and> is_file n x \<longrightarrow> (st, a') = answer n opt k f a))"

lemma keyed_lawD:
  assumes "keyed_law tc owned cached"
  shows "inj (tc_EncodeFixed64 tc)" and "(key, e) \<in> cached w \<Longrightarrow> e \<in> owned w"
    and "tc_Lookup tc key w = (h, w') \<Longrightarrow> cached w' \<subseteq> cached w"
    and "tc_Lookup tc key w = (Some x, w') \<Longrightarrow> (key, tc_Value tc x w') \<in> cached w'"
    and "tc_Insert tc key e 1 w = (hnd, dropped, w') \<Longrightarrow> cached w' \<subseteq> insert (key, e) (cached w)"
    and "tc_Release tc hnd w = (dropped, w') \<Longrightarrow> cached w' \<subseteq> cached w"
proof -
  show "inj (tc_EncodeFixed64 tc)" using assms unfolding keyed_law_def by (elim conjE)
  have "snd ` cached w \<subseteq> owned w" using assms unfolding keyed_law_def by (elim conjE) (erule spec)
  then show "(key, e) \<in> cached w \<Longrightarrow> e \<in> owned w" by force
qed (insert assms, unfold keyed_law_def, (elim conjE, (simp | blast))+)

text \<open>Every cached entry holds the file of its key.\<close>

definition serves ::
  "('h, 'f, 'b, 'q, 'a, 'w) cache_ops \<Rightarrow> ('w \<Rightarrow> (slice \<times> nat) set) \<Rightarrow> (u64 \<Rightarrow> 'f \<Rightarrow> bool)
   \<Rightarrow> ('f, 'b, 'q, 'w) tables \<Rightarrow> bool" where
  "serves tc cached is_file s \<longleftrightarrow>
     (\<forall>(key, e) \<in> cached (tb_world s).
        \<exists>n x. key = tc_EncodeFixed64 tc n \<and> file_of s e = Some x \<and> is_file n x)"

lemma serves_frame:
  assumes "serves tc cached is_file s" and "cached (tb_world s') \<subseteq> cached (tb_world s)"
    and "\<And>key e. (key, e) \<in> cached (tb_world s') \<Longrightarrow> file_of s' e = file_of s e"
  shows "serves tc cached is_file s'"
  unfolding serves_def
proof clarify
  fix key e assume e: "(key, e) \<in> cached (tb_world s')"
  with assms(1,2) have "\<exists>n x. key = tc_EncodeFixed64 tc n \<and> file_of s e = Some x \<and> is_file n x"
    unfolding serves_def by blast
  then show "\<exists>n x. key = tc_EncodeFixed64 tc n \<and> file_of s' e = Some x \<and> is_file n x"
    by (simp add: assms(3) [OF e])
qed

lemma serves_entry:
  assumes "serves tc cached is_file s" and "keyed_law tc owned cached"
    and "(tc_EncodeFixed64 tc n, e) \<in> cached (tb_world s)"
  shows "\<exists>x. file_of s e = Some x \<and> is_file n x"
proof -
  obtain m x where "tc_EncodeFixed64 tc n = tc_EncodeFixed64 tc m" "file_of s e = Some x" "is_file m x"
    using assms(1,3) unfolding serves_def by blast
  moreover have "inj (tc_EncodeFixed64 tc)" using assms(2) unfolding keyed_law_def by blast
  ultimately show ?thesis by (auto dest: injD)
qed

section \<open>FindTable\<close>

text \<open>Opening the file under either name gives the file of the number.\<close>

lemma new_RandomAccessFile_named:
  assumes "names_law tc cached is_file dbname" and "env_law ok tc owned"
    and "new_RandomAccessFile tc fname s = (st, p, s')"
    and "fname = tc_TableFileName tc dbname n \<or> fname = tc_SSTTableFileName tc dbname n"
  shows "cached (tb_world s') = cached (tb_world s) \<and>
    (ok st \<longrightarrow> (\<exists>x w. s' = s\<lparr>tb_world := w, tb_files := snd (hp_new x (tb_files s))\<rparr> \<and> is_file n x))"
proof -
  obtain st' f w where f: "tc_NewRandomAccessFile tc fname (tb_world s) = (st', f, w)"
    by (metis prod_cases3)
  have l: "cached w = cached (tb_world s)" "ok st' \<longleftrightarrow> f \<noteq> None" "\<And>x. f = Some x \<Longrightarrow> is_file n x"
    using assms(1,2,4) f unfolding names_law_def env_law_def by blast+
  show ?thesis
  proof (cases f)
    case None
    have "s' = s\<lparr>tb_world := w\<rparr>" "st = st'"
      using assms(3) None f by (simp_all add: new_RandomAccessFile_def)
    then show ?thesis using l(1,2) None by simp
  next
    case (Some x)
    have "s' = s\<lparr>tb_world := w, tb_files := snd (hp_new x (tb_files s))\<rparr>"
      using assms(3) Some f by (simp add: new_RandomAccessFile_def hp_new_def)
    then show ?thesis using l(1) l(3) [OF Some] by (intro conjI impI exI [of _ x] exI [of _ w]) simp_all
  qed
qed

lemma open_table_file_named:
  assumes law: "names_law tc cached is_file dbname" "env_law ok tc owned"
    and "open_table_file ok tc dbname n s = (st, p, s')" and okd: "ok Status_OK"
  shows "cached (tb_world s') = cached (tb_world s)"
    and "ok st \<Longrightarrow> \<exists>x w. s' = s\<lparr>tb_world := w, tb_files := snd (hp_new x (tb_files s))\<rparr> \<and> is_file n x"
proof -
  obtain st1 p1 s1 where 1: "new_RandomAccessFile tc (tc_TableFileName tc dbname n) s = (st1, p1, s1)"
    by (metis prod_cases3)
  obtain st2 p2 s2 where 2: "new_RandomAccessFile tc (tc_SSTTableFileName tc dbname n) s1 = (st2, p2, s2)"
    by (metis prod_cases3)
  note e1 = new_RandomAccessFile_named [where n = n, OF law 1]
    and e2 = new_RandomAccessFile_named [where n = n, OF law 2]
    and f1 = new_RandomAccessFile_effect [OF law(2) 1]
  have r: "(st, p, s') = (if ok st1 then (st1, p1, s1) else (if ok st2 then Status_OK else st1, p2, s2))"
    using assms(3) 1 2 by (auto simp: open_table_file_def)
  show "cached (tb_world s') = cached (tb_world s)"
    using r e1 e2 by (auto split: if_splits)
  assume st: "ok st"
  show "\<exists>x w. s' = s\<lparr>tb_world := w, tb_files := snd (hp_new x (tb_files s))\<rparr> \<and> is_file n x"
  proof (cases "ok st1")
    case True
    then show ?thesis using r e1 by simp
  next
    case False
    then obtain w where "s1 = s\<lparr>tb_world := w\<rparr>" using f1 by (auto simp: file_opened_def)
    moreover have "ok st2" "s' = s2" using r st False by (auto split: if_splits)
    ultimately show ?thesis using e2 by auto
  qed
qed

definition found ::
  "('h, 'f, 'b, 'q, 'a, 'w) cache_ops \<Rightarrow> ('w \<Rightarrow> (slice \<times> nat) set) \<Rightarrow> (u64 \<Rightarrow> 'f \<Rightarrow> bool) \<Rightarrow> u64
   \<Rightarrow> 'h option \<Rightarrow> ('f, 'b, 'q, 'w) tables \<Rightarrow> bool" where
  "found tc cached is_file n h s \<longleftrightarrow> serves tc cached is_file s \<and>
     (\<forall>x. h = Some x \<longrightarrow> (\<exists>y. file_of s (tc_Value tc x (tb_world s)) = Some y \<and> is_file n y))"

lemma entry_made_file_of:
  assumes "cache_ok E s0" and "entry_made owned g s0 s1 e s3" and "owned (tb_world s0) = E"
    and "s1 = s0\<lparr>tb_world := w, tb_files := snd (hp_new x (tb_files s0))\<rparr>"
  shows "file_of s3 e = Some x" and "e' \<in> E \<Longrightarrow> file_of s3 e' = file_of s0 e'"
proof -
  note m = assms(2) [unfolded entry_made_def]
  show "file_of s3 e = Some x"
    using m assms(4) by (auto simp: file_of_def hp_new_def)
  assume e': "e' \<in> E"
  then have "e' \<noteq> e" using m assms(3) by auto
  then have "file_of s3 e' = file_of (s0\<lparr>tb_files := snd (hp_new x (tb_files s0))\<rparr>) e'"
    using m assms(4) by (auto simp: file_of_def)
  then show "file_of s3 e' = file_of s0 e'" using file_of_new_file [OF assms(1) e'] by simp
qed

text \<open>The cache takes the new entry, and drops what it likes.\<close>

lemma FindTable_inserts_serves:
  assumes c: "insert_law tc owned" "keyed_law tc owned cached"
    and inv: "cache_ok (owned (tb_world s0)) s0" and sv: "serves tc cached is_file s0"
    and m: "entry_made owned cached s0 s1 e s3"
    and s1: "s1 = s0\<lparr>tb_world := w, tb_files := snd (hp_new x (tb_files s0))\<rparr>" "is_file n x"
      "cached w = cached (tb_world s0)"
    and i: "tc_Insert tc (tc_EncodeFixed64 tc n) e 1 (tb_world s3) = (h, dropped, w')"
    and d: "drop_entries dropped (s3\<lparr>tb_world := w'\<rparr>) = Inr s'"
  shows "found tc cached is_file n (Some h) s'"
proof -
  have e: "e \<notin> owned (tb_world s3)" and ok3: "cache_ok (insert e (owned (tb_world s3))) s3"
    and o3: "owned (tb_world s3) = owned (tb_world s0)" "cached (tb_world s3) = cached (tb_world s0)"
    using m s1 unfolding entry_made_def by auto
  have l: "tc_Value tc h w' = e" "distinct (map snd dropped)" "snd ` set dropped \<subseteq> owned (tb_world s3)"
    "owned w' = insert e (owned (tb_world s3)) - snd ` set dropped"
    using c(1) e i unfolding insert_law_def by blast+
  note k = keyed_lawD(2) [OF c(2)] keyed_lawD(5) [OF c(2) i, unfolded o3(2)]
  have ok3': "cache_ok (insert e (owned (tb_world s3))) (s3\<lparr>tb_world := w'\<rparr>)" using ok3 by simp
  have sub: "snd ` set dropped \<subseteq> insert e (owned (tb_world s3))" using l(3) by blast
  note new = entry_made_file_of [OF inv m refl s1(1)]
  have frame: "file_of s' e' = file_of s3 e'" if "e' \<in> owned w'" for e'
    using drop_entries_file_of [OF ok3' l(2) sub d] that l(4) by simp
  have w': "tb_world s' = w'"
  proof -
    obtain s'' where "drop_entries dropped (s3\<lparr>tb_world := w'\<rparr>) = Inr s''"
      "tb_world s'' = tb_world (s3\<lparr>tb_world := w'\<rparr>)"
      using drop_entries_ok [OF ok3' l(2) sub] by blast
    then have "s' = s''" "tb_world s'' = w'" using d by simp_all
    then show ?thesis by simp
  qed
  have he: "e \<in> owned w'" using e l(3,4) by auto
  have "serves tc cached is_file s'"
    unfolding serves_def w'
  proof clarify
    fix key e' assume ke: "(key, e') \<in> cached w'"
    have f: "file_of s' e' = file_of s3 e'" by (rule frame [OF k(1) [OF ke]])
    show "\<exists>n x. key = tc_EncodeFixed64 tc n \<and> file_of s' e' = Some x \<and> is_file n x"
    proof (cases "(key, e') = (tc_EncodeFixed64 tc n, e)")
      case True
      then show ?thesis using f new(1) s1(2) by auto
    next
      case False
      then have old: "(key, e') \<in> cached (tb_world s0)" using ke k(2) by auto
      then have "file_of s3 e' = file_of s0 e'" using new(2) k(1) by blast
      then show ?thesis using sv old f unfolding serves_def by fastforce
    qed
  qed
  then show ?thesis using frame [OF he] new(1) s1(2) l(1) by (simp add: found_def w')
qed

lemma FindTable_open_serves:
  assumes c: "table_cache_contract ok tc owned" "keyed_law tc owned cached"
    and k: "reads_keep ops owned" "reads_keep ops cached"
    and corrupt: "\<And>m n. \<not> ok (Status_Corruption m n)"
    and inv: "cache_ok (owned (tb_world s0)) s0" and sv: "serves tc cached is_file s0"
    and fo: "file_opened ok owned s0 st p s1" and w1: "cached (tb_world s1) = cached (tb_world s0)"
    and named: "ok st \<Longrightarrow> \<exists>x w. s1 = s0\<lparr>tb_world := w, tb_files := snd (hp_new x (tb_files s0))\<rparr> \<and> is_file n x"
    and F: "FindTable_open nd ok ops tc options (tc_EncodeFixed64 tc n) sz (st, p, s1) = Inr (st', h, s')"
  shows "found tc cached is_file n h s'"
  using FindTable_open_cases [where g = cached and tc = tc and nd = nd and options = options
      and key = "tc_EncodeFixed64 tc n" and sz = sz, OF k corrupt inv fo]
proof (elim disjE exE conjE)
  fix st2 s2
  assume "FindTable_open nd ok ops tc options (tc_EncodeFixed64 tc n) sz (st, p, s1) = Inr (st2, None, s2)"
    and fs: "found_or_same ok tc owned s0 st2 None s2" and g: "cached (tb_world s2) = cached (tb_world s1)"
  then have h: "h = None" "s' = s2" using F by simp_all
  have "same_objects s0 s2" using fs by (simp add: found_or_same_def)
  from file_of_same [OF this] have "serves tc cached is_file s2"
    using g w1 by (intro serves_frame [OF sv]) simp_all
  then show ?thesis by (simp add: found_def h)
next
  fix st2 e s3 h2 dropped w'
  assume st: "ok st" and m: "entry_made owned cached s0 s1 e s3"
    and i: "tc_Insert tc (tc_EncodeFixed64 tc n) e 1 (tb_world s3) = (h2, dropped, w')"
    and "FindTable_open nd ok ops tc options (tc_EncodeFixed64 tc n) sz (st, p, s1) =
      obind (drop_entries dropped (s3\<lparr>tb_world := w'\<rparr>)) (\<lambda>s. Inr (st2, Some h2, s))"
  then have d: "drop_entries dropped (s3\<lparr>tb_world := w'\<rparr>) = Inr s'" and h: "h = Some h2"
    using F by (cases "drop_entries dropped (s3\<lparr>tb_world := w'\<rparr>)"; simp)+
  obtain x w where x: "s1 = s0\<lparr>tb_world := w, tb_files := snd (hp_new x (tb_files s0))\<rparr>" "is_file n x"
    using named [OF st] by blast
  then have "cached w = cached (tb_world s0)" using w1 by simp
  moreover have "insert_law tc owned" using c(1) by (simp add: table_cache_contract_def)
  ultimately show ?thesis
    unfolding h using FindTable_inserts_serves [OF _ c(2) inv sv m x _ i d] by blast
qed

lemma FindTable_serves:
  assumes c: "table_cache_contract ok tc owned" "keyed_law tc owned cached"
    and names: "names_law tc cached is_file dbname"
    and k: "reads_keep ops owned" "reads_keep ops cached"
    and corrupt: "\<And>m n. \<not> ok (Status_Corruption m n)" and okd: "ok Status_OK"
    and inv: "cache_ok (owned (tb_world s)) s" and sv: "serves tc cached is_file s"
    and F: "FindTable nd ok ops tc dbname options n sz s = Inr (st, h, s')"
  shows "found tc cached is_file n h s'"
proof -
  let ?key = "tc_EncodeFixed64 tc n"
  obtain l w where l: "tc_Lookup tc ?key (tb_world s) = (l, w)" by fastforce
  define s0 where "s0 = s\<lparr>tb_world := w\<rparr>"
  have ow: "owned w = owned (tb_world s)" and env: "env_law ok tc owned"
    using c(1) l unfolding table_cache_contract_def lookup_law_def by blast+
  have sv0: "serves tc cached is_file s0"
    by (rule serves_frame [OF sv]) (use keyed_lawD(3) [OF c(2) l] in \<open>simp_all add: s0_def\<close>)
  show ?thesis
  proof (cases l)
    case (Some x)
    then have "h = Some x" "s' = s0" using F l by (simp_all add: FindTable_def s0_def)
    moreover have "(?key, tc_Value tc x w) \<in> cached (tb_world s0)"
      using keyed_lawD(4) [OF c(2)] l Some by (simp add: s0_def)
    ultimately show ?thesis
      using serves_entry [OF sv0 c(2)] sv0 by (simp add: found_def s0_def)
  next
    case None
    have inv0: "cache_ok (owned (tb_world s0)) s0" using inv ow by (simp add: s0_def)
    obtain st1 p s1 where o: "open_table_file ok tc dbname n s0 = (st1, p, s1)" by (metis prod_cases3)
    have F': "FindTable_open nd ok ops tc options ?key sz (st1, p, s1) = Inr (st, h, s')"
      using F l None o by (simp add: FindTable_def s0_def)
    show ?thesis
      by (rule FindTable_open_serves [OF c k corrupt inv0 sv0 open_table_file_effect [OF env okd o] _ _ F'])
        (use open_table_file_named [OF names env o okd] in blast)+
  qed
qed

section \<open>Get\<close>

lemma UnrefEntry_serves:
  assumes rel: "release_law tc owned" and c: "keyed_law tc owned cached"
    and inv: "cache_ok (owned (tb_world s)) s" and sv: "serves tc cached is_file s"
    and u: "UnrefEntry tc h s = Inr s'"
  shows "serves tc cached is_file s'"
proof -
  obtain dropped w where r: "tc_Release tc h (tb_world s) = (dropped, w)" by fastforce
  have d: "distinct (map snd dropped)" "snd ` set dropped \<subseteq> owned (tb_world s)"
    "owned w = owned (tb_world s) - snd ` set dropped"
    using rel r unfolding release_law_def by blast+
  have ok: "cache_ok (owned (tb_world s)) (s\<lparr>tb_world := w\<rparr>)" using inv by simp
  have u': "drop_entries dropped (s\<lparr>tb_world := w\<rparr>) = Inr s'" using u r by (simp add: UnrefEntry_def)
  obtain s'' where "drop_entries dropped (s\<lparr>tb_world := w\<rparr>) = Inr s''"
    "tb_world s'' = tb_world (s\<lparr>tb_world := w\<rparr>)"
    using drop_entries_ok [OF ok d(1,2)] by blast
  then have w': "tb_world s' = w" using u' by simp
  show ?thesis
  proof (rule serves_frame [OF sv])
    show "cached (tb_world s') \<subseteq> cached (tb_world s)" using keyed_lawD(6) [OF c r] by (simp add: w')
    fix key e assume "(key, e) \<in> cached (tb_world s')"
    then have "e \<in> owned w" using keyed_lawD(2) [OF c] by (simp add: w')
    then show "file_of s' e = file_of s e"
      using drop_entries_file_of [OF ok d(1,2) u'] d(3) by simp
  qed
qed

text \<open>The answer of the table, or an error of finding it.\<close>

lemma TableCache_Get_answers:
  assumes c: "table_cache_contract ok tc owned" "keyed_law tc owned cached"
    and names: "names_law tc cached is_file dbname"
    and search: "search_law tc owned cached is_file answer"
    and k: "reads_keep ops owned" "reads_keep ops cached"
    and corrupt: "\<And>m n. \<not> ok (Status_Corruption m n)" and okd: "ok Status_OK"
    and inv: "cache_ok (owned (tb_world s)) s" and sv: "serves tc cached is_file s"
  shows "\<exists>st a s'. TableCache_Get nd ok ops tc dbname opts options n sz key arg hr s = Inr (st, a, s') \<and>
     cache_ok (owned (tb_world s')) s' \<and> serves tc cached is_file s' \<and>
     ((st, a) = answer n options key hr arg \<or> \<not> ok st \<and> a = arg)"
proof -
  obtain st h s1 where f: "FindTable nd ok ops tc dbname opts n sz s = Inr (st, h, s1)"
    and fs: "found_or_same ok tc owned s st h s1"
    using FindTable_ok [where ok = ok and owned = owned, OF c(1) k(1) corrupt okd inv] by blast
  have fd: "found tc cached is_file n h s1"
    by (rule FindTable_serves [OF c names k corrupt okd inv sv f])
  show ?thesis
  proof (cases h)
    case None
    have "cache_ok (owned (tb_world s1)) s1" "\<not> ok st" "serves tc cached is_file s1"
      using fs fd None unfolding found_or_same_def found_def by auto
    then show ?thesis using f by (simp add: TableCache_Get_def)
  next
    case (Some x)
    have st: "ok st" and inv1: "cache_ok (owned (tb_world s1)) s1"
      and v: "tc_Value tc x (tb_world s1) \<in> owned (tb_world s1)"
      using fs Some by (simp_all add: found_or_same_def)
    from inv1 v have "entry_ok s1 (tc_Value tc x (tb_world s1))" by (simp add: cache_ok_def)
    then obtain g t r where e: "hp_at (tb_entries s1) (tc_Value tc x (tb_world s1)) =
        Some \<lparr>tf_file = Some g, tf_table = Some t\<rparr>" "hp_at (tb_tables s1) t = Some r" "rp_file r = Some g"
      by (rule entry_okE)
    from fd Some obtain y where y: "hp_at (tb_files s1) g = Some y" "is_file n y"
      using e(1) by (auto simp: found_def file_of_def)
    obtain st' a' s2 where i: "tc_InternalGet tc options t key hr arg s1 = (st', a', s2)"
      by (metis prod_cases3)
    have 2: "cache_ok (owned (tb_world s2)) s2" "cached (tb_world s2) \<subseteq> cached (tb_world s1)"
      "tb_entries s2 = tb_entries s1" "tb_files s2 = tb_files s1" "(st', a') = answer n options key hr arg"
      using search inv1 i e(2,3) y unfolding search_law_def by blast+
    have sv2: "serves tc cached is_file s2"
      by (rule serves_frame [OF _ 2(2)]) (use fd 2(3,4) in \<open>simp_all add: found_def file_of_def\<close>)
    have rel: "release_law tc owned" using c(1) by (simp add: table_cache_contract_def)
    obtain s3 where s3: "UnrefEntry tc x s2 = Inr s3" "cache_ok (owned (tb_world s3)) s3"
      using UnrefEntry_ok [OF rel 2(1)] by blast
    have "TableCache_Get nd ok ops tc dbname opts options n sz key arg hr s = Inr (st', a', s3)"
      using f st Some e i s3(1) by (simp add: TableCache_Get_def)
    then show ?thesis using s3(2) UnrefEntry_serves [OF rel c(2) 2(1) sv2 s3(1)] 2(5) by blast
  qed
qed

section \<open>The life of a table cache\<close>

text \<open>
  \<open>NewLRUCache\<close> starts with no entry. Its destructor, which asserts that no handle is held, drops
  every entry it owns, each once.
\<close>

definition cache_life_law ::
  "(int \<Rightarrow> 'w \<Rightarrow> 'c \<times> 'w) \<Rightarrow> ('c \<Rightarrow> 'w \<Rightarrow> (slice \<times> nat) list \<times> 'w) \<Rightarrow> ('w \<Rightarrow> nat set) \<Rightarrow> bool" where
  "cache_life_law NewLRUCache delete_Cache owned \<longleftrightarrow>
     (\<forall>n w c w'. NewLRUCache n w = (c, w') \<longrightarrow> owned w' = {}) \<and>
     (\<forall>c w dropped w'. delete_Cache c w = (dropped, w') \<longrightarrow>
        distinct (map snd dropped) \<and> snd ` set dropped = owned w \<and> owned w' = {})"

text \<open>A sequence of lookups, each with its own callback and callback state.\<close>

fun TableCache_Gets ::
  "bool \<Rightarrow> (status \<Rightarrow> bool) \<Rightarrow> ('f, 'b, 'q, 'w) table_ops \<Rightarrow> ('h, 'f, 'b, 'q, 'a, 'w) cache_ops
   \<Rightarrow> string \<Rightarrow> options \<Rightarrow> read_options \<Rightarrow> (slice \<Rightarrow> slice \<Rightarrow> 'a \<Rightarrow> 'a) \<Rightarrow> (u64 \<times> u64 \<times> slice \<times> 'a) list
   \<Rightarrow> ('f, 'b, 'q, 'w) tables \<Rightarrow> ((status \<times> 'a) list \<times> ('f, 'b, 'q, 'w) tables) outcome" where
  "TableCache_Gets nd ok ops tc dbname opts options hr [] s = Inr ([], s)"
| "TableCache_Gets nd ok ops tc dbname opts options hr ((n, sz, k, arg) # qs) s =
     obind (TableCache_Get nd ok ops tc dbname opts options n sz k arg hr s) (\<lambda>(st, a, s).
     obind (TableCache_Gets nd ok ops tc dbname opts options hr qs s) (\<lambda>(rs, s). Inr ((st, a) # rs, s)))"

lemma TableCache_Gets_answers:
  assumes "table_cache_contract ok tc owned" "keyed_law tc owned cached"
    and "names_law tc cached is_file dbname" and "search_law tc owned cached is_file answer"
    and "reads_keep ops owned" "reads_keep ops cached"
    and "\<And>m n. \<not> ok (Status_Corruption m n)" and "ok Status_OK"
    and "cache_ok (owned (tb_world s)) s" and "serves tc cached is_file s"
  shows "\<exists>rs s'. TableCache_Gets nd ok ops tc dbname opts options hr qs s = Inr (rs, s') \<and>
     cache_ok (owned (tb_world s')) s' \<and> serves tc cached is_file s' \<and>
     list_all2 (\<lambda>(n, sz, k, arg) (st, a). (st, a) = answer n options k hr arg \<or> \<not> ok st \<and> a = arg) qs rs"
  using assms(9,10)
proof (induction qs arbitrary: s)
  case (Cons q qs)
  obtain n sz k arg where q: "q = (n, sz, k, arg)" by (metis prod_cases4)
  obtain st a s1 where 1: "TableCache_Get nd ok ops tc dbname opts options n sz k arg hr s = Inr (st, a, s1)"
    "cache_ok (owned (tb_world s1)) s1" "serves tc cached is_file s1"
    "(st, a) = answer n options k hr arg \<or> \<not> ok st \<and> a = arg"
    using TableCache_Get_answers [OF assms(1-8) Cons.prems] by blast
  from Cons.IH [OF 1(2,3)] obtain rs s2 where
    "TableCache_Gets nd ok ops tc dbname opts options hr qs s1 = Inr (rs, s2)"
    "cache_ok (owned (tb_world s2)) s2" "serves tc cached is_file s2"
    "list_all2 (\<lambda>(n, sz, k, arg) (st, a). (st, a) = answer n options k hr arg \<or> \<not> ok st \<and> a = arg) qs rs"
    by blast
  then show ?case using 1(1,4) by (simp add: q)
qed simp

text \<open>A store with no entries holds no object but blocks and filters nobody can reach.\<close>

lemma cache_ok_empty:
  "cache_ok {} s \<Longrightarrow> hp_live (tb_files s) = {} \<and> hp_live (tb_tables s) = {} \<and> hp_live (tb_entries s) = {}"
  by (auto simp: cache_ok_def)

lemma cache_ok_start:
  assumes "heaps_ok s" and "hp_live (tb_files s) = {}" and "hp_live (tb_tables s) = {}" and "hp_live (tb_entries s) = {}"
  shows "cache_ok {} s"
  using assms by (simp add: cache_ok_def)

lemma delete_TableCache_result:
  assumes law: "cache_life_law NewLRUCache delete_Cache owned" and ok: "cache_ok (owned (tb_world s)) s"
  shows "\<exists>s'. delete_TableCache delete_Cache t s = Inr s' \<and> cache_ok {} s'"
proof -
  obtain dropped w where d: "delete_Cache (tch_cache t) (tb_world s) = (dropped, w)" by fastforce
  have l: "distinct (map snd dropped)" "snd ` set dropped = owned (tb_world s)"
    using law d unfolding cache_life_law_def by blast+
  have "cache_ok (owned (tb_world s)) (s\<lparr>tb_world := w\<rparr>)" using ok by simp
  from drop_entries_ok [OF this l(1)] l(2) show ?thesis by (auto simp: delete_TableCache_def d)
qed


section \<open>An instance\<close>

text \<open>
  A table file is named after its number, and only table 4 has keys. The cache holds one table:
  opening a second closes the first.
\<close>

definition ex_named_tc :: "(nat, string, string, string, 'a, (slice \<times> nat) option) cache_ops" where
  "ex_named_tc = \<lparr>
     tc_Lookup = tc_Lookup ex_tc, tc_Value = tc_Value ex_tc,
     tc_Insert = tc_Insert ex_tc, tc_Release = tc_Release ex_tc,
     tc_NewRandomAccessFile = \<lambda>fname w. (Status_OK, Some fname, w),
     tc_TableFileName = \<lambda>dbname n. dbname @ replicate (unat n) CHR ''x'',
     tc_SSTTableFileName = \<lambda>dbname n. dbname @ replicate (unat n) CHR ''x'',
     tc_EncodeFixed64 = tc_EncodeFixed64 ex_tc,
     tc_InternalGet = \<lambda>options t k f a s.
       (Status_OK,
        if Option.bind (hp_at (tb_tables s) t) (\<lambda>r. Option.bind (rp_file r) (hp_at (tb_files s)))
             = Some ''dbxxxx''
        then f k ''v'' a else a, s)\<rparr>"

definition ex_table_answer ::
  "u64 \<Rightarrow> read_options \<Rightarrow> slice \<Rightarrow> (slice \<Rightarrow> slice \<Rightarrow> 'a \<Rightarrow> 'a) \<Rightarrow> 'a \<Rightarrow> status \<times> 'a" where
  "ex_table_answer n options k f a = (Status_OK, if n = 4 then f k ''v'' a else a)"

definition ex_is_file :: "u64 \<Rightarrow> string \<Rightarrow> bool" where
  "ex_is_file n x \<longleftrightarrow> x = ''db'' @ replicate (unat n) CHR ''x''"

lemma ex_is_file_four: "ex_is_file n x \<Longrightarrow> x = ''dbxxxx'' \<longleftrightarrow> n = 4"
proof -
  have 4: "''xxxx'' = replicate 4 CHR ''x''" by code_simp
  have "replicate (unat n) CHR ''x'' = replicate 4 CHR ''x'' \<longleftrightarrow> unat n = unat (4 :: u64)"
    by (auto simp: replicate_eq_replicate)
  then show "ex_is_file n x \<Longrightarrow> x = ''dbxxxx'' \<longleftrightarrow> n = 4"
    by (simp only: ex_is_file_def word_unat_eq_iff) (simp add: 4)
qed

lemma ex_named_laws:
  "table_cache_contract Status_is_default ex_named_tc ex_owned"
  "keyed_law ex_named_tc ex_owned set_option"
  "names_law ex_named_tc set_option ex_is_file ''db''"
  "search_law ex_named_tc ex_owned set_option ex_is_file ex_table_answer"
proof -
  have inj: "inj (\<lambda>n :: u64. replicate (unat n) CHR ''x'')"
    by (rule injI) (metis length_replicate word_unat_eq_iff)
  show "table_cache_contract Status_is_default ex_named_tc ex_owned"
    by (auto simp: table_cache_contract_def lookup_law_def insert_law_def release_law_def env_law_def
        ex_named_tc_def ex_tc_def ex_owned_def split: option.splits if_splits)
  show "keyed_law ex_named_tc ex_owned set_option"
    using inj by (auto simp: keyed_law_def ex_named_tc_def ex_tc_def ex_owned_def
        split: option.splits if_splits)
  show "names_law ex_named_tc set_option ex_is_file ''db''"
    using inj by (auto simp: names_law_def ex_named_tc_def ex_is_file_def dest: injD)
  show "search_law ex_named_tc ex_owned set_option ex_is_file ex_table_answer"
    by (auto simp: search_law_def ex_named_tc_def ex_table_answer_def dest: ex_is_file_four)
qed


lemma ex_named_reads: "reads_keep ex_table_ops (set_option :: (slice \<times> nat) option \<Rightarrow> _)"
  by (simp add: reads_keep_def ex_table_ops_def)

lemma ex_named_start: "serves ex_named_tc set_option ex_is_file ex_no_tables"
  by (simp add: serves_def ex_no_tables_def)


end
