(* ===== verification/VersionTables.thy ===== *)
theory VersionTables
  imports VersionGet TableCacheReads
begin

text \<open>
  \<open>Version::Get\<close> on top of \<open>TableCache::Get\<close>: line 52 of \<open>db/version_set.cc\<close> calls the table cache
  of the version set with the saver and the callback \<open>SaveValue\<close> (not in the repository, a
  parameter), and the world of the lookup are the objects of the table layer.
\<close>

section \<open>The composition\<close>

definition cached_table_get ::
  "bool \<Rightarrow> (status \<Rightarrow> bool) \<Rightarrow> ('f, 'b, 'q, 'w) table_ops \<Rightarrow> ('h, 'f, 'b, 'q, saver, 'w) cache_ops
   \<Rightarrow> string \<Rightarrow> options \<Rightarrow> read_options \<Rightarrow> (slice \<Rightarrow> slice \<Rightarrow> saver \<Rightarrow> saver)
   \<Rightarrow> ('f, 'b, 'q, 'w) tables table_get" where
  "cached_table_get nd ok ops tc dbname opts options SaveValue number sz ikey sv s =
     TableCache_Get nd ok ops tc dbname opts options number sz ikey sv SaveValue s"

text \<open>A search that does not find the key leaves the saver as it was; none changes the user key.\<close>

definition saves :: "slice \<Rightarrow> string \<Rightarrow> (u64 \<Rightarrow> status \<times> saver) \<Rightarrow> bool" where
  "saves user_key value r \<longleftrightarrow>
     (\<forall>n. sv_user_key (snd (r n)) = user_key \<and>
        (sv_state (snd (r n)) = Saver_kNotFound \<longrightarrow> sv_value (snd (r n)) = value))"

definition searched ::
  "(u64 \<Rightarrow> read_options \<Rightarrow> slice \<Rightarrow> (slice \<Rightarrow> slice \<Rightarrow> saver \<Rightarrow> saver) \<Rightarrow> saver \<Rightarrow> status \<times> saver)
   \<Rightarrow> read_options \<Rightarrow> (slice \<Rightarrow> slice \<Rightarrow> saver \<Rightarrow> saver) \<Rightarrow> slice \<Rightarrow> slice \<Rightarrow> string \<Rightarrow> u64 \<Rightarrow> status \<times> saver" where
  "searched answer options SaveValue user_key ikey value n =
     answer n options ikey SaveValue
       \<lparr>sv_state = Saver_kNotFound, sv_user_key = user_key, sv_value = value\<rparr>"

lemma cached_table_get_reads:
  assumes c: "table_cache_contract ok tc owned" "keyed_law tc owned cached"
    and names: "names_law tc cached is_file dbname"
    and search: "search_law tc owned cached is_file answer"
    and k: "reads_keep ops owned" "reads_keep ops cached"
    and corrupt: "\<And>m n. \<not> ok (Status_Corruption m n)" and okd: "ok Status_OK"
    and sv: "saves user_key value (searched answer options SaveValue user_key ikey value)"
  shows "reads_table ok True (\<lambda>s. cache_ok (owned (tb_world s)) s \<and> serves tc cached is_file s)
    (cached_table_get nd ok ops tc dbname opts options SaveValue) user_key ikey value
    (searched answer options SaveValue user_key ikey value)"
proof -
  note get = TableCache_Get_answers [OF c names search k corrupt okd]
  show ?thesis
    using sv get unfolding reads_table_def saves_def cached_table_get_def searched_def by simp
qed

lemma gave_either:
  "gave ok True value ans got \<Longrightarrow>
   first_answer snd value got = first_answer ans value (map fst got) \<or>
   (\<exists>s. \<not> ok s \<and> first_answer snd value got = (s, value))"
proof (induction got)
  case (Cons p got)
  obtain f a where p: "p = (f, a)" by (cases p)
  have "answers_with ok True value (ans f) a" "gave ok True value ans got"
    using Cons.prems by (simp_all add: gave_def p)
  then show ?case using Cons.IH by (cases "ans f"; cases a) (auto simp: answers_with_def p)
qed simp

section \<open>Get over the tables\<close>

lemma Version_Get_through_tables_result:
  assumes "table_cache_contract ok tc owned" and "keyed_law tc owned cached"
    and "names_law tc cached is_file dbname" and "search_law tc owned cached is_file answer"
    and "reads_keep ops owned" and "reads_keep ops cached"
    and "\<And>m n. \<not> ok (Status_Corruption m n)" and "ok Status_OK"
    and "saves user_key value (searched answer options SaveValue user_key internal_key value)"
    and "visits ForEachOverlapping user_key internal_key files"
    and "\<forall>p \<in> set files. live fs (snd p)"
    and "cache_ok (owned (tb_world s)) s" and "serves tc cached is_file s"
  shows "\<exists>st v stats s'.
    Version_Get ok (cached_table_get nd ok ops tc dbname opts options SaveValue) ForEachOverlapping
      fs user_key internal_key value s = Inr (st, v, stats, s') \<and>
    cache_ok (owned (tb_world s')) s' \<and> serves tc cached is_file s' \<and>
    ((st, v) = first_answer
       (table_answer ok user_key value (searched answer options SaveValue user_key internal_key value) fs)
       value files \<or>
     \<not> ok st \<and> v = value)"
proof -
  note reads = cached_table_get_reads [OF assms(1-9), of nd opts]
  have inv: "cache_ok (owned (tb_world s)) s \<and> serves tc cached is_file s" using assms(12,13) ..
  let ?ans = "table_answer ok user_key value (searched answer options SaveValue user_key internal_key value) fs"
  from Version_Get_result [OF reads assms(10,11), of s, OF inv] obtain got s' stats where
    g: "map fst got = files" "gave ok True value ?ans got"
      "cache_ok (owned (tb_world s')) s' \<and> serves tc cached is_file s'"
    and "Version_Get ok (cached_table_get nd ok ops tc dbname opts options SaveValue)
      ForEachOverlapping fs user_key internal_key value s =
      Inr (fst (first_answer snd value got), snd (first_answer snd value got), stats, s')" by blast
  moreover have "first_answer snd value got = first_answer ?ans value files \<or>
      \<not> ok (fst (first_answer snd value got)) \<and> snd (first_answer snd value got) = value"
    using gave_either [OF g(2)] g(1) by auto
  ultimately show ?thesis by (metis prod.collapse)
qed


text \<open>Two files of level 0, on the cache of \<open>TableCacheReads\<close>; only table 4 has the key.\<close>

definition ex_SaveValue :: "slice \<Rightarrow> slice \<Rightarrow> saver \<Rightarrow> saver" where
  "ex_SaveValue k v sv = sv\<lparr>sv_state := Saver_kFound, sv_value := v\<rparr>"


end
