(* ===== verification/DbTables.thy ===== *)
theory DbTables
  imports DbProps VersionTables
begin

text \<open>
  \<open>DBImpl::Get\<close> down to the table files: the memtables, then \<open>Version::Get\<close> over
  \<open>TableCache::Get\<close>. The world of the database are the objects of the table layer.
\<close>

section \<open>The reference\<close>

text \<open>\<open>MemTable::Get\<close> writes the value and the status only when it finds the key.\<close>

definition mem_get_law :: "('d, 'm, 'k, 'w) read_ops \<Rightarrow> bool" where
  "mem_get_law rd \<longleftrightarrow> (\<forall>m k v st.
     \<not> fst (rd_mem_Get rd m k v st) \<longrightarrow> rd_mem_Get rd m k v st = (False, v, st))"

definition mems :: "'m \<Rightarrow> 'm option \<Rightarrow> 'm list" where
  "mems m im = m # (case im of None \<Rightarrow> [] | Some t \<Rightarrow> [t])"

text \<open>The answer of the newest table that has one: the memtables in order, then the files.\<close>

definition newest ::
  "('m \<Rightarrow> bool \<times> string \<times> status) \<Rightarrow> ('f \<Rightarrow> answer) \<Rightarrow> 'm list \<Rightarrow> 'f list \<Rightarrow> string \<Rightarrow> status \<times> string" where
  "newest mem_get ans ms files value =
     (case find (\<lambda>m. fst (mem_get m)) ms of
        Some m \<Rightarrow> (snd (snd (mem_get m)), fst (snd (mem_get m)))
      | None \<Rightarrow> first_answer ans value files)"

lemma Get_answer_newest:
  assumes law: "mem_get_law rd" and w: "P (db_world s)"
    and files: "\<exists>st v stats w'. Version_Get ok (rd_table_get rd)
        (rd_ForEachOverlapping rd (v_files ver) (vs_files (db_versions s))) (vs_files (db_versions s))
        (rd_user_key rd k) (rd_internal_key rd k) value (db_world s) = Inr (st, v, stats, w') \<and>
      P w' \<and> ((st, v) = first_answer ans value files \<or> \<not> ok st \<and> v = value)"
  shows "\<exists>st v w'. Get_answer ok rd m im ver k value s = Inr (st, v, w') \<and> P w' \<and>
    ((st, v) = newest (\<lambda>m. rd_mem_Get rd m k value Status_default) ans (mems m im) files value \<or>
     \<not> ok st \<and> v = value \<and> (\<forall>t \<in> set (mems m im). \<not> fst (rd_mem_Get rd t k value Status_default)))"
proof -
  let ?get = "\<lambda>m. rd_mem_Get rd m k value Status_default"
  have miss: "?get t = (False, value, Status_default)" if "\<not> fst (?get t)" for t
    using law that by (simp add: mem_get_law_def)
  show ?thesis
  proof (cases "find (\<lambda>m. fst (?get m)) (mems m im)")
    case None
    then have none: "?get t = (False, value, Status_default)" if "t \<in> set (mems m im)" for t
      using that miss by (auto simp: find_None_iff)
    then have m: "?get m = (False, value, Status_default)"
      and im: "\<And>t. im = Some t \<Longrightarrow> ?get t = (False, value, Status_default)"
      by (auto simp: mems_def)
    have n: "newest ?get ans (mems m im) files value = first_answer ans value files"
      using None by (simp add: newest_def)
    obtain st v stats w' where
      v: "Version_Get ok (rd_table_get rd)
        (rd_ForEachOverlapping rd (v_files ver) (vs_files (db_versions s))) (vs_files (db_versions s))
        (rd_user_key rd k) (rd_internal_key rd k) value (db_world s) = Inr (st, v, stats, w')"
      and r: "P w'" "(st, v) = first_answer ans value files \<or> \<not> ok st \<and> v = value"
      using files by blast
    have "Get_answer ok rd m im ver k value s = Inr (st, v, w')"
      using m im v by (cases im) (simp_all add: Get_answer_def Let_def)
    moreover have "\<forall>t \<in> set (mems m im). \<not> fst (?get t)" using none by simp
    ultimately show ?thesis using r n by metis
  next
    case (Some t)
    have "Get_answer ok rd m im ver k value s = Inr (snd (snd (?get t)), fst (snd (?get t)), db_world s)"
    proof (cases "fst (?get m)")
      case True
      with Some show ?thesis by (auto simp: mems_def Get_answer_def Let_def split: prod.splits)
    next
      case False
      with Some obtain y where "im = Some y" "t = y" "fst (?get y)"
        by (auto simp: mems_def split: option.splits if_splits)
      with miss [OF False] show ?thesis by (auto simp: Get_answer_def Let_def split: prod.splits)
    qed
    then show ?thesis using Some w by (simp add: newest_def)
  qed
qed

section \<open>Get from memtables to table files\<close>


section \<open>An instance\<close>

text \<open>
  A memtable with \<open>''a''\<close>, no immutable one, and a version with the files 7 and 4 on level 0, of which
  only table 4 has \<open>''k''\<close>, on the cache of \<open>TableCacheReads\<close>.
\<close>

type_synonym ex_layer = "(string, string, string, (slice \<times> nat) option) tables"

definition ex_walk :: "nat list list \<Rightarrow> fstore \<Rightarrow> 's for_each" where
  "ex_walk files fs uk ik func =
     visit func (concat (map (\<lambda>(l, ps). map (Pair (int l)) ps) (enumerate 0 files)))"

definition ex_tables_read :: "(int, entries, slice, ex_layer) read_ops" where
  "ex_tables_read = \<lparr>rd_LookupKey = (\<lambda>k n. k), rd_user_key = (\<lambda>k. k), rd_internal_key = (\<lambda>k. k),
      rd_mem_Get = rd_mem_Get ex_read,
      rd_table_get = cached_table_get False Status_is_default ex_table_ops ex_named_tc ''db'' ex_options
        (to_ReadOptions ex_table_ops) ex_SaveValue,
      rd_ForEachOverlapping = ex_walk, rd_UpdateStats = (\<lambda>c g s. (False, s))\<rparr>"

definition ex_tables_version :: "int version" where
  "ex_tables_version = (Version 1 (-1) 1)\<lparr>v_refs := 1, v_files := [[0, 1]]\<rparr>"

definition ex_tables_db :: "(int, entries, ex_layer) db" where
  "ex_tables_db = \<lparr>db_versions = ex_vset\<lparr>vs_files := ex_files,
        vs_versions := (\<lambda>a. if a = 1 then Some ex_tables_version else None)\<rparr>,
      db_memtables = (\<lambda>a. if a = 0 then Some \<lparr>mt_refs = 1, mt_table = [(''a'', ''1'')]\<rparr> else None),
      db_next_mem = 2, db_mem = Some 0, db_imm = None, db_has_imm = False,
      db_logfile = None, db_logfile_number = 3, db_log = None, db_writers = [],
      db_writer = (\<lambda>w. None), db_signalled = {}, db_batches = (\<lambda>b. None), db_tmp_batch = 0,
      db_pending_outputs = {}, db_background_compaction_scheduled = False,
      db_bg_error = Status_default, db_shutting_down = False, db_manual_compaction = False,
      db_world = ex_no_tables\<rparr>"

definition ex_tables_ops :: "(int, entries, entries, ex_layer) db_ops" where
  "ex_tables_ops = \<lparr>op_vs = \<lparr>vo_Ref = ex_Ref, vo_Unref = ex_Unref, vo_delete_version = (\<lambda>a vs. Inr vs),
        vo_NewWritableFile = (\<lambda>name w. (Status_default, None, w)), vo_delete_file = (\<lambda>f w. w),
        vo_AddRecord = (\<lambda>log r w. (Status_default, w)), vo_Sync = (\<lambda>f w. (Status_default, w)),
        vo_WriteStringToFileSync = (\<lambda>data name w. (Status_default, w)),
        vo_RenameFile = (\<lambda>old new w. (Status_default, w)), vo_RemoveFile = (\<lambda>name w. (Status_default, w)),
        vo_Unlock = (\<lambda>s. s), vo_Lock = (\<lambda>s. s)\<rparr>,
      op_doubles = ex_doubles,
      op_bt = \<lparr>bt_SeekToFirst = (\<lambda>i. i), bt_Valid = (\<lambda>i. i \<noteq> []), bt_Next = tl,
        bt_key = (\<lambda>i. fst (hd i)), bt_value = (\<lambda>i. snd (hd i)), bt_iter_status = (\<lambda>i. Status_default),
        bt_TableFileName = (\<lambda>db n. db), bt_NewWritableFile = (\<lambda>name w. (Status_default, None, w)),
        bt_NewTableBuilder = (\<lambda>fl w. w), bt_Add = (\<lambda>k v w. w), bt_Finish = (\<lambda>w. (Status_default, w)),
        bt_Sync = (\<lambda>fl w. (Status_default, w)), bt_Close = (\<lambda>fl w. (Status_default, w)),
        bt_delete_file = (\<lambda>fl w. w), bt_NewIterator_status = (\<lambda>n sz w. (Status_default, w)),
        bt_RemoveFile = (\<lambda>name w. (Status_default, w))\<rparr>,
      op_icmp = ikey_bytes_compare, op_comparator_name = ''cmp'', op_dbname = ''db'', op_kNumLevels = 1,
      op_ExtractUserKey = (\<lambda>k. k), op_PickLevelForMemtableOutput = (\<lambda>vs v a b. 0),
      op_NewMemIterator = (\<lambda>m. m), op_empty_table = [], op_NowMicros = (\<lambda>w. (0, w)),
      op_AddStats = (\<lambda>l t n w. w), op_Unlock = (\<lambda>s. s), op_Lock = (\<lambda>s. s), op_Sleep = (\<lambda>s. s),
      op_WaitBackground = (\<lambda>s. s), op_Schedule = (\<lambda>w. w), op_SignalAll = (\<lambda>w. w),
      op_NeedsCompaction = (\<lambda>vs. False), op_NumLevelFile = (\<lambda>vs l. 0),
      op_kL0_SlowdownWritesTrigger = 8, op_kL0_StopWritesTrigger = 12,
      op_ApproximateMemoryUsage = length, op_write_buffer_size = 4,
      op_PrevLogNumber = vs_prev_log_number, op_ReuseFileNumber = (\<lambda>n vs. vs),
      op_delete_log = (\<lambda>l w. w), op_RecordBackgroundError = (\<lambda>st s. s\<lparr>db_bg_error := st\<rparr>),
      op_RemoveObsoleteFiles = (\<lambda>s. s), op_others = (\<lambda>s. s)\<rparr>"


end
