(* ===== verification/WriteOrder.thy ===== *)
theory WriteOrder
  imports DbExample "HOL-Library.Sublist"
begin

text \<open>
  What concurrent writers commit. \<open>WriteQueue\<close> leaves the work of a writer open; here it is the code
  of \<open>DBImpl::Write\<close>, in the pieces between which the mutex is released, so that other threads
  enter the queue, wait and wake up while a writer is at the log. \<open>cs_log\<close> records what was logged.
\<close>

section \<open>The pieces of a commit\<close>

text \<open>Lines 341-343: the batch, stamped, and the last sequence number after it.\<close>

definition Write_begin ::
  "('d, 'm, 'w) batch_ops \<Rightarrow> ('d, 'm, 'w) db \<Rightarrow> (nat \<times> string \<times> u64 \<times> ('d, 'm, 'w) db) outcome" where
  "Write_begin ba s =
     obind (ba_BuildBatchGroup ba (vs_last_sequence (db_versions s)) s) (\<lambda>(write_batch, last_sequence, s).
     obind (deref_batch s write_batch) (\<lambda>rep.
       let rep = ba_SetSequence ba rep (last_sequence + 1)
       in Inr (write_batch, rep, last_sequence + of_int (ba_Count ba rep),
               s\<lparr>db_batches := (db_batches s)(write_batch \<mapsto> rep)\<rparr>)))"

text \<open>Lines 362-364.\<close>

definition Write_end ::
  "('d, 'm, 'w) batch_ops \<Rightarrow> nat \<Rightarrow> string \<Rightarrow> u64 \<Rightarrow> ('d, 'm, 'w) db \<Rightarrow> ('d, 'm, 'w) db" where
  "Write_end ba write_batch rep last_sequence s =
     (let s = (if write_batch = db_tmp_batch s
               then s\<lparr>db_batches := (db_batches s)(write_batch \<mapsto>
                      ba_Clear ba (case db_batches s write_batch of None \<Rightarrow> rep | Some r \<Rightarrow> r))\<rparr>
               else s)
      in s\<lparr>db_versions := (db_versions s)\<lparr>vs_last_sequence := last_sequence\<rparr>\<rparr>)"

lemma Write_commit_pieces:
  "Write_commit ok ops ba sync updates st s =
     (if ok st \<and> updates \<noteq> None then
        obind (Write_begin ba s) (\<lambda>(write_batch, rep, last_sequence, s).
        obind (Write_log ok ops ba sync rep s) (\<lambda>(st, s).
          Inr (st, Write_end ba write_batch rep last_sequence s)))
      else Inr (st, s))"
  by (simp add: Write_commit_def Write_begin_def Write_end_def Let_def split_def obind_assoc cong: if_cong option.case_cong)

section \<open>The system\<close>

text \<open>How far a working writer is: what its local variables hold.\<close>

datatype stage = Before | Logging nat string u64 | Logged nat string u64 status | Done status

record ('d, 'm, 'w) csys =
  cs_ws :: "('d, 'm, 'w) wsys"
  cs_stage :: "nat \<Rightarrow> stage"
  cs_log :: "(nat \<times> string \<times> bool) list"

abbreviation cs_db :: "('d, 'm, 'w) csys \<Rightarrow> ('d, 'm, 'w) db" where
  "cs_db s \<equiv> ws_db (cs_ws s)"

abbreviation cs_last :: "('d, 'm, 'w) csys \<Rightarrow> u64" where
  "cs_last s \<equiv> vs_last_sequence (db_versions (cs_db s))"

definition only_queue :: "('d, 'm, 'w) db \<Rightarrow> ('d, 'm, 'w) db \<Rightarrow> bool" where
  "only_queue s s' \<longleftrightarrow>
     s' = s\<lparr>db_writers := db_writers s', db_writer := db_writer s', db_signalled := db_signalled s'\<rparr>"

text \<open>
  \<open>queue\<close>: another thread enters the queue, tests the condition, sleeps, wakes up or begins to
  work. The other steps are those of the writer at work; \<open>MakeRoomForWrite\<close> has returned at once.
\<close>

inductive cstep ::
  "(status \<Rightarrow> bool) \<Rightarrow> ('d, 'm, 'i, 'w) db_ops \<Rightarrow> ('d, 'm, 'w) batch_ops \<Rightarrow> ('d, 'm, 'w) csys
   \<Rightarrow> ('d, 'm, 'w) csys \<Rightarrow> bool" for ok ops ba where
  queue: "wstep (cs_ws s) q \<Longrightarrow> only_queue (cs_db s) (ws_db q) \<Longrightarrow> ws_left q = ws_left (cs_ws s) \<Longrightarrow>
    \<forall>w. ws_phase (cs_ws s) w = Working \<longrightarrow> ws_phase q w = Working \<Longrightarrow>
    cstep ok ops ba s (s\<lparr>cs_ws := q\<rparr>)"
| group: "ws_phase (cs_ws s) w = Working \<Longrightarrow> cs_stage s w = Before \<Longrightarrow>
    deref_writer (cs_db s) w = Inr x \<Longrightarrow>
    MakeRoomForWrite ok ops (wr_batch x = None) (cs_db s) = Some (Inr (st, cs_db s)) \<Longrightarrow>
    ok st \<Longrightarrow> wr_batch x \<noteq> None \<Longrightarrow> Write_begin ba (cs_db s) = Inr (wb, rep, n, db') \<Longrightarrow>
    cstep ok ops ba s (s\<lparr>cs_ws := (cs_ws s)\<lparr>ws_db := db'\<rparr>, cs_stage := (cs_stage s)(w := Logging wb rep n)\<rparr>)"
| skip: "ws_phase (cs_ws s) w = Working \<Longrightarrow> cs_stage s w = Before \<Longrightarrow>
    deref_writer (cs_db s) w = Inr x \<Longrightarrow>
    MakeRoomForWrite ok ops (wr_batch x = None) (cs_db s) = Some (Inr (st, cs_db s)) \<Longrightarrow>
    \<not> (ok st \<and> wr_batch x \<noteq> None) \<Longrightarrow> cstep ok ops ba s (s\<lparr>cs_stage := (cs_stage s)(w := Done st)\<rparr>)"
| log: "cs_stage s w = Logging wb rep n \<Longrightarrow> deref_writer (cs_db s) w = Inr x \<Longrightarrow>
    Write_log ok ops ba (wr_sync x) rep (cs_db s) = Inr (st, db') \<Longrightarrow>
    cstep ok ops ba s (s\<lparr>cs_ws := (cs_ws s)\<lparr>ws_db := db'\<rparr>, cs_stage := (cs_stage s)(w := Logged wb rep n st),
      cs_log := cs_log s @ [(w, rep, ok (fst (vo_AddRecord (op_vs ops) (the (db_log (cs_db s))) (Contents rep)
        (db_world (cs_db s)))))]\<rparr>)"
| advance: "cs_stage s w = Logged wb rep n st \<Longrightarrow>
    cstep ok ops ba s (s\<lparr>cs_ws := (cs_ws s)\<lparr>ws_db := Write_end ba wb rep n (cs_db s)\<rparr>,
      cs_stage := (cs_stage s)(w := Done st)\<rparr>)"
| leave: "cs_stage s w = Done st \<Longrightarrow> Write_leave w w st (cs_db s) = Inr db' \<Longrightarrow>
    cstep ok ops ba s (s\<lparr>cs_ws := (cs_ws s)\<lparr>ws_db := db'\<lparr>db_signalled := {}\<rparr>,
        ws_phase := deliver (db_signalled db') ((ws_phase (cs_ws s))(w := Returned st)),
        ws_left := ws_left (cs_ws s) @ [w]\<rparr>,
      cs_stage := (cs_stage s)(w := Before)\<rparr>)"

definition cinit :: "('d, 'm, 'w) csys \<Rightarrow> bool" where
  "cinit s \<longleftrightarrow> winit (cs_ws s) \<and> (\<forall>w. cs_stage s w = Before) \<and> cs_log s = []"

inductive creach_from ::
  "(status \<Rightarrow> bool) \<Rightarrow> ('d, 'm, 'i, 'w) db_ops \<Rightarrow> ('d, 'm, 'w) batch_ops \<Rightarrow> ('d, 'm, 'w) csys
   \<Rightarrow> ('d, 'm, 'w) csys \<Rightarrow> bool" for ok ops ba s0 where
  init: "cinit s0 \<Longrightarrow> creach_from ok ops ba s0 s0"
| step: "creach_from ok ops ba s0 s \<Longrightarrow> cstep ok ops ba s s' \<Longrightarrow> creach_from ok ops ba s0 s'"

section \<open>What is logged\<close>

text \<open>
  The contracts: \<open>AddRecord\<close> appends its record to the log when its status counts as ok, and nothing
  when not; \<open>Sync\<close> leaves the contents; \<open>RecordBackgroundError\<close> sets the error;
  \<open>BuildBatchGroup\<close> only writes batches and leaves the sequence number it is given alone. The
  mutex functions do nothing, since other threads have steps of their own.
\<close>

definition log_laws ::
  "(status \<Rightarrow> bool) \<Rightarrow> ('d, 'm, 'i, 'w) db_ops \<Rightarrow> ('d, 'm, 'w) batch_ops \<Rightarrow> ('w \<Rightarrow> string list) \<Rightarrow> bool" where
  "log_laws ok ops ba log_of \<longleftrightarrow>
     op_Unlock ops = (\<lambda>t. t) \<and> op_Lock ops = (\<lambda>t. t) \<and>
     (\<forall>st t. \<exists>e. op_RecordBackgroundError ops st t = t\<lparr>db_bg_error := e\<rparr>) \<and>
     (\<forall>n t b n' t'. ba_BuildBatchGroup ba n t = Inr (b, n', t') \<longrightarrow> n' = n \<and> (\<exists>bs. t' = t\<lparr>db_batches := bs\<rparr>)) \<and>
     (\<forall>l r w. log_of (snd (vo_AddRecord (op_vs ops) l r w)) =
        log_of w @ (if ok (fst (vo_AddRecord (op_vs ops) l r w)) then [r] else [])) \<and>
     (\<forall>f w. log_of (snd (vo_Sync (op_vs ops) f w)) = log_of w)"

text \<open>Batches numbered one after the other, and the number after them.\<close>

definition seq_after :: "('d, 'm, 'w) batch_ops \<Rightarrow> u64 \<Rightarrow> (nat \<times> string \<times> bool) list \<Rightarrow> u64" where
  "seq_after ba n es = foldl (\<lambda>n (w, rep, b). n + of_int (ba_Count ba rep)) n es"

fun numbered :: "('d, 'm, 'w) batch_ops \<Rightarrow> u64 \<Rightarrow> (nat \<times> string \<times> bool) list \<Rightarrow> bool" where
  "numbered ba n [] = True"
| "numbered ba n ((w, rep, b) # es) =
     ((\<exists>raw. rep = ba_SetSequence ba raw (n + 1)) \<and> numbered ba (n + of_int (ba_Count ba rep)) es)"

lemma seq_after_simps [simp]:
  "seq_after ba n [] = n"
  "seq_after ba n (es @ [(w, rep, b)]) = seq_after ba n es + of_int (ba_Count ba rep)"
  by (simp_all add: seq_after_def)

lemma numbered_append:
  "numbered ba n (es @ [(w, rep, b)]) \<longleftrightarrow>
     numbered ba n es \<and> (\<exists>raw. rep = ba_SetSequence ba raw (seq_after ba n es + 1))"
  by (induction ba n es rule: numbered.induct) (simp_all add: seq_after_def)

definition written :: "(nat \<times> string \<times> bool) list \<Rightarrow> string list" where
  "written es = map (\<lambda>e. fst (snd e)) (filter (\<lambda>e. snd (snd e)) es)"

lemma written_simps [simp]:
  "written [] = []" "written (es @ [(w, rep, b)]) = written es @ (if b then [rep] else [])"
  by (simp_all add: written_def)

section \<open>What the pieces do\<close>

lemma Write_begin_effect:
  assumes "log_laws ok ops ba log_of" and "Write_begin ba s = Inr (wb, rep, n, s')"
  shows "\<exists>bs. s' = s\<lparr>db_batches := bs\<rparr>"
    and "\<exists>raw. rep = ba_SetSequence ba raw (vs_last_sequence (db_versions s) + 1)"
    and "n = vs_last_sequence (db_versions s) + of_int (ba_Count ba rep)"
proof -
  let ?n = "vs_last_sequence (db_versions s)"
  obtain m t raw where g: "ba_BuildBatchGroup ba ?n s = Inr (wb, m, t)"
    and r: "rep = ba_SetSequence ba raw (m + 1)" "n = m + of_int (ba_Count ba rep)"
      "s' = t\<lparr>db_batches := (db_batches t)(wb \<mapsto> rep)\<rparr>"
    using assms(2) by (auto simp: Write_begin_def obind_eq_Inr Let_def)
  have "m = ?n \<and> (\<exists>bs. t = s\<lparr>db_batches := bs\<rparr>)" using assms(1) g unfolding log_laws_def by blast
  then show "\<exists>bs. s' = s\<lparr>db_batches := bs\<rparr>" "\<exists>raw. rep = ba_SetSequence ba raw (?n + 1)"
    "n = ?n + of_int (ba_Count ba rep)"
    using r by auto
qed

lemma Write_log_effect:
  assumes laws: "log_laws ok ops ba log_of" and run: "Write_log ok ops ba sync rep s = Inr (st, s')"
  shows "same_queue s s'" and "db_versions s' = db_versions s"
    and "log_of (db_world s') = log_of (db_world s) @
      (if ok (fst (vo_AddRecord (op_vs ops) (the (db_log s)) (Contents rep) (db_world s))) then [rep] else [])"
proof -
  have lock: "op_Unlock ops = (\<lambda>t. t)" "op_Lock ops = (\<lambda>t. t)" using laws by (simp_all add: log_laws_def)
  obtain l where l: "db_log s = Some l"
    using run lock by (cases "db_log s") (auto simp: Write_log_def nonnull_def)
  obtain st0 w where add: "vo_AddRecord (op_vs ops) l (Contents rep) (db_world s) = (st0, w)"
    by (cases "vo_AddRecord (op_vs ops) l (Contents rep) (db_world s)")
  obtain e st1 s1 st2 s2 where sync: "Write_sync ok ops sync st0 (s\<lparr>db_world := w\<rparr>) = Inr (e, st1, s1)"
    and ins: "Write_insert ok ba rep st1 s1 = Inr (st2, s2)"
    and s': "s' = (if e then op_RecordBackgroundError ops st2 s2 else s2)"
    using run by (force simp: Write_log_def lock l add nonnull_def Let_def obind_eq_Inr)
  obtain w1 where s1: "s1 = s\<lparr>db_world := w1\<rparr>" "log_of w1 = log_of w"
  proof -
    obtain f where "s1 = s\<lparr>db_world := w\<rparr> \<or> s1 = s\<lparr>db_world := snd (vo_Sync (op_vs ops) f w)\<rparr>"
      using sync by (auto simp: Write_sync_def obind_eq_Inr Let_def case_prod_beta split: if_splits)
    then show thesis using that laws unfolding log_laws_def by blast
  qed
  obtain ms where s2: "s2 = s1\<lparr>db_memtables := ms\<rparr>"
    using ins by (cases s1) (auto simp: Write_insert_def obind_eq_Inr Let_def case_prod_beta split: if_splits)
  have "\<exists>e. s' = s2\<lparr>db_bg_error := e\<rparr>"
    using laws s' unfolding log_laws_def by (cases e) (auto intro: exI [of _ "db_bg_error s2"])
  then obtain er where s'': "s' = s\<lparr>db_world := w1, db_memtables := ms, db_bg_error := er\<rparr>" using s1 s2 by auto
  have "log_of w = log_of (db_world s) @ (if ok st0 then [Contents rep] else [])"
    using laws add unfolding log_laws_def by (metis fst_conv snd_conv)
  then show "same_queue s s'" "db_versions s' = db_versions s"
    "log_of (db_world s') = log_of (db_world s) @
      (if ok (fst (vo_AddRecord (op_vs ops) (the (db_log s)) (Contents rep) (db_world s))) then [rep] else [])"
    using s1(2) by (simp_all add: s'' same_queue_def l add [unfolded Contents_def] Contents_def)
qed

lemma Write_end_effect [simp]:
  "same_queue s (Write_end ba wb rep n s)" "db_world (Write_end ba wb rep n s) = db_world s"
  "vs_last_sequence (db_versions (Write_end ba wb rep n s)) = n"
  by (simp_all add: Write_end_def same_queue_def Let_def)

section \<open>The invariant\<close>

text \<open>What holds of the writer at work, by its stage; \<open>left\<close> are the writers that have left.\<close>

fun stage_inv ::
  "('d, 'm, 'w) batch_ops \<Rightarrow> u64 \<Rightarrow> u64 \<Rightarrow> (nat \<times> string \<times> bool) list \<Rightarrow> nat list \<Rightarrow> nat \<Rightarrow> stage \<Rightarrow> bool" where
  "stage_inv ba n0 last_seq log left w Before = (last_seq = seq_after ba n0 log \<and> subseq (map fst log) left)"
| "stage_inv ba n0 last_seq log left w (Logging wb rep n) =
     (last_seq = seq_after ba n0 log \<and> subseq (map fst log) left \<and>
      (\<exists>raw. rep = ba_SetSequence ba raw (last_seq + 1)) \<and> n = last_seq + of_int (ba_Count ba rep))"
| "stage_inv ba n0 last_seq log left w (Logged wb rep n st) =
     (n = seq_after ba n0 log \<and> subseq (map fst log) (left @ [w]))"
| "stage_inv ba n0 last_seq log left w (Done st) =
     (last_seq = seq_after ba n0 log \<and> subseq (map fst log) (left @ [w]))"

definition at_work :: "nat \<Rightarrow> stage \<Rightarrow> nat \<Rightarrow> stage" where
  "at_work w sg = (\<lambda>_. Before)(w := sg)"

definition cinv ::
  "('d, 'm, 'w) batch_ops \<Rightarrow> ('w \<Rightarrow> string list) \<Rightarrow> u64 \<Rightarrow> string list \<Rightarrow> ('d, 'm, 'w) csys \<Rightarrow> bool" where
  "cinv ba log_of n0 l0 s \<longleftrightarrow> winv (cs_ws s) \<and> numbered ba n0 (cs_log s) \<and>
     log_of (db_world (cs_db s)) = l0 @ written (cs_log s) \<and>
     (\<exists>w sg. cs_stage s = at_work w sg \<and> (sg \<noteq> Before \<longrightarrow> ws_phase (cs_ws s) w = Working) \<and>
        stage_inv ba n0 (cs_last s) (cs_log s) (ws_left (cs_ws s)) w sg)"

lemma working_unique: "winv s \<Longrightarrow> ws_phase s v = Working \<Longrightarrow> ws_phase s w = Working \<Longrightarrow> v = w"
  unfolding winv_def by (metis list.inject)

lemma at_work_simps [simp]:
  "at_work w sg w = sg" "(at_work w sg)(w := sg') = at_work w sg'" "(at_work v Before)(w := sg') = at_work w sg'"
  by (auto simp: at_work_def)

lemma cinv_stage:
  assumes "cinv ba log_of n0 l0 s" and "ws_phase (cs_ws s) w = Working \<or> cs_stage s w \<noteq> Before"
  obtains "cs_stage s = at_work w (cs_stage s w)" and "ws_phase (cs_ws s) w = Working"
    and "stage_inv ba n0 (cs_last s) (cs_log s) (ws_left (cs_ws s)) w (cs_stage s w)"
proof -
  obtain v sg where v: "cs_stage s = at_work v sg" "sg \<noteq> Before \<longrightarrow> ws_phase (cs_ws s) v = Working"
    "stage_inv ba n0 (cs_last s) (cs_log s) (ws_left (cs_ws s)) v sg" and inv: "winv (cs_ws s)"
    using assms(1) by (auto simp: cinv_def)
  show thesis
  proof (cases "sg = Before")
    case True
    then have "cs_stage s = at_work w Before" "cs_stage s w = Before"
      using v(1) by (simp_all add: at_work_def fun_eq_iff)
    then show thesis using that v(3) True assms(2) by simp
  next
    case False
    then have "v = w"
      using v(1,2) assms(2) working_unique [OF inv] by (auto simp: at_work_def split: if_splits)
    then show thesis using that v False by simp
  qed
qed

text \<open>The writer at work changes the database and not the queue.\<close>

lemma cinv_work:
  assumes inv: "cinv ba log_of n0 l0 s" and w: "ws_phase (cs_ws s) w = Working" "cs_stage s = at_work w (cs_stage s w)"
    and keep: "same_queue (cs_db s) db'" and num: "numbered ba n0 lg"
    and lg: "log_of (db_world db') = l0 @ written lg"
    and st: "stage_inv ba n0 (vs_last_sequence (db_versions db')) lg (ws_left (cs_ws s)) w sg"
  shows "cinv ba log_of n0 l0
    (s\<lparr>cs_ws := (cs_ws s)\<lparr>ws_db := db'\<rparr>, cs_stage := (cs_stage s)(w := sg), cs_log := lg\<rparr>)"
proof -
  have "winv ((cs_ws s)\<lparr>ws_db := db'\<rparr>)"
    using inv winv_step [OF wstep.work [OF w(1) keep]] by (simp add: cinv_def)
  moreover have "(cs_stage s)(w := sg) = at_work w sg" by (subst w(2)) simp
  ultimately show ?thesis
    unfolding cinv_def using num lg st w(1) by (auto intro!: exI [of _ w] exI [of _ sg])
qed

lemma only_queue_fields:
  assumes "only_queue s s'"
  shows "db_world s' = db_world s" and "db_versions s' = db_versions s"
  using arg_cong [OF assms [unfolded only_queue_def], of db_world]
    arg_cong [OF assms [unfolded only_queue_def], of db_versions] by simp_all

lemma cinv_step:
  assumes laws: "log_laws ok ops ba log_of" and "cstep ok ops ba s s'" and inv: "cinv ba log_of n0 l0 s"
  shows "cinv ba log_of n0 l0 s'"
  using assms(2)
proof (cases rule: cstep.cases)
  case (queue q)
  note same = only_queue_fields [OF queue(3)]
  obtain w sg where "cs_stage s = at_work w sg" "sg \<noteq> Before \<longrightarrow> ws_phase (cs_ws s) w = Working"
    "stage_inv ba n0 (cs_last s) (cs_log s) (ws_left (cs_ws s)) w sg" and winv: "winv (cs_ws s)"
    using inv by (auto simp: cinv_def)
  then show ?thesis
    using inv winv_step [OF queue(2) winv] queue(4,5) unfolding cinv_def queue(1)
    by (auto simp: same intro!: exI [of _ w] exI [of _ sg])
next
  case (group w x st wb rep n db')
  obtain at: "cs_stage s = at_work w (cs_stage s w)" "ws_phase (cs_ws s) w = Working"
    "stage_inv ba n0 (cs_last s) (cs_log s) (ws_left (cs_ws s)) w (cs_stage s w)"
    using cinv_stage [OF inv] group(2) by blast
  obtain bs where db': "db' = (cs_db s)\<lparr>db_batches := bs\<rparr>" using Write_begin_effect(1) [OF laws group(8)] by blast
  have "cinv ba log_of n0 l0 (s\<lparr>cs_ws := (cs_ws s)\<lparr>ws_db := db'\<rparr>,
      cs_stage := (cs_stage s)(w := Logging wb rep n), cs_log := cs_log s\<rparr>)"
  proof (rule cinv_work [OF inv at(2,1)])
    show "same_queue (cs_db s) db'" "numbered ba n0 (cs_log s)"
      "log_of (db_world db') = l0 @ written (cs_log s)"
      using inv by (simp_all add: db' same_queue_def cinv_def)
    show "stage_inv ba n0 (vs_last_sequence (db_versions db')) (cs_log s) (ws_left (cs_ws s)) w (Logging wb rep n)"
      using at(3) group(3) Write_begin_effect(2,3) [OF laws group(8)] by (simp add: db')
  qed
  then show ?thesis by (simp add: group(1))
next
  case (skip w x st)
  obtain at: "cs_stage s = at_work w (cs_stage s w)" "ws_phase (cs_ws s) w = Working"
    "stage_inv ba n0 (cs_last s) (cs_log s) (ws_left (cs_ws s)) w (cs_stage s w)"
    using cinv_stage [OF inv] skip(2) by blast
  have "cinv ba log_of n0 l0 (s\<lparr>cs_ws := (cs_ws s)\<lparr>ws_db := cs_db s\<rparr>,
      cs_stage := (cs_stage s)(w := Done st), cs_log := cs_log s\<rparr>)"
    using inv at(3) skip(3)
    by (intro cinv_work [OF inv at(2,1)]) (simp_all add: cinv_def subseq_rev_drop_many list_emb_append_mono)
  then show ?thesis by (simp add: skip(1))
next
  case (log w wb rep n x st db')
  obtain at: "cs_stage s = at_work w (cs_stage s w)" "ws_phase (cs_ws s) w = Working"
    "stage_inv ba n0 (cs_last s) (cs_log s) (ws_left (cs_ws s)) w (cs_stage s w)"
    by (rule cinv_stage [OF inv, of w]) (simp add: log(2), (rule that; assumption))
  let ?b = "ok (fst (vo_AddRecord (op_vs ops) (the (db_log (cs_db s))) (Contents rep) (db_world (cs_db s))))"
  note eff = Write_log_effect [OF laws log(4)]
  have stage: "subseq (map fst (cs_log s)) (ws_left (cs_ws s))" "n = seq_after ba n0 (cs_log s) + of_int (ba_Count ba rep)"
    "\<exists>raw. rep = ba_SetSequence ba raw (seq_after ba n0 (cs_log s) + 1)"
    using at(3) unfolding log(2) by auto
  have "cinv ba log_of n0 l0 (s\<lparr>cs_ws := (cs_ws s)\<lparr>ws_db := db'\<rparr>,
      cs_stage := (cs_stage s)(w := Logged wb rep n st), cs_log := cs_log s @ [(w, rep, ?b)]\<rparr>)"
  proof (rule cinv_work [OF inv at(2,1) eff(1)])
    show "numbered ba n0 (cs_log s @ [(w, rep, ?b)])"
      "log_of (db_world db') = l0 @ written (cs_log s @ [(w, rep, ?b)])"
      using inv stage(3) eff(3) by (simp_all add: cinv_def numbered_append)
    show "stage_inv ba n0 (vs_last_sequence (db_versions db')) (cs_log s @ [(w, rep, ?b)]) (ws_left (cs_ws s)) w
        (Logged wb rep n st)"
      using stage(1,2) by (simp add: list_emb_append_mono)
  qed
  then show ?thesis by (simp add: log(1))
next
  case (advance w wb rep n st)
  obtain at: "cs_stage s = at_work w (cs_stage s w)" "ws_phase (cs_ws s) w = Working"
    "stage_inv ba n0 (cs_last s) (cs_log s) (ws_left (cs_ws s)) w (cs_stage s w)"
    by (rule cinv_stage [OF inv, of w]) (simp add: advance(2), (rule that; assumption))
  have "cinv ba log_of n0 l0 (s\<lparr>cs_ws := (cs_ws s)\<lparr>ws_db := Write_end ba wb rep n (cs_db s)\<rparr>,
      cs_stage := (cs_stage s)(w := Done st), cs_log := cs_log s\<rparr>)"
    using inv at(3) advance(2) by (intro cinv_work [OF inv at(2,1)]) (simp_all add: cinv_def)
  then show ?thesis by (simp add: advance(1))
next
  case (leave w st db')
  obtain at: "cs_stage s = at_work w (cs_stage s w)" "ws_phase (cs_ws s) w = Working"
    "stage_inv ba n0 (cs_last s) (cs_log s) (ws_left (cs_ws s)) w (cs_stage s w)"
    by (rule cinv_stage [OF inv, of w]) (simp add: leave(2), (rule that; assumption))
  have winv: "winv (cs_ws s)" using inv by (simp add: cinv_def)
  then obtain rest where q: "db_writers (cs_db s) = w # rest" using at(2) by (auto simp: winv_def)
  have db': "db_world db' = db_world (cs_db s)" "db_versions db' = db_versions (cs_db s)"
    using leave(3) Write_leave_self [OF q] by auto
  have "(cs_stage s)(w := Before) = at_work w Before" by (subst at(1)) simp
  then show ?thesis
    using inv winv_leave [OF winv at(2) leave(3)] db' at(3) leave(2)
    unfolding cinv_def leave(1) by (auto intro!: exI [of _ w] exI [of _ Before])
qed

lemma cinv_reach:
  assumes "log_laws ok ops ba log_of" and "creach_from ok ops ba s0 s"
  shows "cinv ba log_of (cs_last s0) (log_of (db_world (cs_db s0))) s"
  using assms(2)
proof induction
  case init
  then have "winv (cs_ws s0)" by (auto simp: cinit_def intro: winv_reach wreach.init)
  then show ?case
    using init by (auto simp: cinv_def cinit_def at_work_def fun_eq_iff intro!: exI [of _ Before])
next
  case (step s s')
  then show ?case using cinv_step [OF assms(1)] by blast
qed

section \<open>The property\<close>


section \<open>An instance\<close>

text \<open>Writer 9 is at the log while writer 10 enters.\<close>

definition ex_quiet :: "(int, entries, string list) csys" where
  "ex_quiet = \<lparr>cs_ws = \<lparr>ws_db = ex_state\<lparr>db_writers := [], db_writer := (\<lambda>_. None)\<rparr>, ws_phase = \<lambda>_. Absent,
     ws_entered = [], ws_left = []\<rparr>, cs_stage = \<lambda>_. Before, cs_log = []\<rparr>"

definition ex_joins :: "nat \<Rightarrow> (int, entries, string list) csys \<Rightarrow> (int, entries, string list) csys" where
  "ex_joins w s = s\<lparr>cs_ws := (cs_ws s)\<lparr>ws_db := Write_enter w (Some 5) False (cs_db s),
     ws_phase := (ws_phase (cs_ws s))(w := Entered), ws_entered := ws_entered (cs_ws s) @ [w]\<rparr>\<rparr>"

definition ex_starts :: "(int, entries, string list) csys" where
  "ex_starts = (ex_joins 9 ex_quiet)\<lparr>cs_ws := (cs_ws (ex_joins 9 ex_quiet))
     \<lparr>ws_phase := (ws_phase (cs_ws (ex_joins 9 ex_quiet)))(9 := Working)\<rparr>\<rparr>"

lemma ex_joins_step:
  assumes "ws_phase (cs_ws s) w = Absent"
  shows "cstep ok ops ba s (ex_joins w s)"
proof -
  have "wstep (cs_ws s) ((cs_ws s)\<lparr>ws_db := Write_enter w (Some 5) False (cs_db s),
      ws_phase := (ws_phase (cs_ws s))(w := Entered), ws_entered := ws_entered (cs_ws s) @ [w]\<rparr>)"
    by (rule wstep.enter [OF assms])
  then show ?thesis
    unfolding ex_joins_def
    by (rule cstep.queue) (use assms in \<open>auto simp: only_queue_def Write_enter_def\<close>)
qed

lemma ex_starts_step: "cstep ok ops ba (ex_joins 9 ex_quiet) ex_starts"
proof -
  let ?s = "ex_joins 9 ex_quiet"
  have "wstep (cs_ws ?s) ((cs_ws ?s)\<lparr>ws_phase := (ws_phase (cs_ws ?s))(9 := Working)\<rparr>)"
    by (rule wstep.start [where x = "Writer\<lparr>wr_batch := Some 5, wr_sync := False, wr_done := False\<rparr>"])
      (simp_all add: ex_joins_def ex_quiet_def Write_enter_def Write_waits_def deref_writer_def front_def)
  then show ?thesis
    unfolding ex_starts_def by (rule cstep.queue) (auto simp: only_queue_def)
qed

lemma ex_group_step: "\<exists>s. cstep Status_ok ex_db_ops ex_batch ex_starts s \<and> cs_stage s 9 = Logging 5 ''sx'' 3 \<and>
    cs_log s = [] \<and> ws_entered (cs_ws s) = [9] \<and> ws_phase (cs_ws s) 10 = Absent \<and> db_log (cs_db s) = Some 0 \<and>
    db_mem (cs_db s) = Some 0 \<and> db_memtables (cs_db s) 0 \<noteq> None \<and> db_world (cs_db s) = [] \<and>
    deref_writer (cs_db s) 9 = Inr (Writer\<lparr>wr_batch := Some 5, wr_sync := False, wr_done := False\<rparr>)"
proof -
  have start: "ws_phase (cs_ws ex_starts) 9 = Working" "cs_stage ex_starts 9 = Before"
    "deref_writer (cs_db ex_starts) 9 = Inr (Writer\<lparr>wr_batch := Some 5, wr_sync := False, wr_done := False\<rparr>)"
    "MakeRoomForWrite Status_ok ex_db_ops False (cs_db ex_starts) = Some (Inr (Status_default, cs_db ex_starts))"
    by (simp_all add: ex_starts_def ex_joins_def ex_quiet_def Write_enter_def deref_writer_def ex_state_def
        MakeRoomForWrite_def MakeRoom_loop.simps MakeRoom_round_def Status_ok_def)
  have "Write_begin ex_batch (cs_db ex_starts) =
      Inr (5, ''sx'', 3, (cs_db ex_starts)\<lparr>db_batches := (db_batches (cs_db ex_starts))(5 \<mapsto> ''sx'')\<rparr>)"
    by (simp add: Write_begin_def ex_batch_def deref_batch_def ex_starts_def ex_joins_def ex_quiet_def
        Write_enter_def ex_state_def ex_vset_def Let_def)
  then have "cstep Status_ok ex_db_ops ex_batch ex_starts (ex_starts\<lparr>cs_ws := (cs_ws ex_starts)\<lparr>ws_db :=
      (cs_db ex_starts)\<lparr>db_batches := (db_batches (cs_db ex_starts))(5 \<mapsto> ''sx'')\<rparr>\<rparr>,
      cs_stage := (cs_stage ex_starts)(9 := Logging 5 ''sx'' 3)\<rparr>)"
    by (rule cstep.group [OF start(1-3), where st = Status_default, rotated 3]) (simp_all add: start(4) Status_ok_def)
  then show ?thesis
    by (intro exI conjI, assumption)
      (simp_all add: ex_starts_def ex_joins_def ex_quiet_def Write_enter_def ex_state_def deref_writer_def)
qed

lemma ex_log_step:
  assumes "cs_stage s 9 = Logging 5 ''sx'' 3" and "db_log (cs_db s) = Some 0" and "db_mem (cs_db s) = Some 0"
    and "db_memtables (cs_db s) 0 = Some m"
    and "deref_writer (cs_db s) 9 = Inr (Writer\<lparr>wr_batch := Some 5, wr_sync := False, wr_done := False\<rparr>)"
  shows "\<exists>s'. cstep Status_ok ex_db_ops ex_batch s s' \<and> cs_log s' = cs_log s @ [(9, ''sx'', True)] \<and>
    ws_entered (cs_ws s') = ws_entered (cs_ws s)"
proof -
  obtain st db' where "Write_log Status_ok ex_db_ops ex_batch False ''sx'' (cs_db s) = Inr (st, db')"
    using assms(2-4) by (simp add: Write_log_def Write_sync_def Write_insert_def nonnull_def deref_mem_def
        ex_db_ops_def ex_ops_def ex_batch_def Status_ok_def Contents_def Let_def)
  from cstep.log [OF assms(1,5), of Status_ok ex_db_ops ex_batch] this show ?thesis
    by (fastforce simp: Status_ok_def)
qed

lemma ex_log_laws: "log_laws Status_ok ex_db_ops ex_batch (\<lambda>w. w)"
proof -
  have "\<exists>bs. t = t\<lparr>db_batches := bs\<rparr>" for t :: "(int, entries, string list) db"
    by (rule exI [of _ "db_batches t"]) simp
  then show ?thesis by (auto simp: log_laws_def ex_db_ops_def ex_ops_def ex_batch_def Status_ok_def)
qed


end
