(* ===== verification/Demo.thy ===== *)
theory Demo
  imports DbReadWrite
begin

text \<open>
  The program of \<open>test.cc\<close>: it opens a database, puts a value, gets it back and prints it. \<open>s\<close> is
  the state of the database \<open>new DBImpl()\<close> leaves, \<open>w\<close> and \<open>b\<close> the addresses of the writer and
  the batch of \<open>Put\<close>; \<open>DB::Open\<close> does not read the options before it returns. What is printed is
  part of the result. \<open>delete db\<close> calls a destructor that is not in the repository.
\<close>

definition newline :: string where
  "newline = [CHR 10]"

definition test_leveldb ::
  "(status \<Rightarrow> bool) \<Rightarrow> ('d, 'm, 'i, 'w) db_ops \<Rightarrow> ('d, 'm, 'w) batch_ops \<Rightarrow> ('d, 'm, 'k, 'w) read_ops
   \<Rightarrow> nat \<Rightarrow> nat \<Rightarrow> nat \<Rightarrow> ('d, 'm, 'w) db \<Rightarrow> (string \<times> ('d, 'm, 'w) db) run" where
  "test_leveldb ok ops ba rd new_impl w b s =
     (let (status, db) = DB_Open new_impl; key = ''leil''; value = ''666''
      in rbind (Some (cpp_assert (ok status))) (\<lambda>_.
         rbind (Some (nonnull db)) (\<lambda>_.
         rbind (DBImpl_Put ba (Write_alone ok ops ba w False) b key value s) (\<lambda>(status, s).
         rbind (Some (cpp_assert (ok status))) (\<lambda>_.
         rbind (Some (DBImpl_Get ok ops rd None key value s)) (\<lambda>(status, value, s).
         rbind (Some (cpp_assert (ok status))) (\<lambda>_.
           Some (Inr (key @ [CHR 39] @ ''s value is:'' @ value @ newline, s)))))))))"

definition demo_main ::
  "(status \<Rightarrow> bool) \<Rightarrow> ('d, 'm, 'i, 'w) db_ops \<Rightarrow> ('d, 'm, 'w) batch_ops \<Rightarrow> ('d, 'm, 'k, 'w) read_ops
   \<Rightarrow> nat \<Rightarrow> nat \<Rightarrow> nat \<Rightarrow> ('d, 'm, 'w) db \<Rightarrow> (int \<times> string \<times> ('d, 'm, 'w) db) run" where
  "demo_main ok ops ba rd new_impl w b s =
     rbind (test_leveldb ok ops ba rd new_impl w b s) (\<lambda>(out, s).
       Some (Inr (0, ''Hello levelDB !'' @ newline @ out, s)))"

text \<open>
  On an idle database whose memtable is there, with an ok predicate that holds of every status, the
  program returns 0 and prints the value it has put.
\<close>

theorem demo_prints:
  assumes "memtable_finds ba rd"
    and "Ref_increments (vo_Ref (op_vs ops))" and "Unref_decrements (vo_Unref (op_vs ops))"
    and "db_writers s = []" and "b \<noteq> db_tmp_batch s"
    and "\<And>n t. ba_BuildBatchGroup ba n t = Inr (b, n, t)"
    and "op_Unlock ops = (\<lambda>t. t)" and "op_Lock ops = (\<lambda>t. t)" and "db_log s = Some l"
    and "db_mem s = Some a" and "db_memtables s a = Some m" and "0 < mt_refs m"
    and "\<And>i. db_imm s = Some i \<Longrightarrow> i \<noteq> a \<and> (\<exists>mi. db_memtables s i = Some mi \<and> 0 < mt_refs mi)"
    and "vs_current (db_versions s) = Some c" and "vs_versions (db_versions s) c = Some ver" and "0 < v_refs ver"
  shows "\<exists>s'. demo_main Status_ok ops ba rd new_impl w b s = Some (Inr (0,
    ''Hello levelDB !'' @ newline @ ''leil'' @ [CHR 39] @ ''s value is:666'' @ newline, s'))"
proof -
  have ok: "Status_ok st" for st by (simp add: Status_ok_def)
  obtain st s' where "DB_Put ba (Write_alone Status_ok ops ba w False) b ''leil'' ''666'' s = Some (Inr (st, s'))"
    "DBImpl_Get Status_ok ops rd None ''leil'' ''666'' s' = Inr (Status_default, ''666'', s')"
    using Put_then_Get [where ok = Status_ok and w = w and key = "''leil''" and val = "''666''",
        OF assms(1-4) ok assms(5-16)] ok by blast
  then show ?thesis
    by (simp add: demo_main_def test_leveldb_def DB_Open_def DBImpl_Put_def nonnull_def ok Let_def)
qed

end
