(* ===== verification/TableProps.thy ===== *)
theory TableProps
  imports TableExample
begin

text \<open>
  Properties of \<open>Table\<close>: opening a table file is all or nothing, and reading a block through the
  block cache gives what reading the file gives.
\<close>

section \<open>Open\<close>

text \<open>
  C25: opening a table file is all or nothing. \<open>Open\<close> returns the status of the first of its reads
  (size, footer, decoding, index block) that fails, sets \<open>*table\<close> to null and leaves no object
  behind; when none fails it makes one table on the file with the given options, the metaindex
  handle of the footer and a new block with the contents of the index block, and nothing else but
  the filter, whose errors are not reported.
\<close>

theorem Table_Open_all_or_nothing:
  assumes "heaps_ok s" and "hp_at (tb_files s) f = Some x"
  shows "\<exists>p s'. Table_Open ok ops options (Some f) sz s =
      Inr (fst (Open_reads ok ops options x sz (tb_world s)), p, s') \<and>
    (case snd (Open_reads ok ops options x sz (tb_world s)) of
       None \<Rightarrow> p = None \<and> same_objects s s'
     | Some (metaindex, contents) \<Rightarrow>
         ok (fst (Open_reads ok ops options x sz (tb_world s))) \<and>
         (\<exists>t r b. p = Some t \<and> t \<notin> hp_live (tb_tables s) \<and>
            hp_at (tb_tables s') = (hp_at (tb_tables s))(t \<mapsto> r) \<and>
            rp_file r = Some f \<and> rp_options r = options \<and> rp_metaindex_handle r = metaindex \<and>
            rp_index_block r = Some b \<and> b \<notin> hp_live (tb_blocks s) \<and>
            hp_at (tb_blocks s') = (hp_at (tb_blocks s))(b \<mapsto> to_Block ops contents) \<and>
            tb_files s' = tb_files s \<and> tb_entries s' = tb_entries s \<and>
            hp_live (tb_filters s') = hp_live (tb_filters s) \<union> set_option (rp_filter r) \<and>
            (opt_filter_policy options = None \<longrightarrow> rp_filter r = None)))"
proof -
  obtain p s' where o: "Table_Open ok ops options (Some f) sz s =
      Inr (fst (Open_reads ok ops options x sz (tb_world s)), p, s')"
    and r: "open_result ok ops options f s (Open_reads ok ops options x sz (tb_world s)) p s'"
    using Table_Open_effect [OF assms] by blast
  show ?thesis
  proof (cases "snd (Open_reads ok ops options x sz (tb_world s))")
    case None
    then show ?thesis using o r by (auto simp: open_result_def)
  next
    case (Some mc)
    obtain m c where mc: "mc = (m, c)" by (cases mc)
    obtain t r where t: "p = Some t" "opened s t r (to_Block ops c) s'" "rp_file r = Some f"
      "rp_options r = options" "rp_metaindex_handle r = m"
      and okr: "ok (fst (Open_reads ok ops options x sz (tb_world s)))"
      using r Some mc by (auto simp: open_result_def)
    have "hp_live (tb_filters s') = hp_live (tb_filters s) \<union> set_option (rp_filter r)"
      "opt_filter_policy options = None \<longrightarrow> rp_filter r = None"
      using t(2,4) by (auto simp: opened_def hp_live_def split: option.splits)
    then show ?thesis
      using o Some mc t okr by (auto simp: opened_def)
  qed
qed

theorem Table_Open_all_or_nothing_witness:
  "\<exists>p s'. Table_Open Status_is_default ex_table_ops ex_options (Some 0) 100 ex_one_table =
      Inr (fst (Open_reads Status_is_default ex_table_ops ex_options ''data'' 100 (tb_world ex_one_table)),
           p, s') \<and>
    (case snd (Open_reads Status_is_default ex_table_ops ex_options ''data'' 100 (tb_world ex_one_table)) of
       None \<Rightarrow> p = None \<and> same_objects ex_one_table s'
     | Some (metaindex, contents) \<Rightarrow>
         Status_is_default (fst (Open_reads Status_is_default ex_table_ops ex_options ''data'' 100
           (tb_world ex_one_table))) \<and>
         (\<exists>t r b. p = Some t \<and> t \<notin> hp_live (tb_tables ex_one_table) \<and>
            hp_at (tb_tables s') = (hp_at (tb_tables ex_one_table))(t \<mapsto> r) \<and>
            rp_file r = Some 0 \<and> rp_options r = ex_options \<and> rp_metaindex_handle r = metaindex \<and>
            rp_index_block r = Some b \<and> b \<notin> hp_live (tb_blocks ex_one_table) \<and>
            hp_at (tb_blocks s') =
              (hp_at (tb_blocks ex_one_table))(b \<mapsto> to_Block ex_table_ops contents) \<and>
            tb_files s' = tb_files ex_one_table \<and> tb_entries s' = tb_entries ex_one_table \<and>
            hp_live (tb_filters s') = hp_live (tb_filters ex_one_table) \<union> set_option (rp_filter r) \<and>
            (opt_filter_policy ex_options = None \<longrightarrow> rp_filter r = None)))"
  by (rule Table_Open_all_or_nothing) simp_all

section \<open>Reading blocks\<close>

text \<open>
  What the block reader relies on: the block cache finds what was inserted, \<open>Insert\<close> and
  \<open>Lookup\<close> leave the file and the block alone, and a handle stands for its block. \<open>held w\<close> are the
  blocks the cache keeps in the world \<open>w\<close>: those it finds and those inserted are among them.
\<close>

definition block_cache_law ::
  "('h, ('f, 'b, 'q, 'w) tables) block_cache_ops \<Rightarrow> ('w \<Rightarrow> nat set) \<Rightarrow> nat \<Rightarrow> bool" where
  "block_cache_law bk held c \<longleftrightarrow>
     (\<forall>key s h s'. bk_Lookup bk c key s = (h, s') \<longrightarrow> tb_files s' = tb_files s \<and>
        tb_blocks s' = tb_blocks s \<and> held (tb_world s') = held (tb_world s) \<and>
        (\<forall>x. h = Some x \<longrightarrow> bk_Value bk c x s' \<in> held (tb_world s'))) \<and>
     (\<forall>key b n s h s'. bk_Insert bk c key b n s = (h, s') \<longrightarrow>
        hp_at (tb_blocks s') b = hp_at (tb_blocks s) b \<and> bk_Value bk c h s' = b \<and> b \<in> held (tb_world s'))"

text \<open>Reading the file \<open>x\<close> leaves the cache alone.\<close>

definition reads_leave :: "('f, 'b, 'q, 'w) table_ops \<Rightarrow> ('w \<Rightarrow> nat set) \<Rightarrow> 'f \<Rightarrow> bool" where
  "reads_leave ops held x \<longleftrightarrow> (\<forall>opt h w. held (snd (snd (to_ReadBlock ops x opt h w))) = held w)"

text \<open>The cleanup an iterator over block \<open>b\<close> must have: a block the cache keeps is released, any other deleted.\<close>

definition right_cleanup ::
  "('h, ('f, 'b, 'q, 'w) tables) block_cache_ops \<Rightarrow> ('w \<Rightarrow> nat set) \<Rightarrow> nat \<Rightarrow> ('f, 'b, 'q, 'w) tables
   \<Rightarrow> 'h block_iter \<Rightarrow> bool" where
  "right_cleanup bk held c s it \<longleftrightarrow>
     (case it of Error_iterator st \<Rightarrow> True
      | Block_iterator cmp b cl \<Rightarrow>
          if b \<in> held (tb_world s) then \<exists>h. cl = ReleaseBlock c h \<and> bk_Value bk c h s = b
          else cl = DeleteBlock b)"

text \<open>The file answers the same whenever it is asked.\<close>

definition same_reads :: "('f, 'b, 'q, 'w) table_ops \<Rightarrow> 'f \<Rightarrow> bool" where
  "same_reads ops x \<longleftrightarrow>
     (\<forall>opt h w w'. fst (to_ReadBlock ops x opt h w) = fst (to_ReadBlock ops x opt h w') \<and>
        fst (snd (to_ReadBlock ops x opt h w)) = fst (snd (to_ReadBlock ops x opt h w')))"

text \<open>A block found in the cache is the one the file holds at the handle.\<close>

definition coherent ::
  "(status \<Rightarrow> bool) \<Rightarrow> ('f, 'b, 'q, 'w) table_ops \<Rightarrow> ('h, ('f, 'b, 'q, 'w) tables) block_cache_ops \<Rightarrow> nat
   \<Rightarrow> slice \<Rightarrow> 'f \<Rightarrow> read_options \<Rightarrow> block_handle \<Rightarrow> ('f, 'b, 'q, 'w) tables \<Rightarrow> bool" where
  "coherent ok ops bk c key x options handle s \<longleftrightarrow>
     (\<forall>h s'. bk_Lookup bk c key s = (Some h, s') \<longrightarrow>
        ok (fst (to_ReadBlock ops x options handle (tb_world s))) \<and>
        hp_at (tb_blocks s') (bk_Value bk c h s') =
          Some (to_Block ops (fst (snd (to_ReadBlock ops x options handle (tb_world s))))))"

text \<open>What a client sees of an iterator: an error, or the comparator and the block.\<close>

definition iter_view ::
  "('f, 'b, 'q, 'w) tables \<Rightarrow> 'h block_iter \<Rightarrow> status + nat \<times> 'b option" where
  "iter_view s it =
     (case it of Error_iterator st \<Rightarrow> Inl st
      | Block_iterator cmp b _ \<Rightarrow> Inr (cmp, hp_at (tb_blocks s) b))"

text \<open>What both ways of reading amount to.\<close>

definition block_view ::
  "(status \<Rightarrow> bool) \<Rightarrow> ('f, 'b, 'q, 'w) table_ops \<Rightarrow> options \<Rightarrow> 'f \<Rightarrow> read_options \<Rightarrow> slice \<Rightarrow> 'w
   \<Rightarrow> status + nat \<times> 'b option" where
  "block_view ok ops options x opt v w =
     (case to_DecodeHandle ops v of (st, handle) \<Rightarrow>
        if \<not> ok st then Inl st
        else case to_ReadBlock ops x opt handle w of (st, contents, _) \<Rightarrow>
          if ok st then Inr (opt_comparator options, Some (to_Block ops contents)) else Inl st)"

lemma BlockReader_direct:
  assumes "hp_at (tb_tables s) t = Some r" and "rp_file r = Some f" and "hp_at (tb_files s) f = Some x"
    and "opt_block_cache (rp_options r) = None"
  shows "\<exists>it s'. BlockReader ok ops bk enc t options v s = Inr (it, s') \<and>
           iter_view s' it = block_view ok ops (rp_options r) x options v (tb_world s)"
  using assms
  by (auto simp: BlockReader_def BlockReader_uncached_def BlockReader_iter_def ReadBlock_live
      new_Block_def hp_new_def iter_view_def block_view_def split: prod.splits)

lemma BlockReader_through_cache:
  assumes "hp_at (tb_tables s) t = Some r" and "rp_file r = Some f" and "hp_at (tb_files s) f = Some x"
    and c: "opt_block_cache (rp_options r) = Some c" and hs: "heaps_ok s"
    and law: "block_cache_law bk held c" and det: "same_reads ops x" and keep: "reads_leave ops held x"
    and below: "held (tb_world s) \<subseteq> hp_live (tb_blocks s)"
    and coh: "coherent ok ops bk c (block_cache_key enc (rp_cache_id r) (snd (to_DecodeHandle ops v)))
       x options (snd (to_DecodeHandle ops v)) s"
  shows "\<exists>it s'. BlockReader ok ops bk enc t options v s = Inr (it, s') \<and>
           iter_view s' it = block_view ok ops (rp_options r) x options v (tb_world s) \<and>
           right_cleanup bk held c s' it"
proof -
  obtain st handle where d: "to_DecodeHandle ops v = (st, handle)" by fastforce
  define key where "key = block_cache_key enc (rp_cache_id r) handle"
  show ?thesis
  proof (cases "ok st")
    case False
    then show ?thesis
      using assms(1) d by (simp add: BlockReader_def BlockReader_iter_def iter_view_def block_view_def right_cleanup_def)
  next
    case True
    obtain l s1 where l: "bk_Lookup bk c key s = (l, s1)" by fastforce
    have s1: "tb_files s1 = tb_files s" "tb_blocks s1 = tb_blocks s" "held (tb_world s1) = held (tb_world s)"
      "\<And>h. l = Some h \<Longrightarrow> bk_Value bk c h s1 \<in> held (tb_world s1)"
      using law l unfolding block_cache_law_def by blast+
    have br: "BlockReader ok ops bk enc t options v s =
        obind (BlockReader_cached ok ops bk c key (Some f) options handle st s) (BlockReader_iter (rp_options r))"
      using assms(1,2) c d True by (simp add: BlockReader_def key_def)
    show ?thesis
    proof (cases l)
      case (Some h)
      then have "ok (fst (to_ReadBlock ops x options handle (tb_world s)))"
        "hp_at (tb_blocks s1) (bk_Value bk c h s1) =
           Some (to_Block ops (fst (snd (to_ReadBlock ops x options handle (tb_world s)))))"
        using coh l by (simp_all add: coherent_def d key_def)
      then show ?thesis
        using l Some c d True s1(4) [OF Some] unfolding br
        by (simp add: BlockReader_cached_def BlockReader_iter_def iter_view_def block_view_def
            right_cleanup_def case_prod_unfold)
    next
      case None
      obtain st2 contents w where b: "to_ReadBlock ops x options handle (tb_world s1) = (st2, contents, w)"
        by (metis prod_cases3)
      have b0: "fst (to_ReadBlock ops x options handle (tb_world s)) = st2"
        "fst (snd (to_ReadBlock ops x options handle (tb_world s))) = contents"
        using det b unfolding same_reads_def by (metis fst_conv, metis fst_conv snd_conv)
      have x1: "hp_at (tb_files s1) f = Some x" using assms(3) s1(1) by simp
      show ?thesis
      proof (cases "ok st2")
        case False
        then show ?thesis
          using l None b b0 d True x1 unfolding br
          by (simp add: BlockReader_cached_def ReadBlock_live BlockReader_iter_def iter_view_def
              block_view_def right_cleanup_def case_prod_unfold)
      next
        case ok2: True
        define n where "n = hp_next (tb_blocks s1)"
        define blk where "blk = to_Block ops contents"
        define s2 where "s2 = s1\<lparr>tb_world := w, tb_blocks := snd (hp_new blk (tb_blocks s1))\<rparr>"
        have nb: "new_Block ops contents (s1\<lparr>tb_world := w\<rparr>) = (n, s2)"
          by (simp add: new_Block_def hp_new_def n_def blk_def s2_def)
        have at: "hp_at (tb_blocks s2) n = Some blk" by (simp add: s2_def hp_new_def n_def)
        have "n \<notin> held (tb_world s)"
          using below hs hp_fresh_live [of "tb_blocks s"] s1(2)
          by (auto simp: n_def heaps_ok_def)
        moreover have "held (tb_world s2) = held (tb_world s)"
          using keep [unfolded reads_leave_def, rule_format, of options handle "tb_world s1"] b s1(3)
          by (simp add: s2_def)
        ultimately have out: "n \<notin> held (tb_world s2)" by simp
        have bv: "block_view ok ops (rp_options r) x options v (tb_world s) =
            Inr (opt_comparator (rp_options r), Some blk)"
          using d True b0 ok2 by (simp add: block_view_def case_prod_unfold blk_def)
        show ?thesis
        proof (cases "bc_cachable contents \<and> ro_fill_cache options")
          case True
          obtain h s3 where i: "bk_Insert bk c key n (to_Block_size ops blk) s2 = (h, s3)" by fastforce
          then have "hp_at (tb_blocks s3) n = Some blk" "bk_Value bk c h s3 = n" "n \<in> held (tb_world s3)"
            using law at unfolding block_cache_law_def by (metis, metis, metis)
          then show ?thesis
            using l None b x1 ok2 nb at True i c unfolding br bv
            by (simp add: BlockReader_cached_def ReadBlock_live BlockReader_iter_def iter_view_def right_cleanup_def)
        next
          case False
          then show ?thesis
            using l None b x1 ok2 nb at out unfolding br bv
            by (auto simp: BlockReader_cached_def ReadBlock_live BlockReader_iter_def iter_view_def right_cleanup_def)
        qed
      qed
    qed
  qed
qed



end
