(* ===== verification/TableBuilder.thy ===== *)
theory TableBuilder
  imports TableFormat
begin

text \<open>
  \<open>TableBuilder\<close> of \<open>table/table_builder.cc\<close>: the state a builder keeps, its construction and
  destruction. A \<open>BlockBuilder\<close> (\<open>table/block_builder.h\<close>) keeps a pointer to the options it is
  given, here the name of a member of the \<open>Rep\<close>: it sees what is stored there later. The contents
  a new \<open>BlockBuilder\<close> has and the class \<open>FilterBlockBuilder\<close> (\<open>'q\<close>) are not in the repository
  and are arguments. The free function \<open>Add\<close> and \<open>ChangeOptions\<close> have empty bodies.
\<close>

datatype options_member = Rep_options | Rep_index_block_options

record block_builder =
  bb_options :: options_member
  bb_buffer :: string
  bb_restarts :: "u32 list"
  bb_counter :: int
  bb_finished :: bool
  bb_last_key :: string

definition BlockBuilder_empty :: "block_builder \<Rightarrow> bool" where
  "BlockBuilder_empty b \<longleftrightarrow> bb_buffer b = []"

record 'q builder_rep =
  br_options :: options
  br_index_block_options :: options
  br_file :: nat
  br_offset :: u64
  br_status :: status
  br_data_block :: block_builder
  br_index_block :: block_builder
  br_last_key :: string
  br_num_entries :: "64 word"
  br_closed :: bool
  br_filter_block :: "'q option"
  br_pending_index_entry :: bool
  br_pending_handle :: block_handle
  br_compressed_output :: string

definition Rep ::
  "(options_member \<Rightarrow> block_builder) \<Rightarrow> (nat \<Rightarrow> 'q) \<Rightarrow> block_handle \<Rightarrow> options \<Rightarrow> nat \<Rightarrow> 'q builder_rep"
where
  "Rep BlockBuilder FilterBlockBuilder handle0 opt f =
     (let r = \<lparr>br_options = opt, br_index_block_options = opt, br_file = f, br_offset = 0,
               br_status = Status_default, br_data_block = BlockBuilder Rep_options,
               br_index_block = BlockBuilder Rep_options, br_last_key = '''', br_num_entries = 0,
               br_closed = False,
               br_filter_block = (case opt_filter_policy opt of
                                    None \<Rightarrow> None | Some p \<Rightarrow> Some (FilterBlockBuilder p)),
               br_pending_index_entry = False, br_pending_handle = handle0,
               br_compressed_output = ''''\<rparr>
      in r\<lparr>br_index_block_options := (br_index_block_options r)\<lparr>opt_block_restart_interval := 1\<rparr>\<rparr>)"

definition TableBuilder ::
  "(options_member \<Rightarrow> block_builder) \<Rightarrow> (nat \<Rightarrow> 'q) \<Rightarrow> (u64 \<Rightarrow> 'q \<Rightarrow> 'q) \<Rightarrow> block_handle
   \<Rightarrow> options \<Rightarrow> nat \<Rightarrow> 'q builder_rep" where
  "TableBuilder BlockBuilder FilterBlockBuilder StartBlock handle0 options file =
     (let r = Rep BlockBuilder FilterBlockBuilder handle0 options file
      in (case br_filter_block r of None \<Rightarrow> r
          | Some q \<Rightarrow> r\<lparr>br_filter_block := Some (StartBlock 0 q)\<rparr>))"

definition delete_TableBuilder :: "bool \<Rightarrow> 'q builder_rep \<Rightarrow> unit outcome" where
  "delete_TableBuilder nd r = (if nd then Inr () else cpp_assert (br_closed r))"

definition ChangeOptions :: "options \<Rightarrow> 'q builder_rep \<Rightarrow> status \<times> 'q builder_rep" where
  "ChangeOptions options r = (Status_OK, r)"

section \<open>A new builder\<close>

definition options_of :: "'q builder_rep \<Rightarrow> options_member \<Rightarrow> options" where
  "options_of r m = (case m of Rep_options \<Rightarrow> br_options r | Rep_index_block_options \<Rightarrow> br_index_block_options r)"

text \<open>
  The index block of a new builder looks at the options of the data blocks, so the restart interval
  of 1 set up for it is never used.
\<close>

lemma index_block_restart_interval:
  assumes "\<And>m. bb_options (BlockBuilder m) = m"
  shows "opt_block_restart_interval
           (options_of (TableBuilder BlockBuilder F S h opt f)
              (bb_options (br_index_block (TableBuilder BlockBuilder F S h opt f)))) =
         opt_block_restart_interval opt"
    and "opt_block_restart_interval (br_index_block_options (TableBuilder BlockBuilder F S h opt f)) = 1"
  using assms by (simp_all add: TableBuilder_def Rep_def options_of_def Let_def split: option.split)

text \<open>The invariant stated at \<open>pending_index_entry\<close> holds of a new builder.\<close>

lemma new_builder_invariant:
  "\<not> br_pending_index_entry (TableBuilder B F S h opt f) \<and>
   \<not> br_closed (TableBuilder B F S h opt f) \<and> br_offset (TableBuilder B F S h opt f) = 0"
  by (simp add: TableBuilder_def Rep_def Let_def split: option.split)

text \<open>A builder that is destroyed before \<open>Finish\<close> or \<open>Abandon\<close> stops at the assert.\<close>

lemma new_builder_destroyed:
  "delete_TableBuilder False (TableBuilder B F S h opt f) = Inl AssertFailed"
  using new_builder_invariant [of B F S h opt f] by (simp add: delete_TableBuilder_def)

end
