(* ===== verification/LogWriter.thy ===== *)
theory LogWriter
  imports Status
begin

text \<open>
  The writer of a log file: \<open>db/log_format.h\<close>, \<open>db/log_writer.h\<close> and \<open>db/log_writer.cc\<close>.
  \<open>crc32c::Value\<close> is an argument. \<open>AddRecord\<close> ends without a return value at this commit; the
  components that call it take it as an argument.
\<close>

datatype RecordType = kZeroType | kFullType | kFirstType | kMiddleType | kLastType

definition RecordType_value :: "RecordType \<Rightarrow> int" where
  "RecordType_value t =
     (case t of kZeroType \<Rightarrow> 0 | kFullType \<Rightarrow> 1 | kFirstType \<Rightarrow> 2 | kMiddleType \<Rightarrow> 3 | kLastType \<Rightarrow> 4)"

definition kMaxRecordType :: int where
  "kMaxRecordType = RecordType_value kLastType"

definition kBlockSize :: int where
  "kBlockSize = 32768"

definition kHeaderSize :: int where
  "kHeaderSize = 4 + 2 + 1"

record log_writer =
  lw_dest :: nat
  lw_block_offset :: int
  lw_type_crc :: "u32 list"

text \<open>\<open>for (int i = 0; i <= kMaxRecordType; i++)\<close>; a store past the array is a fault.\<close>

function InitTypeCrc_loop :: "(slice \<Rightarrow> u32) \<Rightarrow> int \<Rightarrow> u32 list \<Rightarrow> u32 list outcome" where
  "InitTypeCrc_loop crc32c_Value i type_crc =
     (if i \<le> kMaxRecordType
      then if 0 \<le> i \<and> nat i < length type_crc
           then InitTypeCrc_loop crc32c_Value (i + 1)
                  (type_crc[nat i := crc32c_Value [char_of (nat i)]])
           else Inl OutOfBounds
      else Inr type_crc)"
  by pat_completeness auto
termination
  by (relation "measure (\<lambda>(f, i, a). nat (kMaxRecordType + 1 - i))") auto

declare InitTypeCrc_loop.simps [simp del]

definition InitTypeCrc :: "(slice \<Rightarrow> u32) \<Rightarrow> u32 list \<Rightarrow> u32 list outcome" where
  "InitTypeCrc crc32c_Value type_crc = InitTypeCrc_loop crc32c_Value 0 type_crc"

text \<open>\<open>garbage\<close> is what the uninitialised array \<open>type_crc_\<close> holds.\<close>

definition log_Writer :: "(slice \<Rightarrow> u32) \<Rightarrow> u32 list \<Rightarrow> nat \<Rightarrow> log_writer outcome" where
  "log_Writer crc32c_Value garbage dest =
     obind (InitTypeCrc crc32c_Value garbage) (\<lambda>type_crc.
       Inr \<lparr>lw_dest = dest, lw_block_offset = 0, lw_type_crc = type_crc\<rparr>)"

definition log_Writer_reopen ::
  "(slice \<Rightarrow> u32) \<Rightarrow> u32 list \<Rightarrow> nat \<Rightarrow> u64 \<Rightarrow> log_writer outcome" where
  "log_Writer_reopen crc32c_Value garbage dest dest_length =
     obind (InitTypeCrc crc32c_Value garbage) (\<lambda>type_crc.
       Inr \<lparr>lw_dest = dest, lw_block_offset = uint (dest_length mod word_of_int kBlockSize),
            lw_type_crc = type_crc\<rparr>)"

text \<open>
  \<open>AddRecord\<close> (declared to return a \<open>Status\<close>, which its definition leaves out) only takes the
  pointer of its slice and then flows off its end, which is undefined for a function with a result.
\<close>

definition log_AddRecord :: "log_writer \<Rightarrow> slice \<Rightarrow> (status \<times> log_writer) outcome" where
  "log_AddRecord lw record_slice = (let ptr = record_slice in Inl NoReturnValue)"

section \<open>What the constructors establish\<close>

lemma InitTypeCrc_value:
  assumes "length a = nat (kMaxRecordType + 1)"
  shows "InitTypeCrc crc a = Inr (map (\<lambda>i. crc [char_of i]) [0..<nat (kMaxRecordType + 1)])"
proof -
  obtain a0 a1 a2 a3 a4 where a: "a = [a0, a1, a2, a3, a4]"
    using assms by (auto simp: kMaxRecordType_def RecordType_value_def length_Suc_conv
        numeral_eq_Suc)
  show ?thesis
    unfolding a InitTypeCrc_def
    by (simp add: InitTypeCrc_loop.simps kMaxRecordType_def RecordType_value_def upt_rec
        eval_nat_numeral)
qed

text \<open>
  A writer knows the checksum of every record type and stands inside a block; reopened on a file
  it stands where the file ends in its last block.
\<close>

definition log_writer_ok :: "(slice \<Rightarrow> u32) \<Rightarrow> log_writer \<Rightarrow> bool" where
  "log_writer_ok crc lw \<longleftrightarrow>
     0 \<le> lw_block_offset lw \<and> lw_block_offset lw < kBlockSize \<and>
     (\<forall>t. lw_type_crc lw ! nat (RecordType_value t) = crc [char_of (nat (RecordType_value t))])"

lemma map_type_crc:
  "map (\<lambda>i. crc [char_of i]) [0..<nat (kMaxRecordType + 1)] ! nat (RecordType_value t) =
   crc [char_of (nat (RecordType_value t))]"
  by (cases t) (simp_all add: kMaxRecordType_def RecordType_value_def eval_nat_numeral)

lemma log_Writer_established:
  assumes "length garbage = nat (kMaxRecordType + 1)"
  shows "\<exists>lw. log_Writer crc garbage dest = Inr lw \<and> log_writer_ok crc lw \<and> lw_block_offset lw = 0"
  using assms
  by (simp add: log_Writer_def InitTypeCrc_value log_writer_ok_def map_type_crc kBlockSize_def)

lemma log_Writer_reopen_established:
  assumes "length garbage = nat (kMaxRecordType + 1)"
  shows "\<exists>lw. log_Writer_reopen crc garbage dest n = Inr lw \<and> log_writer_ok crc lw \<and>
           lw_block_offset lw = uint n mod kBlockSize"
  using assms
  by (simp add: log_Writer_reopen_def InitTypeCrc_value log_writer_ok_def map_type_crc
      kBlockSize_def uint_mod)

end
