(* ===== verification/EnvPosix.thy ===== *)
theory EnvPosix
  imports Status
begin

text \<open>
  The POSIX environment of \<open>util/env_posix.cc\<close>. The operations of \<open>PosixWritableFile\<close> do nothing
  and return OK at this commit. \<open>open(2)\<close> is an argument: a file descriptor, negative for an
  error. The destructor tests \<open>fd\<close>, read as the member \<open>fd_\<close>.
\<close>

record posix_file =
  pf_pos :: nat
  pf_fd :: int
  pf_is_manifest :: bool
  pf_filename :: string
  pf_dirname :: string

text \<open>\<open>std::string::rfind\<close> of a character, and \<open>find\<close> from a position; \<open>None\<close> is \<open>npos\<close>.\<close>

fun rfind :: "char \<Rightarrow> string \<Rightarrow> nat option" where
  "rfind c [] = None"
| "rfind c (x # xs) =
     (case rfind c xs of Some i \<Rightarrow> Some (Suc i) | None \<Rightarrow> if x = c then Some 0 else None)"

fun find_from :: "char \<Rightarrow> string \<Rightarrow> nat \<Rightarrow> nat option" where
  "find_from c [] pos = None"
| "find_from c (x # xs) pos =
     (case pos of
        0 \<Rightarrow> if x = c then Some 0 else map_option Suc (find_from c xs 0)
      | Suc p \<Rightarrow> map_option Suc (find_from c xs p))"

definition Dirname :: "string \<Rightarrow> string outcome" where
  "Dirname filename =
     (case rfind CHR ''/'' filename of
        None \<Rightarrow> Inr ''.''
      | Some separator_pos \<Rightarrow>
          obind (cpp_assert (find_from CHR ''/'' filename (separator_pos + 1) = None)) (\<lambda>_.
            Inr (take separator_pos filename)))"

definition IsManifest :: "string \<Rightarrow> bool" where
  "IsManifest filename = True"

definition PosixWritableFile :: "string \<Rightarrow> int \<Rightarrow> posix_file outcome" where
  "PosixWritableFile filename fd =
     obind (Dirname filename) (\<lambda>dirname.
       Inr \<lparr>pf_pos = 0, pf_fd = fd, pf_is_manifest = IsManifest filename,
            pf_filename = filename, pf_dirname = dirname\<rparr>)"

definition PosixWritableFile_Append :: "slice \<Rightarrow> posix_file \<Rightarrow> status \<times> posix_file" where
  "PosixWritableFile_Append data f = (Status_OK, f)"

definition PosixWritableFile_Close :: "posix_file \<Rightarrow> status \<times> posix_file" where
  "PosixWritableFile_Close f = (Status_OK, f)"

definition PosixWritableFile_Flush :: "posix_file \<Rightarrow> status \<times> posix_file" where
  "PosixWritableFile_Flush f = (Status_OK, f)"

definition PosixWritableFile_Sync :: "posix_file \<Rightarrow> status \<times> posix_file" where
  "PosixWritableFile_Sync f = (Status_OK, f)"

definition delete_PosixWritableFile :: "posix_file \<Rightarrow> posix_file" where
  "delete_PosixWritableFile f = (if pf_fd f \<ge> 0 then snd (PosixWritableFile_Close f) else f)"

definition NewWritableFile ::
  "(string \<Rightarrow> 'w \<Rightarrow> int \<times> 'w) \<Rightarrow> string \<Rightarrow> 'w \<Rightarrow> (status \<times> posix_file option \<times> 'w) outcome" where
  "NewWritableFile posix_open filename w =
     (case posix_open filename w of (fd, w) \<Rightarrow>
        if fd < 0 then Inr (Status_OK, None, w)
        else obind (PosixWritableFile filename fd) (\<lambda>f. Inr (Status_OK, Some f, w)))"

section \<open>Directory names\<close>

lemma rfind_None: "c \<notin> set s \<Longrightarrow> rfind c s = None"
  by (induction s) auto

lemma rfind_last: "c \<notin> set base \<Longrightarrow> rfind c (dir @ c # base) = Some (length dir)"
  by (induction dir) (auto simp: rfind_None)

lemma find_from_None: "c \<notin> set s \<Longrightarrow> find_from c s pos = None"
  by (induction s arbitrary: pos) (auto split: nat.split)

lemma find_from_skip:
  "find_from c (xs @ ys) (length xs + n) = map_option (\<lambda>i. length xs + i) (find_from c ys n)"
  by (induction xs) (auto simp: option.map_comp comp_def map_option.identity)

text \<open>The assert of \<open>Dirname\<close> holds for every name, and the result is what precedes the last slash.\<close>

lemma Dirname_value:
  "Dirname s =
     Inr (if CHR ''/'' \<in> set s then rev (tl (dropWhile (\<lambda>c. c \<noteq> CHR ''/'') (rev s))) else ''.'')"
proof (cases "CHR ''/'' \<in> set s")
  case False
  then show ?thesis by (simp add: Dirname_def rfind_None)
next
  case True
  then obtain dir base where s: "s = dir @ CHR ''/'' # base" "CHR ''/'' \<notin> set base"
    by (metis split_list_last)
  have "find_from CHR ''/'' s (length dir + 1) = None"
    using find_from_skip [of "CHR ''/''" dir "CHR ''/'' # base" 1] s
    by (simp add: find_from_None)
  moreover have "dropWhile (\<lambda>c. c \<noteq> CHR ''/'') (rev s) = CHR ''/'' # rev dir"
    using s by (simp add: dropWhile_append)
  ultimately show ?thesis
    using s True by (simp add: Dirname_def rfind_last)
qed

text \<open>A file that cannot be opened is reported as OK, with no file.\<close>

lemma NewWritableFile_failure:
  "fst (posix_open filename w) < 0 \<Longrightarrow>
   NewWritableFile posix_open filename w = Inr (Status_OK, None, snd (posix_open filename w))"
  by (simp add: NewWritableFile_def case_prod_unfold)

lemma NewWritableFile_success:
  "0 \<le> fst (posix_open filename w) \<Longrightarrow>
   \<exists>f. NewWritableFile posix_open filename w = Inr (Status_OK, Some f, snd (posix_open filename w)) \<and>
       pf_fd f = fst (posix_open filename w) \<and> pf_filename f = filename"
  by (simp add: NewWritableFile_def PosixWritableFile_def Dirname_value case_prod_unfold)

end
