(* ===== verification/Spec2Isabelle.thy ===== *)
theory Spec2Isabelle
  imports SkipListReaders VersionHistory DbFlush DbCompact DbSnapshots DbTables WriteOrder Demo TableProps TableBuilder LogWriter EnvPosix
begin

text \<open>
  A verification library for the key-value store in \<open>src/leveldb\<close>.

  \<^bold>\<open>The program.\<close> A write goes through \<open>DBImpl::Write\<close> (\<open>db/db_impl.cc\<close>): writers queue up, the
  first one logs a batch, inserts it into the memtable, whose data structure is the skip list of
  \<open>db/skiplist.h\<close>, and advances the sequence number. A full memtable is flushed in the background:
  \<open>BuildTable\<close> (\<open>db/builder.cc\<close>) writes a table file through the table builder, and
  \<open>VersionSet::LogAndApply\<close> (\<open>db/version_set.cc\<close>) turns the edit that adds the file into a new
  version with \<open>VersionSet::Builder\<close>, writes the MANIFEST and renames CURRENT to it
  (\<open>db/filename.cc\<close>). A read looks into the memtables and then into the table files of the current
  version, newest first (\<open>Version::Get\<close>), each through the table cache (\<open>db/table_cache.cc\<close>) and
  \<open>Table\<close> (\<open>table/table.cc\<close>).

  \<^bold>\<open>How it is modelled.\<close> Every function with a body is a definition with the name it has in the
  source (\<open>Class_function\<close> where the name alone would be ambiguous). Objects the code shares by
  pointer live in an explicit store: the arena of the skip list, the version objects and file
  metadata of \<open>VersionStore\<close>, the heaps of \<open>Heap\<close> for the table layer. A run that dereferences
  null, reads outside an array or a deleted object, or fails an assert is a fault, \<open>Inl\<close> of
  \<open>outcome\<close>; \<open>NDEBUG\<close> is the argument \<open>nd\<close>. Loops that need not end are
  \<open>partial_function (option)\<close>, where \<open>None\<close> is a run that does not return: no fuel is used, and the
  theorems state that the run returns. Integers that can wrap are words of their width. Classes and
  functions that are declared but have no body in the repository are arguments, and what is
  required of them is a hypothesis of the theorems, shown satisfiable by their witnesses.
  \<open>Status::ok()\<close> returns true for every status at this commit, so every error branch is dead; the
  operations therefore take the predicate \<open>ok\<close> as an argument, and the theorems hold for every \<open>ok\<close>,
  or say which one they are about: \<open>Status_ok\<close> is the one of the code.

  \<^bold>\<open>The theories.\<close>
  \<^item> \<open>LdbPrelude\<close>: words, faults, loops, the contracts \<open>comparator\<close> and \<open>weak_order\<close> with their
    lemmas on sorted lists. \<open>Heap\<close>: objects reached by pointers. \<open>Status\<close>:
    \<open>include/leveldb/status.h\<close>, \<open>slice.h\<close>.
  \<^item> \<open>SkipList\<close> models \<open>db/skiplist.h\<close>: the list with its nodes as arrays of links, and the iterator.
    \<open>SkipListSearch\<close> holds the invariant (every level is a sorted sublist of the one below) and the
    searches, \<open>SkipListInsert\<close> construction and insertion store by store. \<open>SkipListSpec\<close> states what
    the list promises as the locale \<open>ordered_index\<close>, which the skip list is shown to satisfy for every
    comparator; \<open>SkipListProps\<close> has the properties. \<open>SkipListConcurrent\<close> interleaves the loads of a
    search with the stores of inserts, and \<open>SkipListReaders\<close> shows that such a search is linearizable
    and ends.
  \<^item> \<open>Filename\<close>: \<open>db/filename.cc\<close>, and that CURRENT is replaced atomically. \<open>Dbformat\<close>:
    \<open>db/dbformat.h\<close>.
  \<^item> \<open>VersionEdit\<close>: \<open>db/version_edit.h\<close>, \<open>.cc\<close>. \<open>VersionStore\<close>: \<open>FileMetaData\<close>, \<open>Version\<close> and the
    members of \<open>VersionSet\<close>. \<open>VersionBuilder\<close>: \<open>VersionSet::Builder\<close>. \<open>VersionSaveTo\<close>,
    \<open>VersionApply\<close> and \<open>VersionRefs\<close> show what applying edits and saving computes and that the
    reference counts of the files stay right; \<open>VersionBuilderProps\<close> has the properties.
    \<open>VersionSet\<close> and \<open>VersionSetProps\<close>: \<open>AppendVersion\<close>, \<open>Finalize\<close>, \<open>WriteSnapshot\<close>,
    \<open>LogAndApply\<close>. \<open>VersionKeys\<close>: the files of a level as numbers with key ranges, and which edits
    keep them apart. \<open>VersionBuilt\<close>, \<open>VersionCommit\<close>: the builder inside \<open>LogAndApply\<close>, and \<open>LogAndApply\<close>
    from end to end. \<open>VersionHistory\<close>: any sequence of \<open>LogAndApply\<close> against an abstract state.
    \<open>VersionGet\<close>: \<open>Version::Get\<close>. \<open>VersionTables\<close>: \<open>Version::Get\<close> over the table cache.
  \<^item> \<open>BuildTable\<close>: \<open>db/builder.cc\<close>. \<open>MemTable\<close>: reference counts of \<open>db/memtable.h\<close>, with the locale
    \<open>counted\<close>.
  \<^item> \<open>DbImpl\<close>, \<open>DbWrite\<close>, \<open>DbRead\<close>: \<open>db/db_impl.cc\<close>. \<open>WriteQueue\<close>: the threads inside \<open>Write\<close> as a
    transition system, with exclusion, order and progress; \<open>WriteOrder\<close>: what they commit, piece by
    piece. \<open>Background\<close>: the scheduling of
    background work as a transition system. \<open>DbExample\<close>, \<open>DbProps\<close>: an instance and the properties.
    \<open>DbReadWrite\<close>: a write and the read after it. \<open>DbSnapshots\<close>: any number of puts, and reads at any
    sequence number, against a map. \<open>DbTables\<close>: \<open>Get\<close> down to the table files.
    \<open>DbFlush\<close>, \<open>DbCompact\<close>: \<open>CompactMemtable\<close> and a trivial move from end to end. \<open>Demo\<close>: the program \<open>test.cc\<close>.
  \<^item> \<open>TableFormat\<close>: \<open>table/format.h\<close> and the options. \<open>Table\<close>: \<open>table/table.cc\<close>. \<open>TableCache\<close>:
    \<open>db/table_cache.cc\<close>. \<open>TableOwnership\<close>, \<open>TableOpen\<close> and \<open>TableCacheInv\<close> state who owns the files,
    blocks, filters and tables and that every operation keeps it so; \<open>TableExample\<close>,
    \<open>TableCacheProps\<close>, \<open>TableProps\<close>: an instance and the properties. \<open>TableCacheReads\<close>: a lookup
    reads the table of its own file, and the life of the cache from construction to destruction.
  \<^item> \<open>TableBuilder\<close>: \<open>table/table_builder.cc\<close>, construction and destruction. \<open>LogWriter\<close>:
    \<open>db/log_writer.cc\<close>. \<open>EnvPosix\<close>: \<open>util/env_posix.cc\<close>.

  \<^bold>\<open>What is shown.\<close> The skip list refines a sorted list, also between the stores of an insert and
  for readers beside it. A builder yields, level by level, the sorted files of the version with the
  edits applied, without losing or leaking a file. \<open>LogAndApply\<close> installs the version
  its edit describes, or leaves the old one, and keeps what the next call needs, so that any
  sequence of edits refines an abstract state of file numbers and key ranges by level; edits that
  keep the ranges on a level apart never fail the overlap assert, and a trivial move is such an
  edit. Writers are served one at
  a time in their order and none is stuck, and the log has their batches in this order, numbered
  without gaps; at most one background task runs. \<open>Get\<close> finds the
  newest entry, through the memtables, the current version, the table cache and the tables, or
  reports an error; a thread reads what it wrote, and a read at a snapshot what was there then. The table cache never leaks or reuses an
  object, and is empty when it is destroyed. Where the code
  does not do what it is meant to do, the theorem says what it does: \<open>Prev\<close> of an
  iterator does not move, \<open>BuildTable\<close> removes the file it wrote, so a flush drops
  the memtable with no table in its place, \<open>MakeRoomForWrite\<close> tests the background
  error the wrong way round, and a table file that cannot be opened is used all the same.

  \<^bold>\<open>Not modelled.\<close> Threads run one step at a time and stores take effect in program order: memory
  orderings are not modelled beyond that. \<open>Arena\<close>, \<open>Random\<close>, \<open>Cache\<close>, \<open>Comparator\<close>, \<open>Iterator\<close>,
  \<open>Block\<close> (empty files) and everything that is declared without a body (\<open>MemTable::Add\<close> and
  \<open>Get\<close>, \<open>WriteBatch\<close>, \<open>Table::InternalGet\<close>, the table builder's \<open>Add\<close> and \<open>Finish\<close>,
  \<open>VersionSet::Recover\<close>, compaction proper) are arguments where they are called, and absent
  otherwise. \<open>log::Writer::AddRecord\<close> flows off its end without a value at this commit
  (\<open>log_AddRecord\<close>), and the operations of \<open>PosixWritableFile\<close> have no effect; the operations that
  call them take them as arguments, so that the theorems also hold once they are written. The
  members \<open>new DBImpl()\<close> leaves unset are the state the operations of the database start from. The
  headers of \<open>include/leveldb\<close> declare only.
\<close>

end
